(* ===== verification/Prelude.thy ===== *)
theory Prelude
  imports Main "HOL-Library.Word" "HOL-Library.Monad_Syntax"
begin

text \<open>
  What the components share: the names of the machine integers, bounds-checked reads of a
  byte buffer, big-endian fields, power-of-two index masks, and the interface of a machine
  driven by a sequence of events.
\<close>

unbundle bit_operations_syntax

type_synonym u8 = "8 word"
type_synonym u16 = "16 word"
type_synonym u32 = "32 word"
type_synonym u64 = "64 word"

named_theorems word_nat_simps \<open>from words to natural numbers\<close>
named_theorems rd_simps \<open>bounds-checked reads inside the buffer\<close>

lemmas [word_nat_simps] = word_le_nat_alt word_less_nat_alt word_unat_eq_iff


subsection \<open>Bounds-checked buffer access\<close>

text \<open>
  A C buffer of known length is a list. Reading it outside its bounds is undefined in C; the
  models make such a read the value None, so that a parser which returns Some on every input
  provably never reads past the end.
\<close>

definition rd :: "'a list \<Rightarrow> nat \<Rightarrow> 'a option" where
  "rd xs i = (if i < length xs then Some (xs ! i) else None)"

definition rd_bytes :: "'a list \<Rightarrow> nat \<Rightarrow> nat \<Rightarrow> 'a list option" where
  "rd_bytes xs off n = (if off + n \<le> length xs then Some (take n (drop off xs)) else None)"

definition be16 :: "u8 \<Rightarrow> u8 \<Rightarrow> u16" where
  "be16 a b = push_bit 8 (ucast a) OR ucast b"

definition rd16 :: "u8 list \<Rightarrow> nat \<Rightarrow> u16 option" where
  "rd16 xs i = do { a \<leftarrow> rd xs i; b \<leftarrow> rd xs (i + 1); Some (be16 a b) }"

lemma rd_in [rd_simps]: "i < length xs \<Longrightarrow> rd xs i = Some (xs ! i)"
  by (simp add: rd_def)

lemma rd_Some: "rd xs i = Some x \<longleftrightarrow> i < length xs \<and> xs ! i = x"
  by (auto simp: rd_def)

lemma rd16_in [rd_simps]: "i + 1 < length xs \<Longrightarrow> rd16 xs i = Some (be16 (xs ! i) (xs ! (i + 1)))"
  by (simp add: rd16_def rd_def)

lemma rd_bytes_in [rd_simps]: "off + n \<le> length xs \<Longrightarrow> rd_bytes xs off n = Some (take n (drop off xs))"
  by (simp add: rd_bytes_def)

lemma length_rd_bytes: "rd_bytes xs off n = Some ys \<Longrightarrow> length ys = n"
  by (auto simp: rd_bytes_def split: if_splits)

lemma unat_u8_lt: "unat (b :: u8) < 256"
  using unsigned_less [of b, where ?'a = nat] by simp

lemma unat_u16_lt: "unat (b :: u16) < 65536"
  using unsigned_less [of b, where ?'a = nat] by simp


subsection \<open>Index masks\<close>

text \<open>Masking with a power of two less one is the remainder.\<close>

lemma and_pow2_mod:
  fixes w :: "'a::len word"
  assumes "unat m = 2 ^ k"
  shows "unat (w AND (m - 1)) = unat w mod 2 ^ k"
proof -
  have "m = 2 ^ k"
    using assms by (metis of_nat_numeral of_nat_power of_nat_unat ucast_id)
  then have "w AND (m - 1) = take_bit k w"
    by (simp add: take_bit_eq_mask mask_eq_exp_minus_1)
  then have "unat (w AND (m - 1)) = take_bit k (unat w)"
    by (simp add: unsigned_take_bit_eq)
  then show ?thesis
    by (simp only: take_bit_eq_mod)
qed


text \<open>A number that shares no bit with its predecessor is a power of two.\<close>

lemma nat_and_pred_zero:
  fixes n :: nat
  assumes "n \<noteq> 0" and "n AND (n - 1) = 0"
  shows "\<exists>k. n = 2 ^ k"
  using assms
proof (induction n rule: less_induct)
  case (less n)
  show ?case
  proof (cases "even n")
    case True
    then obtain m where m: "n = 2 * m" by blast
    with less.prems have "m \<noteq> 0" and "m < n" by auto
    moreover have "m AND (m - 1) = 0"
    proof -
      have "(n - 1) div 2 = m - 1" and "odd (n - 1)" using m \<open>m \<noteq> 0\<close> by auto
      then have "n AND (n - 1) = 2 * (m AND (m - 1))"
        using m by (subst and_nat_rec) simp
      then show ?thesis using less.prems by simp
    qed
    ultimately obtain k where "m = 2 ^ k" using less.IH by blast
    then have "n = 2 ^ Suc k" using m by simp
    then show ?thesis by blast
  next
    case False
    then obtain m where m: "n = 2 * m + 1" using oddE by blast
    then have "n AND (n - 1) = 2 * (m AND m)"
      by (subst and_nat_rec) simp
    then have "n = 2 ^ 0" using less.prems m by simp
    then show ?thesis by blast
  qed
qed


lemma unat_ucast_32_64 [simp]: "unat (ucast (w :: u32) :: u64) = unat w"
  by (simp add: unsigned_ucast_eq unsigned_take_bit_eq take_bit_nat_eq_self_iff)
     (use unsigned_less [of w, where ?'a = nat] in simp)

lemma unat_ucast_16_64 [simp]: "unat (ucast (w :: u16) :: u64) = unat w"
  by (simp add: unsigned_ucast_eq unsigned_take_bit_eq take_bit_nat_eq_self_iff)
     (use unsigned_less [of w, where ?'a = nat] in simp)

lemma unat_sub_le: "b \<le> a \<Longrightarrow> unat (a - b) = unat a - unat b" for a b :: "'a::len word"
  by (simp add: unat_sub)

lemma unat_inc: "e \<noteq> - 1 \<Longrightarrow> unat (e + 1) = unat e + 1" for e :: "'a::len word"
  using unatSuc [of e] by (simp add: add.commute eq_neg_iff_add_eq_0)

lemma le_inc: "e \<noteq> - 1 \<Longrightarrow> e \<le> e + 1" for e :: "'a::len word"
  by (simp add: word_le_nat_alt unat_inc)

lemma le_pred_word:
  fixes e q :: "'a::len word"
  assumes "e < q"
  shows "e \<le> q - 1"
proof -
  have "q \<noteq> 0" using assms by auto
  then have "unat (q - 1) = unat q - 1" by (simp add: unat_minus_one)
  then show ?thesis using assms by (simp add: word_le_nat_alt word_less_nat_alt)
qed

lemma unat_u32_lt: "unat (w :: u32) < 4294967296"
  using unsigned_less [of w, where ?'a = nat] by simp

text \<open>Two numbers of one window with the same index are equal.\<close>

lemma window_mod_inj:
  fixes a b e n :: nat
  assumes "e \<le> a" "a < e + n" "e \<le> b" "b < e + n" "a mod n = b mod n"
  shows "a = b"
proof -
  have "\<And>x y. e \<le> x \<Longrightarrow> x \<le> y \<Longrightarrow> y < e + n \<Longrightarrow> x mod n = y mod n \<Longrightarrow> x = y"
  proof -
    fix x y assume xy: "e \<le> x" "x \<le> y" "y < e + n" "x mod n = y mod n"
    then have "n dvd y - x" by (metis mod_eq_dvd_iff_nat)
    moreover have "y - x < n" using xy by linarith
    ultimately have "y - x = 0" by (metis dvd_imp_le linorder_not_less neq0_conv)
    with xy show "x = y" by simp
  qed
  then show ?thesis using assms by (metis nat_le_linear)
qed


subsection \<open>Sorted lists\<close>

lemma sorted_list_of_set_append:
  fixes A B :: "'a::linorder set"
  assumes "finite A" "finite B" and "\<And>a b. a \<in> A \<Longrightarrow> b \<in> B \<Longrightarrow> a < b"
  shows "sorted_list_of_set (A \<union> B) = sorted_list_of_set A @ sorted_list_of_set B"
proof (rule sorted_distinct_set_unique)
  show "sorted (sorted_list_of_set A @ sorted_list_of_set B)"
    using assms by (auto simp: sorted_append less_imp_le)
  show "distinct (sorted_list_of_set A @ sorted_list_of_set B)"
    using assms by fastforce
qed (use assms in auto)


subsection \<open>Machines driven by a sequence of operations\<close>

text \<open>
  The interface of a component that starts in a known state and is changed only by its
  operations: \<open>ok s x\<close> is what the callers of operation \<open>x\<close> guarantee in state \<open>s\<close>.
\<close>

fun run :: "('s \<Rightarrow> 'x \<Rightarrow> 's) \<Rightarrow> 's \<Rightarrow> 'x list \<Rightarrow> 's" where
  "run step s [] = s"
| "run step s (x # xs) = run step (step s x) xs"

fun run_ok :: "('s \<Rightarrow> 'x \<Rightarrow> 's) \<Rightarrow> ('s \<Rightarrow> 'x \<Rightarrow> bool) \<Rightarrow> 's \<Rightarrow> 'x list \<Rightarrow> bool" where
  "run_ok step ok s [] = True"
| "run_ok step ok s (x # xs) = (ok s x \<and> run_ok step ok (step s x) xs)"

lemma run_append: "run step s (xs @ ys) = run step (run step s xs) ys"
  by (induction xs arbitrary: s) auto

lemma run_ok_append:
  "run_ok step ok s (xs @ ys) \<longleftrightarrow> run_ok step ok s xs \<and> run_ok step ok (run step s xs) ys"
  by (induction xs arbitrary: s) auto

lemma run_ok_True: "run_ok step (\<lambda>_ _. True) s xs"
  by (induction xs arbitrary: s) simp_all

locale machine =
  fixes step :: "'s \<Rightarrow> 'x \<Rightarrow> 's"
    and ok :: "'s \<Rightarrow> 'x \<Rightarrow> bool"
    and inv :: "'s \<Rightarrow> bool"
  assumes step_inv: "inv s \<Longrightarrow> ok s x \<Longrightarrow> inv (step s x)"
begin

lemma run_inv: "inv s \<Longrightarrow> run_ok step ok s xs \<Longrightarrow> inv (run step s xs)"
  by (induction xs arbitrary: s) (auto intro: step_inv)

text \<open>A relation between successive states that is reflexive and transitive holds across a run.\<close>

lemma run_rel:
  assumes "inv s" and "run_ok step ok s xs"
    and "\<And>s. R s s" and "\<And>s t u. R s t \<Longrightarrow> R t u \<Longrightarrow> R s u"
    and "\<And>s x. inv s \<Longrightarrow> ok s x \<Longrightarrow> R s (step s x)"
  shows "R s (run step s xs)"
  using assms(1,2)
  by (induction xs arbitrary: s) (auto intro: assms(3-5) step_inv)

end

end
