(* ===== verification/Path_Fsm.thy ===== *)
theory Path_Fsm
  imports Prelude
begin

text \<open>
  The path-slot lifecycle of \<^verbatim>\<open>path_state_machine.c\<close>: the slot record of
  \<^verbatim>\<open>path_entry_internal.h\<close>, one definition per event handler, the dispatcher
  \<open>path_on_event\<close>, the debug-build assertion \<open>path_invariant_check\<close>, and the per-tick
  stability check. C flags that only ever hold 0 or 1 are booleans; \<open>recreate_retries\<close> is an
  integer, since the code compares and increments it as a C int far below its limit; timestamps
  and path ids are 64-bit words. Function pointers and the transport context are opaque ids,
  None being NULL. Text logging is left out, but for the transition log, which
  \<open>fc_transitions\<close> records.
\<close>


section \<open>Data\<close>

datatype mqvpn_path_status =
    MQVPN_PATH_PENDING | MQVPN_PATH_ACTIVE | MQVPN_PATH_DEGRADED | MQVPN_PATH_STANDBY
  | MQVPN_PATH_CLOSED

datatype path_lifecycle =
    PATH_LC_PENDING | PATH_LC_CREATE_WAIT | PATH_LC_VALIDATING | PATH_LC_ACTIVE
  | PATH_LC_STANDBY | PATH_LC_DEGRADED | PATH_LC_CLOSED_RECOVERABLE
  | PATH_LC_CLOSED_DROPPED | PATH_LC_CLOSED_FREE

datatype path_event =
    PATH_EVENT_ACTIVATE_REQUESTED | PATH_EVENT_RETRY_TIMER | PATH_EVENT_VALIDATION_OK
  | PATH_EVENT_XQUIC_REMOVED | PATH_EVENT_MANUAL_REACTIVATE | PATH_EVENT_PLATFORM_DROP
  | PATH_EVENT_REMOVE_API | PATH_EVENT_ADD | PATH_EVENT_CONN_RESET
  | PATH_EVENT_TRANSPORT_RELEASED

datatype activate_result = ACTIVATE_OK | ACTIVATE_TRANSIENT_FAIL | ACTIVATE_PERMANENT_FAIL

datatype path_transition_reason =
    PATH_REASON_ADD | PATH_REASON_ACTIVATE_OK | PATH_REASON_ACTIVATE_FAILED
  | PATH_REASON_XQUIC_REMOVED | PATH_REASON_PLATFORM_DROPPED | PATH_REASON_REMOVE_API
  | PATH_REASON_REACTIVATE | PATH_REASON_CONN_RESET | PATH_REASON_RETRY_RESET
  | PATH_REASON_TRANSPORT_RELEASED

record path_event_ctx =
  ctx_result :: activate_result
  ctx_new_xqc_path_id :: u64
  ctx_validated_target :: path_lifecycle
  ctx_now_us :: u64

record path_ops =
  ops_send :: "nat option"
  ops_get_stats :: "nat option"
  ops_release :: "nat option"

record path_entry =
  pe_handle :: int
  pe_ops :: path_ops
  pe_transport_ctx :: "nat option"
  pe_transport_attached :: bool
  pe_transport_released :: bool
  pe_name :: string
  pe_status :: mqvpn_path_status
  pe_state :: path_lifecycle
  pe_local_addr :: "u8 list"
  pe_local_addr_len :: u32
  pe_platform_net_id :: int
  pe_flags :: u32
  pe_xqc_path_id :: u64
  pe_xquic_path_live :: bool
  pe_srtt_ms :: int
  pe_bytes_tx :: u64
  pe_bytes_rx :: u64
  pe_recreate_after_us :: u64
  pe_recreate_retries :: int
  pe_path_stable_since_us :: u64
  pe_state_entered_at_us :: u64
  pe_last_residence_warn_at_us :: u64

text \<open>
  What the slot's owner provides to the machine: its clock (one reading per event), whether
  the \<open>path_event\<close> callback is installed, and the calls made to that callback and to the
  transition log so far (latest first).
\<close>

record fsm_client =
  fc_now_us :: u64
  fc_path_event_cb :: bool
  fc_path_events :: "(int \<times> mqvpn_path_status) list"
  fc_transitions :: "(int \<times> path_lifecycle \<times> path_lifecycle \<times> path_transition_reason) list"

definition PATH_RECREATE_DELAY_US :: u64 where "PATH_RECREATE_DELAY_US = 5 * 1000000"
definition PATH_RECREATE_MAX_DELAY_US :: u64 where "PATH_RECREATE_MAX_DELAY_US = 60 * 1000000"
definition PATH_RECREATE_MAX_RETRIES :: int where "PATH_RECREATE_MAX_RETRIES = 6"
definition PATH_STABLE_THRESHOLD_US :: u64 where "PATH_STABLE_THRESHOLD_US = 30 * 1000000"
definition PATH_RESIDENCE_PENDING_WARN_US :: u64
  where "PATH_RESIDENCE_PENDING_WARN_US = 30 * 1000 * 1000"
definition PATH_RESIDENCE_DEGRADED_GRACE_US :: u64
  where "PATH_RESIDENCE_DEGRADED_GRACE_US = 60 * 1000 * 1000"


section \<open>Names and projections\<close>

fun mqvpn_path_status_name :: "mqvpn_path_status \<Rightarrow> string" where
  "mqvpn_path_status_name MQVPN_PATH_PENDING = ''PENDING''"
| "mqvpn_path_status_name MQVPN_PATH_ACTIVE = ''ACTIVE''"
| "mqvpn_path_status_name MQVPN_PATH_STANDBY = ''STANDBY''"
| "mqvpn_path_status_name MQVPN_PATH_DEGRADED = ''DEGRADED''"
| "mqvpn_path_status_name MQVPN_PATH_CLOSED = ''CLOSED''"

fun mqvpn_path_transition_reason_name :: "path_transition_reason \<Rightarrow> string" where
  "mqvpn_path_transition_reason_name PATH_REASON_ADD = ''ADD''"
| "mqvpn_path_transition_reason_name PATH_REASON_ACTIVATE_OK = ''ACTIVATE_OK''"
| "mqvpn_path_transition_reason_name PATH_REASON_ACTIVATE_FAILED = ''ACTIVATE_FAILED''"
| "mqvpn_path_transition_reason_name PATH_REASON_XQUIC_REMOVED = ''XQUIC_REMOVED''"
| "mqvpn_path_transition_reason_name PATH_REASON_PLATFORM_DROPPED = ''PLATFORM_DROPPED''"
| "mqvpn_path_transition_reason_name PATH_REASON_REMOVE_API = ''REMOVE_API''"
| "mqvpn_path_transition_reason_name PATH_REASON_REACTIVATE = ''REACTIVATE''"
| "mqvpn_path_transition_reason_name PATH_REASON_CONN_RESET = ''CONN_RESET''"
| "mqvpn_path_transition_reason_name PATH_REASON_RETRY_RESET = ''RETRY_RESET''"
| "mqvpn_path_transition_reason_name PATH_REASON_TRANSPORT_RELEASED = ''TRANSPORT_RELEASED''"

fun path_lifecycle_name :: "path_lifecycle \<Rightarrow> string" where
  "path_lifecycle_name PATH_LC_PENDING = ''PENDING''"
| "path_lifecycle_name PATH_LC_CREATE_WAIT = ''CREATE_WAIT''"
| "path_lifecycle_name PATH_LC_VALIDATING = ''VALIDATING''"
| "path_lifecycle_name PATH_LC_ACTIVE = ''ACTIVE''"
| "path_lifecycle_name PATH_LC_STANDBY = ''STANDBY''"
| "path_lifecycle_name PATH_LC_DEGRADED = ''DEGRADED''"
| "path_lifecycle_name PATH_LC_CLOSED_RECOVERABLE = ''CLOSED_RECOVERABLE''"
| "path_lifecycle_name PATH_LC_CLOSED_DROPPED = ''CLOSED_DROPPED''"
| "path_lifecycle_name PATH_LC_CLOSED_FREE = ''CLOSED_FREE''"

fun path_event_name :: "path_event \<Rightarrow> string" where
  "path_event_name PATH_EVENT_ACTIVATE_REQUESTED = ''ACTIVATE_REQUESTED''"
| "path_event_name PATH_EVENT_RETRY_TIMER = ''RETRY_TIMER''"
| "path_event_name PATH_EVENT_VALIDATION_OK = ''VALIDATION_OK''"
| "path_event_name PATH_EVENT_XQUIC_REMOVED = ''XQUIC_REMOVED''"
| "path_event_name PATH_EVENT_MANUAL_REACTIVATE = ''MANUAL_REACTIVATE''"
| "path_event_name PATH_EVENT_PLATFORM_DROP = ''PLATFORM_DROP''"
| "path_event_name PATH_EVENT_REMOVE_API = ''REMOVE_API''"
| "path_event_name PATH_EVENT_ADD = ''ADD''"
| "path_event_name PATH_EVENT_CONN_RESET = ''CONN_RESET''"
| "path_event_name PATH_EVENT_TRANSPORT_RELEASED = ''TRANSPORT_RELEASED''"

fun path_public_status_from_lifecycle :: "path_lifecycle \<Rightarrow> mqvpn_path_status" where
  "path_public_status_from_lifecycle PATH_LC_PENDING = MQVPN_PATH_PENDING"
| "path_public_status_from_lifecycle PATH_LC_CREATE_WAIT = MQVPN_PATH_PENDING"
| "path_public_status_from_lifecycle PATH_LC_VALIDATING = MQVPN_PATH_PENDING"
| "path_public_status_from_lifecycle PATH_LC_ACTIVE = MQVPN_PATH_ACTIVE"
| "path_public_status_from_lifecycle PATH_LC_STANDBY = MQVPN_PATH_STANDBY"
| "path_public_status_from_lifecycle PATH_LC_DEGRADED = MQVPN_PATH_DEGRADED"
| "path_public_status_from_lifecycle PATH_LC_CLOSED_RECOVERABLE = MQVPN_PATH_CLOSED"
| "path_public_status_from_lifecycle PATH_LC_CLOSED_DROPPED = MQVPN_PATH_CLOSED"
| "path_public_status_from_lifecycle PATH_LC_CLOSED_FREE = MQVPN_PATH_CLOSED"


section \<open>Debug-build assertions\<close>

text \<open>
  \<open>path_invariant_check\<close> is True exactly when no \<^verbatim>\<open>assert\<close> of the function of
  that name fails.
\<close>

definition path_attached_ok :: "path_entry \<Rightarrow> bool" where
  "path_attached_ok p \<longleftrightarrow> pe_transport_attached p \<and> \<not> pe_transport_released p"

definition path_invariant_check :: "path_entry \<Rightarrow> bool" where
  "path_invariant_check p \<longleftrightarrow>
     pe_status p = path_public_status_from_lifecycle (pe_state p) \<and>
     (case pe_state p of
        PATH_LC_PENDING \<Rightarrow>
          path_attached_ok p \<and> \<not> pe_xquic_path_live p \<and> pe_xqc_path_id p = 0 \<and>
          pe_recreate_after_us p = 0 \<and> pe_path_stable_since_us p = 0
      | PATH_LC_CREATE_WAIT \<Rightarrow>
          path_attached_ok p \<and> \<not> pe_xquic_path_live p \<and> pe_recreate_after_us p \<noteq> 0
      | PATH_LC_VALIDATING \<Rightarrow>
          path_attached_ok p \<and> pe_xquic_path_live p \<and> pe_recreate_after_us p = 0
      | PATH_LC_ACTIVE \<Rightarrow>
          path_attached_ok p \<and> pe_xquic_path_live p \<and> pe_recreate_after_us p = 0
      | PATH_LC_STANDBY \<Rightarrow>
          path_attached_ok p \<and> pe_xquic_path_live p \<and> pe_recreate_after_us p = 0
      | PATH_LC_DEGRADED \<Rightarrow>
          path_attached_ok p \<and> \<not> pe_xquic_path_live p \<and> pe_xqc_path_id p = 0 \<and>
          pe_recreate_after_us p \<noteq> 0 \<and> pe_path_stable_since_us p = 0
      | PATH_LC_CLOSED_RECOVERABLE \<Rightarrow>
          path_attached_ok p \<and> \<not> pe_xquic_path_live p \<and> pe_xqc_path_id p = 0 \<and>
          pe_recreate_after_us p = 0 \<and> pe_path_stable_since_us p = 0
      | PATH_LC_CLOSED_DROPPED \<Rightarrow>
          \<not> pe_transport_attached p \<and> pe_recreate_after_us p = 0 \<and>
          pe_path_stable_since_us p = 0
      | PATH_LC_CLOSED_FREE \<Rightarrow>
          \<not> pe_transport_attached p \<and> pe_transport_released p \<and> \<not> pe_xquic_path_live p \<and>
          pe_xqc_path_id p = 0 \<and> ops_send (pe_ops p) = None \<and> pe_transport_ctx p = None \<and>
          pe_recreate_after_us p = 0 \<and> pe_path_stable_since_us p = 0)"

definition path_invariant_check_legacy :: "path_entry \<Rightarrow> bool" where
  "path_invariant_check_legacy p =
     (case pe_status p of
        MQVPN_PATH_PENDING \<Rightarrow>
          path_attached_ok p \<and> \<not> pe_xquic_path_live p \<and> pe_xqc_path_id p = 0 \<and>
          pe_recreate_after_us p = 0 \<and> pe_path_stable_since_us p = 0
      | MQVPN_PATH_ACTIVE \<Rightarrow>
          path_attached_ok p \<and> pe_xquic_path_live p \<and> pe_recreate_after_us p = 0
      | MQVPN_PATH_STANDBY \<Rightarrow>
          path_attached_ok p \<and> pe_xquic_path_live p \<and> pe_recreate_after_us p = 0
      | MQVPN_PATH_DEGRADED \<Rightarrow>
          path_attached_ok p \<and> \<not> pe_xquic_path_live p \<and> pe_xqc_path_id p = 0 \<and>
          pe_recreate_after_us p \<noteq> 0 \<and> pe_path_stable_since_us p = 0
      | MQVPN_PATH_CLOSED \<Rightarrow>
          (if pe_transport_attached p
           then \<not> pe_xquic_path_live p \<and> path_attached_ok p \<and> pe_xqc_path_id p = 0 \<and>
                pe_recreate_after_us p = 0 \<and> pe_path_stable_since_us p = 0
           else pe_recreate_after_us p = 0 \<and> pe_path_stable_since_us p = 0))"


section \<open>Helpers\<close>

definition path_mark_state_entry :: "path_entry \<Rightarrow> u64 \<Rightarrow> path_entry" where
  "path_mark_state_entry p now_us =
     p\<lparr>pe_state_entered_at_us := now_us, pe_last_residence_warn_at_us := 0\<rparr>"

definition path_is_real_transition :: "mqvpn_path_status \<Rightarrow> mqvpn_path_status \<Rightarrow> u64 \<Rightarrow> bool" where
  "path_is_real_transition old new_status state_entered_at_us =
     (if old \<noteq> new_status then True
      else if state_entered_at_us = 0 then True
      else False)"

definition path_should_warn_residence :: "path_entry \<Rightarrow> u64 \<Rightarrow> bool" where
  "path_should_warn_residence p now_us =
     (if pe_state_entered_at_us p = 0 then False
      else
        let anchor = (if pe_last_residence_warn_at_us p \<noteq> 0
                      then pe_last_residence_warn_at_us p else pe_state_entered_at_us p);
            since_anchor = now_us - anchor
        in case pe_status p of
             MQVPN_PATH_PENDING \<Rightarrow> since_anchor > PATH_RESIDENCE_PENDING_WARN_US
           | MQVPN_PATH_DEGRADED \<Rightarrow>
               pe_recreate_after_us p \<noteq> 0 \<and>
               now_us > pe_recreate_after_us p + PATH_RESIDENCE_DEGRADED_GRACE_US \<and>
               since_anchor > PATH_RESIDENCE_DEGRADED_GRACE_US
           | _ \<Rightarrow> False)"

definition path_log_state_change ::
  "'a fsm_client_scheme \<Rightarrow> path_entry \<Rightarrow> path_lifecycle \<Rightarrow> path_transition_reason \<Rightarrow> 'a fsm_client_scheme"
where
  "path_log_state_change c p old_state reason =
     c\<lparr>fc_transitions := (pe_handle p, old_state, pe_state p, reason) # fc_transitions c\<rparr>"

definition set_path_state_with_log ::
  "'a fsm_client_scheme \<Rightarrow> path_entry \<Rightarrow> path_lifecycle \<Rightarrow> path_transition_reason \<Rightarrow>
   'a fsm_client_scheme \<times> path_entry"
where
  "set_path_state_with_log c p new_state reason =
     (let old_state = pe_state p;
          real = (old_state \<noteq> new_state \<or> pe_state_entered_at_us p = 0)
      in if \<not> real then (c, p)
         else
           let p1 = p\<lparr>pe_status := path_public_status_from_lifecycle new_state,
                      pe_state := new_state\<rparr>;
               p2 = path_mark_state_entry p1 (fc_now_us c)
           in (path_log_state_change c p2 old_state reason, p2))"

function path_recreate_backoff_loop :: "int \<Rightarrow> int \<Rightarrow> u64 \<Rightarrow> u64" where
  "path_recreate_backoff_loop r retries delay =
     (if r < retries \<and> delay < PATH_RECREATE_MAX_DELAY_US
      then path_recreate_backoff_loop (r + 1) retries (delay * 2)
      else delay)"
  by pat_completeness auto
termination
  by (relation "measure (\<lambda>(r, retries, delay). nat (retries - r))") auto

declare path_recreate_backoff_loop.simps [simp del]

definition path_recreate_backoff :: "int \<Rightarrow> u64" where
  "path_recreate_backoff retries =
     (let delay = path_recreate_backoff_loop 1 retries PATH_RECREATE_DELAY_US
      in if delay > PATH_RECREATE_MAX_DELAY_US then PATH_RECREATE_MAX_DELAY_US else delay)"

definition path_ops_zero :: path_ops where
  "path_ops_zero = \<lparr>ops_send = None, ops_get_stats = None, ops_release = None\<rparr>"

text \<open>The slot as \<^verbatim>\<open>memset(p, 0, sizeof(*p))\<close> leaves it.\<close>

definition path_entry_zero :: path_entry where
  "path_entry_zero =
     \<lparr>pe_handle = 0, pe_ops = path_ops_zero, pe_transport_ctx = None,
      pe_transport_attached = False, pe_transport_released = False, pe_name = [],
      pe_status = MQVPN_PATH_PENDING, pe_state = PATH_LC_PENDING,
      pe_local_addr = [], pe_local_addr_len = 0, pe_platform_net_id = 0, pe_flags = 0,
      pe_xqc_path_id = 0, pe_xquic_path_live = False, pe_srtt_ms = 0, pe_bytes_tx = 0,
      pe_bytes_rx = 0, pe_recreate_after_us = 0, pe_recreate_retries = 0,
      pe_path_stable_since_us = 0, pe_state_entered_at_us = 0,
      pe_last_residence_warn_at_us = 0\<rparr>"

definition path_entry_init :: path_entry where
  "path_entry_init = path_entry_zero
     \<lparr>pe_transport_released := True, pe_state := PATH_LC_CLOSED_FREE,
      pe_status := path_public_status_from_lifecycle PATH_LC_CLOSED_FREE\<rparr>"

definition apply_failure_with_retry_check ::
  "'a fsm_client_scheme \<Rightarrow> path_entry \<Rightarrow> path_lifecycle \<Rightarrow> path_transition_reason \<Rightarrow> u64 \<Rightarrow>
   'a fsm_client_scheme \<times> path_entry"
where
  "apply_failure_with_retry_check c p retry_target reason now_us =
     (let p1 = p\<lparr>pe_xquic_path_live := False, pe_xqc_path_id := 0,
                 pe_path_stable_since_us := 0,
                 pe_recreate_retries := pe_recreate_retries p + 1\<rparr>
      in if pe_recreate_retries p1 \<ge> PATH_RECREATE_MAX_RETRIES
         then set_path_state_with_log c (p1\<lparr>pe_recreate_after_us := 0\<rparr>)
                PATH_LC_CLOSED_RECOVERABLE reason
         else set_path_state_with_log c
                (p1\<lparr>pe_recreate_after_us := now_us + path_recreate_backoff (pe_recreate_retries p1)\<rparr>)
                retry_target reason)"


section \<open>Event handlers\<close>

definition maybe_transition_dropped_to_free ::
  "'a fsm_client_scheme \<Rightarrow> path_entry \<Rightarrow> path_transition_reason \<Rightarrow> 'a fsm_client_scheme \<times> path_entry"
where
  "maybe_transition_dropped_to_free c p reason =
     (if pe_state p \<noteq> PATH_LC_CLOSED_DROPPED then (c, p)
      else if \<not> pe_transport_released p then (c, p)
      else if pe_xquic_path_live p then (c, p)
      else if pe_xqc_path_id p \<noteq> 0 then (c, p)
      else set_path_state_with_log c p PATH_LC_CLOSED_FREE reason)"

definition path_on_activate_requested ::
  "'a fsm_client_scheme \<Rightarrow> path_entry \<Rightarrow> path_event_ctx \<Rightarrow> 'a fsm_client_scheme \<times> path_entry"
where
  "path_on_activate_requested c p ctx =
     (if pe_state p \<noteq> PATH_LC_PENDING then (c, p)
      else case ctx_result ctx of
        ACTIVATE_OK \<Rightarrow>
          set_path_state_with_log c
            (p\<lparr>pe_xqc_path_id := ctx_new_xqc_path_id ctx, pe_xquic_path_live := True,
               pe_recreate_after_us := 0\<rparr>)
            PATH_LC_VALIDATING PATH_REASON_ACTIVATE_OK
      | ACTIVATE_TRANSIENT_FAIL \<Rightarrow>
          apply_failure_with_retry_check c p PATH_LC_CREATE_WAIT PATH_REASON_ACTIVATE_FAILED
            (ctx_now_us ctx)
      | ACTIVATE_PERMANENT_FAIL \<Rightarrow>
          set_path_state_with_log c
            (p\<lparr>pe_xquic_path_live := False, pe_xqc_path_id := 0, pe_path_stable_since_us := 0,
               pe_recreate_after_us := 0\<rparr>)
            PATH_LC_CLOSED_RECOVERABLE PATH_REASON_ACTIVATE_FAILED)"

definition path_on_retry_timer ::
  "'a fsm_client_scheme \<Rightarrow> path_entry \<Rightarrow> path_event_ctx \<Rightarrow> 'a fsm_client_scheme \<times> path_entry"
where
  "path_on_retry_timer c p ctx =
     (if pe_state p \<noteq> PATH_LC_CREATE_WAIT \<and> pe_state p \<noteq> PATH_LC_DEGRADED then (c, p)
      else
        let retry_target = pe_state p
        in case ctx_result ctx of
             ACTIVATE_OK \<Rightarrow>
               set_path_state_with_log c
                 (p\<lparr>pe_xqc_path_id := ctx_new_xqc_path_id ctx, pe_xquic_path_live := True,
                    pe_recreate_after_us := 0\<rparr>)
                 PATH_LC_VALIDATING PATH_REASON_ACTIVATE_OK
           | ACTIVATE_TRANSIENT_FAIL \<Rightarrow>
               apply_failure_with_retry_check c p retry_target PATH_REASON_ACTIVATE_FAILED
                 (ctx_now_us ctx)
           | ACTIVATE_PERMANENT_FAIL \<Rightarrow>
               set_path_state_with_log c
                 (p\<lparr>pe_xquic_path_live := False, pe_xqc_path_id := 0,
                    pe_path_stable_since_us := 0, pe_recreate_after_us := 0\<rparr>)
                 PATH_LC_CLOSED_RECOVERABLE PATH_REASON_ACTIVATE_FAILED)"

definition path_on_validation_ok ::
  "'a fsm_client_scheme \<Rightarrow> path_entry \<Rightarrow> path_event_ctx \<Rightarrow> 'a fsm_client_scheme \<times> path_entry"
where
  "path_on_validation_ok c p ctx =
     (if pe_state p \<noteq> PATH_LC_VALIDATING then (c, p)
      else set_path_state_with_log c (p\<lparr>pe_path_stable_since_us := ctx_now_us ctx\<rparr>)
             (ctx_validated_target ctx) PATH_REASON_ACTIVATE_OK)"

definition path_on_xquic_removed ::
  "'a fsm_client_scheme \<Rightarrow> path_entry \<Rightarrow> path_event_ctx \<Rightarrow> 'a fsm_client_scheme \<times> path_entry"
where
  "path_on_xquic_removed c p ctx =
     (case pe_state p of
        PATH_LC_VALIDATING \<Rightarrow>
          apply_failure_with_retry_check c p PATH_LC_CREATE_WAIT PATH_REASON_XQUIC_REMOVED
            (ctx_now_us ctx)
      | PATH_LC_ACTIVE \<Rightarrow>
          apply_failure_with_retry_check c p PATH_LC_DEGRADED PATH_REASON_XQUIC_REMOVED
            (ctx_now_us ctx)
      | PATH_LC_STANDBY \<Rightarrow>
          apply_failure_with_retry_check c p PATH_LC_DEGRADED PATH_REASON_XQUIC_REMOVED
            (ctx_now_us ctx)
      | PATH_LC_CLOSED_DROPPED \<Rightarrow>
          maybe_transition_dropped_to_free c
            (p\<lparr>pe_xquic_path_live := False, pe_xqc_path_id := 0\<rparr>) PATH_REASON_XQUIC_REMOVED
      | _ \<Rightarrow> (c, p))"

definition path_on_manual_reactivate ::
  "'a fsm_client_scheme \<Rightarrow> path_entry \<Rightarrow> path_event_ctx \<Rightarrow> 'a fsm_client_scheme \<times> path_entry"
where
  "path_on_manual_reactivate c p ctx =
     (if pe_state p \<noteq> PATH_LC_CLOSED_RECOVERABLE \<and> pe_state p \<noteq> PATH_LC_CREATE_WAIT \<and>
         pe_state p \<noteq> PATH_LC_DEGRADED then (c, p)
      else case ctx_result ctx of
        ACTIVATE_OK \<Rightarrow>
          set_path_state_with_log c
            (p\<lparr>pe_xqc_path_id := ctx_new_xqc_path_id ctx, pe_xquic_path_live := True,
               pe_recreate_after_us := 0\<rparr>)
            PATH_LC_VALIDATING PATH_REASON_REACTIVATE
      | ACTIVATE_TRANSIENT_FAIL \<Rightarrow> (c, p)
      | ACTIVATE_PERMANENT_FAIL \<Rightarrow> (c, p))"

definition path_on_platform_drop ::
  "'a fsm_client_scheme \<Rightarrow> path_entry \<Rightarrow> path_event_ctx \<Rightarrow> 'a fsm_client_scheme \<times> path_entry"
where
  "path_on_platform_drop c p ctx =
     (if pe_state p = PATH_LC_CLOSED_DROPPED then (c, p)
      else if pe_state p = PATH_LC_CLOSED_FREE then (c, p)
      else set_path_state_with_log c
             (p\<lparr>pe_transport_attached := False, pe_recreate_after_us := 0,
                pe_path_stable_since_us := 0\<rparr>)
             PATH_LC_CLOSED_DROPPED PATH_REASON_PLATFORM_DROPPED)"

definition path_on_remove_api ::
  "'a fsm_client_scheme \<Rightarrow> path_entry \<Rightarrow> path_event_ctx \<Rightarrow> 'a fsm_client_scheme \<times> path_entry"
where
  "path_on_remove_api c p ctx =
     (if pe_state p = PATH_LC_CLOSED_DROPPED then (c, p)
      else if pe_state p = PATH_LC_CLOSED_FREE then (c, p)
      else set_path_state_with_log c
             (p\<lparr>pe_transport_attached := False, pe_recreate_after_us := 0,
                pe_path_stable_since_us := 0\<rparr>)
             PATH_LC_CLOSED_DROPPED PATH_REASON_REMOVE_API)"

definition path_on_add ::
  "'a fsm_client_scheme \<Rightarrow> path_entry \<Rightarrow> path_event_ctx \<Rightarrow> 'a fsm_client_scheme \<times> path_entry"
where
  "path_on_add c p ctx =
     (if pe_state p \<noteq> PATH_LC_CLOSED_FREE then (c, p)
      else set_path_state_with_log c
             (p\<lparr>pe_transport_attached := True, pe_transport_released := False\<rparr>)
             PATH_LC_PENDING PATH_REASON_ADD)"

definition path_on_conn_reset ::
  "'a fsm_client_scheme \<Rightarrow> path_entry \<Rightarrow> path_event_ctx \<Rightarrow> 'a fsm_client_scheme \<times> path_entry"
where
  "path_on_conn_reset c p ctx =
     (let p1 = p\<lparr>pe_xquic_path_live := False, pe_xqc_path_id := 0, pe_recreate_after_us := 0,
                 pe_recreate_retries := 0, pe_path_stable_since_us := 0\<rparr>
      in if pe_transport_attached p1
         then set_path_state_with_log c p1 PATH_LC_PENDING PATH_REASON_CONN_RESET
         else maybe_transition_dropped_to_free c p1 PATH_REASON_CONN_RESET)"

definition path_on_transport_released ::
  "'a fsm_client_scheme \<Rightarrow> path_entry \<Rightarrow> path_event_ctx \<Rightarrow> 'a fsm_client_scheme \<times> path_entry"
where
  "path_on_transport_released c p ctx =
     (if pe_state p \<noteq> PATH_LC_CLOSED_DROPPED then (c, p)
      else maybe_transition_dropped_to_free c
             (p\<lparr>pe_transport_ctx := None, pe_transport_released := True\<rparr>)
             PATH_REASON_TRANSPORT_RELEASED)"

definition path_fsm_fire_path_event ::
  "'a fsm_client_scheme \<Rightarrow> path_entry \<Rightarrow> 'a fsm_client_scheme"
where
  "path_fsm_fire_path_event c p =
     (if fc_path_event_cb c
      then c\<lparr>fc_path_events := (pe_handle p, pe_status p) # fc_path_events c\<rparr> else c)"

fun path_dispatch ::
  "'a fsm_client_scheme \<Rightarrow> path_entry \<Rightarrow> path_event \<Rightarrow> path_event_ctx \<Rightarrow> 'a fsm_client_scheme \<times> path_entry"
where
  "path_dispatch c p PATH_EVENT_ACTIVATE_REQUESTED ctx = path_on_activate_requested c p ctx"
| "path_dispatch c p PATH_EVENT_RETRY_TIMER ctx = path_on_retry_timer c p ctx"
| "path_dispatch c p PATH_EVENT_VALIDATION_OK ctx = path_on_validation_ok c p ctx"
| "path_dispatch c p PATH_EVENT_XQUIC_REMOVED ctx = path_on_xquic_removed c p ctx"
| "path_dispatch c p PATH_EVENT_MANUAL_REACTIVATE ctx = path_on_manual_reactivate c p ctx"
| "path_dispatch c p PATH_EVENT_PLATFORM_DROP ctx = path_on_platform_drop c p ctx"
| "path_dispatch c p PATH_EVENT_REMOVE_API ctx = path_on_remove_api c p ctx"
| "path_dispatch c p PATH_EVENT_ADD ctx = path_on_add c p ctx"
| "path_dispatch c p PATH_EVENT_CONN_RESET ctx = path_on_conn_reset c p ctx"
| "path_dispatch c p PATH_EVENT_TRANSPORT_RELEASED ctx = path_on_transport_released c p ctx"

text \<open>
  The dispatcher. The C function ends with \<open>path_invariant_check\<close> on the slot, which aborts
  a debug build when it fails; that it does not is a theorem below.
\<close>

definition path_on_event ::
  "'a fsm_client_scheme \<Rightarrow> path_entry \<Rightarrow> path_event \<Rightarrow> path_event_ctx option \<Rightarrow>
   'a fsm_client_scheme \<times> path_entry"
where
  "path_on_event c p ev ctx_opt =
     (case ctx_opt of
        None \<Rightarrow> (c, p)
      | Some ctx \<Rightarrow>
          (let prior = pe_state p; (c1, p1) = path_dispatch c p ev ctx
           in if prior \<noteq> pe_state p1 then (path_fsm_fire_path_event c1 p1, p1) else (c1, p1)))"

definition path_fsm_tick_confirm_stable ::
  "'a fsm_client_scheme \<Rightarrow> path_entry \<Rightarrow> u64 \<Rightarrow> 'a fsm_client_scheme \<times> path_entry"
where
  "path_fsm_tick_confirm_stable c p now_us =
     (if pe_state p \<noteq> PATH_LC_ACTIVE \<and> pe_state p \<noteq> PATH_LC_STANDBY then (c, p)
      else if pe_path_stable_since_us p = 0 \<or> \<not> pe_xquic_path_live p \<or>
              now_us - pe_path_stable_since_us p < PATH_STABLE_THRESHOLD_US then (c, p)
      else (c, p\<lparr>pe_recreate_retries := 0, pe_path_stable_since_us := now_us\<rparr>))"


section \<open>Retry backoff\<close>

lemma path_recreate_backoff_schedule:
  "path_recreate_backoff r =
     (if r \<le> 1 then 5000000 else if r = 2 then 10000000 else if r = 3 then 20000000
      else if r = 4 then 40000000 else 60000000)"
  unfolding path_recreate_backoff_def PATH_RECREATE_DELAY_US_def PATH_RECREATE_MAX_DELAY_US_def Let_def
  by (auto simp: path_recreate_backoff_loop.simps [of 1] path_recreate_backoff_loop.simps [of 2]
      path_recreate_backoff_loop.simps [of 3] path_recreate_backoff_loop.simps [of 4]
      path_recreate_backoff_loop.simps [of 5] PATH_RECREATE_MAX_DELAY_US_def)

lemma path_recreate_backoff_bounds:
  "5000000 \<le> unat (path_recreate_backoff r)" "unat (path_recreate_backoff r) \<le> 60000000"
  by (auto simp: path_recreate_backoff_schedule)

lemma retry_deadline_nonzero:
  assumes "unat now + 60000000 < 2 ^ 64"
  shows "now + path_recreate_backoff r \<noteq> 0" "unat (now + path_recreate_backoff r) = unat now + unat (path_recreate_backoff r)"
proof -
  have b: "unat now + unat (path_recreate_backoff r) < 2 ^ 64"
    using assms path_recreate_backoff_bounds [of r] by linarith
  then show eq: "unat (now + path_recreate_backoff r) = unat now + unat (path_recreate_backoff r)"
    by (simp add: unat_word_ariths)
  show "now + path_recreate_backoff r \<noteq> 0"
    using eq path_recreate_backoff_bounds(1) [of r] by (metis add_is_0 not_numeral_le_zero unat_0)
qed


section \<open>Writing the lifecycle state\<close>

named_theorems fsm_defs \<open>the handlers, unfolded\<close>

lemmas [fsm_defs] = path_on_activate_requested_def path_on_retry_timer_def
  path_on_validation_ok_def path_on_xquic_removed_def path_on_manual_reactivate_def
  path_on_platform_drop_def path_on_remove_api_def path_on_add_def path_on_conn_reset_def
  path_on_transport_released_def maybe_transition_dropped_to_free_def
  apply_failure_with_retry_check_def

lemma set_path_state_frame [simp]:
  "pe_handle (snd (set_path_state_with_log c p s r)) = pe_handle p"
  "pe_ops (snd (set_path_state_with_log c p s r)) = pe_ops p"
  "pe_transport_ctx (snd (set_path_state_with_log c p s r)) = pe_transport_ctx p"
  "pe_transport_attached (snd (set_path_state_with_log c p s r)) = pe_transport_attached p"
  "pe_transport_released (snd (set_path_state_with_log c p s r)) = pe_transport_released p"
  "pe_name (snd (set_path_state_with_log c p s r)) = pe_name p"
  "pe_xqc_path_id (snd (set_path_state_with_log c p s r)) = pe_xqc_path_id p"
  "pe_xquic_path_live (snd (set_path_state_with_log c p s r)) = pe_xquic_path_live p"
  "pe_recreate_after_us (snd (set_path_state_with_log c p s r)) = pe_recreate_after_us p"
  "pe_recreate_retries (snd (set_path_state_with_log c p s r)) = pe_recreate_retries p"
  "pe_path_stable_since_us (snd (set_path_state_with_log c p s r)) = pe_path_stable_since_us p"
  by (simp_all add: set_path_state_with_log_def path_mark_state_entry_def Let_def)

lemma set_path_state_state [simp]: "pe_state (snd (set_path_state_with_log c p s r)) = s"
  by (simp add: set_path_state_with_log_def path_mark_state_entry_def Let_def)

lemma set_path_state_status [simp]:
  "pe_status p = path_public_status_from_lifecycle (pe_state p) \<Longrightarrow>
   pe_status (snd (set_path_state_with_log c p s r)) = path_public_status_from_lifecycle s"
  by (simp add: set_path_state_with_log_def path_mark_state_entry_def Let_def)

lemma snd_path_on_event [simp]:
  "snd (path_on_event c p ev (Some ctx)) = snd (path_dispatch c p ev ctx)"
  by (simp add: path_on_event_def Let_def split: prod.splits)


section \<open>The slot invariant\<close>

text \<open>
  What holds between events, beyond what the assertions check: a slot waiting for its
  validation or its retry has no stability anchor, a slot waiting for a retry has used between
  one and five failures of its budget, and a slot has a transport installed exactly until that
  transport is released.
\<close>

definition path_core :: "path_entry \<Rightarrow> bool" where
  "path_core p \<longleftrightarrow>
     pe_status p = path_public_status_from_lifecycle (pe_state p) \<and>
     0 \<le> pe_recreate_retries p \<and>
     (case pe_state p of
        PATH_LC_PENDING \<Rightarrow>
          path_attached_ok p \<and> \<not> pe_xquic_path_live p \<and> pe_xqc_path_id p = 0 \<and>
          pe_recreate_after_us p = 0 \<and> pe_path_stable_since_us p = 0
      | PATH_LC_CREATE_WAIT \<Rightarrow>
          path_attached_ok p \<and> \<not> pe_xquic_path_live p \<and> pe_xqc_path_id p = 0 \<and>
          pe_recreate_after_us p \<noteq> 0 \<and> pe_path_stable_since_us p = 0 \<and>
          1 \<le> pe_recreate_retries p \<and> pe_recreate_retries p < PATH_RECREATE_MAX_RETRIES
      | PATH_LC_VALIDATING \<Rightarrow>
          path_attached_ok p \<and> pe_xquic_path_live p \<and> pe_recreate_after_us p = 0 \<and>
          pe_path_stable_since_us p = 0
      | PATH_LC_ACTIVE \<Rightarrow>
          path_attached_ok p \<and> pe_xquic_path_live p \<and> pe_recreate_after_us p = 0
      | PATH_LC_STANDBY \<Rightarrow>
          path_attached_ok p \<and> pe_xquic_path_live p \<and> pe_recreate_after_us p = 0
      | PATH_LC_DEGRADED \<Rightarrow>
          path_attached_ok p \<and> \<not> pe_xquic_path_live p \<and> pe_xqc_path_id p = 0 \<and>
          pe_recreate_after_us p \<noteq> 0 \<and> pe_path_stable_since_us p = 0 \<and>
          1 \<le> pe_recreate_retries p \<and> pe_recreate_retries p < PATH_RECREATE_MAX_RETRIES
      | PATH_LC_CLOSED_RECOVERABLE \<Rightarrow>
          path_attached_ok p \<and> \<not> pe_xquic_path_live p \<and> pe_xqc_path_id p = 0 \<and>
          pe_recreate_after_us p = 0 \<and> pe_path_stable_since_us p = 0
      | PATH_LC_CLOSED_DROPPED \<Rightarrow>
          \<not> pe_transport_attached p \<and> pe_recreate_after_us p = 0 \<and>
          pe_path_stable_since_us p = 0
      | PATH_LC_CLOSED_FREE \<Rightarrow>
          \<not> pe_transport_attached p \<and> pe_transport_released p \<and> \<not> pe_xquic_path_live p \<and>
          pe_xqc_path_id p = 0 \<and> pe_recreate_after_us p = 0 \<and> pe_path_stable_since_us p = 0)"

definition path_transport_ok :: "path_entry \<Rightarrow> bool" where
  "path_transport_ok p \<longleftrightarrow>
     (pe_transport_released p \<longleftrightarrow> ops_send (pe_ops p) = None) \<and>
     (pe_transport_released p \<longrightarrow> pe_transport_ctx p = None)"

definition path_wf :: "path_entry \<Rightarrow> bool" where
  "path_wf p \<longleftrightarrow> path_core p \<and> path_transport_ok p"

text \<open>What the callers of \<open>path_on_event\<close> guarantee (\<^verbatim>\<open>mqvpn_client.c\<close>).\<close>

definition path_event_pre :: "path_entry \<Rightarrow> path_event \<Rightarrow> path_event_ctx \<Rightarrow> bool" where
  "path_event_pre p ev ctx \<longleftrightarrow>
     path_core p \<and> unat (ctx_now_us ctx) + 60000000 < 2 ^ 64 \<and>
     (case ev of
        PATH_EVENT_ADD \<Rightarrow> pe_state p = PATH_LC_CLOSED_FREE \<and> ops_send (pe_ops p) \<noteq> None
      | PATH_EVENT_TRANSPORT_RELEASED \<Rightarrow>
          pe_state p = PATH_LC_CLOSED_DROPPED \<and> ops_send (pe_ops p) = None
      | PATH_EVENT_VALIDATION_OK \<Rightarrow>
          path_transport_ok p \<and> ctx_validated_target ctx \<in> {PATH_LC_ACTIVE, PATH_LC_STANDBY}
      | _ \<Rightarrow> path_transport_ok p)"

lemma path_wf_invariant_check: "path_wf p \<Longrightarrow> path_invariant_check p"
  by (auto simp: path_wf_def path_core_def path_transport_ok_def path_invariant_check_def
      split: path_lifecycle.splits)

lemma path_wf_init: "path_wf path_entry_init"
  by (simp add: path_wf_def path_core_def path_transport_ok_def path_entry_init_def
      path_entry_zero_def path_ops_zero_def)

lemma path_dispatch_core:
  assumes "path_event_pre p ev ctx"
  shows "path_core (snd (path_dispatch c p ev ctx))"
  using assms
  by (cases ev; cases "ctx_result ctx"; cases "pe_state p")
    (simp_all add: path_event_pre_def path_core_def fsm_defs Let_def path_attached_ok_def
      retry_deadline_nonzero PATH_RECREATE_MAX_RETRIES_def, auto simp: path_attached_ok_def)


lemma path_dispatch_transport_ok:
  assumes "path_event_pre p ev ctx"
  shows "path_transport_ok (snd (path_dispatch c p ev ctx))"
  using assms
  by (cases ev; cases "ctx_result ctx"; cases "pe_state p")
    (simp_all add: path_event_pre_def path_transport_ok_def fsm_defs Let_def)

lemma path_on_event_wf:
  "path_event_pre p ev ctx \<Longrightarrow> path_wf (snd (path_on_event c p ev (Some ctx)))"
  by (simp add: path_wf_def path_dispatch_core path_dispatch_transport_ok)

lemma path_fsm_tick_confirm_stable_wf:
  "path_wf p \<Longrightarrow> path_wf (snd (path_fsm_tick_confirm_stable c p now))"
  by (auto simp: path_fsm_tick_confirm_stable_def path_wf_def path_core_def path_transport_ok_def
      path_attached_ok_def split: path_lifecycle.splits)

section \<open>The abstract slot machine\<close>

text \<open>
  The transition operator \<^verbatim>\<open>Step\<close> of the repository's TLA+ model
  (\<^verbatim>\<open>formal/PathSlotFsm.tla\<close>): timers are armed or not, the retry counter saturates
  at the budget. The outputs that say how the timers and the counter were set are left out.
\<close>

record slot =
  sl_state :: path_lifecycle
  sl_attached :: bool
  sl_released :: bool
  sl_live :: bool
  sl_xqcId :: u64
  sl_retryArmed :: bool
  sl_stableArmed :: bool
  sl_retries :: nat

definition MaxRetries :: nat where "MaxRetries = 6"

definition FreeGate :: "slot \<Rightarrow> slot" where
  "FreeGate s =
     (if sl_state s = PATH_LC_CLOSED_DROPPED \<and> sl_released s \<and> \<not> sl_live s \<and> sl_xqcId s = 0
      then s\<lparr>sl_state := PATH_LC_CLOSED_FREE\<rparr> else s)"

definition ApplyFailure :: "slot \<Rightarrow> path_lifecycle \<Rightarrow> slot" where
  "ApplyFailure s target =
     (let capped = (sl_retries s + 1 \<ge> MaxRetries)
      in s\<lparr>sl_live := False, sl_xqcId := 0, sl_stableArmed := False,
           sl_retries := (if sl_retries s < MaxRetries then sl_retries s + 1 else sl_retries s),
           sl_retryArmed := \<not> capped,
           sl_state := (if capped then PATH_LC_CLOSED_RECOVERABLE else target)\<rparr>)"

definition ActivateOk :: "slot \<Rightarrow> u64 \<Rightarrow> slot" where
  "ActivateOk s newId =
     s\<lparr>sl_xqcId := newId, sl_live := True, sl_retryArmed := False,
       sl_state := PATH_LC_VALIDATING\<rparr>"

definition PermanentFail :: "slot \<Rightarrow> slot" where
  "PermanentFail s =
     s\<lparr>sl_live := False, sl_xqcId := 0, sl_stableArmed := False, sl_retryArmed := False,
       sl_state := PATH_LC_CLOSED_RECOVERABLE\<rparr>"

definition OnActivate :: "slot \<Rightarrow> path_event_ctx \<Rightarrow> slot" where
  "OnActivate s ctx =
     (if sl_state s \<noteq> PATH_LC_PENDING then s
      else case ctx_result ctx of
        ACTIVATE_OK \<Rightarrow> ActivateOk s (ctx_new_xqc_path_id ctx)
      | ACTIVATE_TRANSIENT_FAIL \<Rightarrow> ApplyFailure s PATH_LC_CREATE_WAIT
      | ACTIVATE_PERMANENT_FAIL \<Rightarrow> PermanentFail s)"

definition OnRetryTimer :: "slot \<Rightarrow> path_event_ctx \<Rightarrow> slot" where
  "OnRetryTimer s ctx =
     (if sl_state s \<notin> {PATH_LC_CREATE_WAIT, PATH_LC_DEGRADED} then s
      else case ctx_result ctx of
        ACTIVATE_OK \<Rightarrow> ActivateOk s (ctx_new_xqc_path_id ctx)
      | ACTIVATE_TRANSIENT_FAIL \<Rightarrow> ApplyFailure s (sl_state s)
      | ACTIVATE_PERMANENT_FAIL \<Rightarrow> PermanentFail s)"

definition OnValidationOk :: "slot \<Rightarrow> path_event_ctx \<Rightarrow> slot" where
  "OnValidationOk s ctx =
     (if sl_state s \<noteq> PATH_LC_VALIDATING then s
      else s\<lparr>sl_stableArmed := True, sl_state := ctx_validated_target ctx\<rparr>)"

definition OnXquicRemoved :: "slot \<Rightarrow> slot" where
  "OnXquicRemoved s =
     (case sl_state s of
        PATH_LC_VALIDATING \<Rightarrow> ApplyFailure s PATH_LC_CREATE_WAIT
      | PATH_LC_ACTIVE \<Rightarrow> ApplyFailure s PATH_LC_DEGRADED
      | PATH_LC_STANDBY \<Rightarrow> ApplyFailure s PATH_LC_DEGRADED
      | PATH_LC_CLOSED_DROPPED \<Rightarrow> FreeGate (s\<lparr>sl_live := False, sl_xqcId := 0\<rparr>)
      | _ \<Rightarrow> s)"

definition OnManualReactivate :: "slot \<Rightarrow> path_event_ctx \<Rightarrow> slot" where
  "OnManualReactivate s ctx =
     (if sl_state s \<notin> {PATH_LC_CLOSED_RECOVERABLE, PATH_LC_CREATE_WAIT, PATH_LC_DEGRADED} then s
      else if ctx_result ctx = ACTIVATE_OK then ActivateOk s (ctx_new_xqc_path_id ctx)
      else s)"

definition OnDropLike :: "slot \<Rightarrow> slot" where
  "OnDropLike s =
     (if sl_state s \<in> {PATH_LC_CLOSED_DROPPED, PATH_LC_CLOSED_FREE} then s
      else s\<lparr>sl_attached := False, sl_retryArmed := False, sl_stableArmed := False,
             sl_state := PATH_LC_CLOSED_DROPPED\<rparr>)"

definition OnAdd :: "slot \<Rightarrow> slot" where
  "OnAdd s =
     (if sl_state s \<noteq> PATH_LC_CLOSED_FREE then s
      else s\<lparr>sl_attached := True, sl_released := False, sl_state := PATH_LC_PENDING\<rparr>)"

definition OnConnReset :: "slot \<Rightarrow> slot" where
  "OnConnReset s =
     (let s2 = s\<lparr>sl_live := False, sl_xqcId := 0, sl_retryArmed := False, sl_retries := 0,
                 sl_stableArmed := False\<rparr>
      in if sl_attached s then s2\<lparr>sl_state := PATH_LC_PENDING\<rparr> else FreeGate s2)"

definition OnTransportReleased :: "slot \<Rightarrow> slot" where
  "OnTransportReleased s =
     (if sl_state s \<noteq> PATH_LC_CLOSED_DROPPED then s else FreeGate (s\<lparr>sl_released := True\<rparr>))"

fun Handle :: "slot \<Rightarrow> path_event \<Rightarrow> path_event_ctx \<Rightarrow> slot" where
  "Handle s PATH_EVENT_ACTIVATE_REQUESTED ctx = OnActivate s ctx"
| "Handle s PATH_EVENT_RETRY_TIMER ctx = OnRetryTimer s ctx"
| "Handle s PATH_EVENT_VALIDATION_OK ctx = OnValidationOk s ctx"
| "Handle s PATH_EVENT_XQUIC_REMOVED ctx = OnXquicRemoved s"
| "Handle s PATH_EVENT_MANUAL_REACTIVATE ctx = OnManualReactivate s ctx"
| "Handle s PATH_EVENT_PLATFORM_DROP ctx = OnDropLike s"
| "Handle s PATH_EVENT_REMOVE_API ctx = OnDropLike s"
| "Handle s PATH_EVENT_ADD ctx = OnAdd s"
| "Handle s PATH_EVENT_CONN_RESET ctx = OnConnReset s"
| "Handle s PATH_EVENT_TRANSPORT_RELEASED ctx = OnTransportReleased s"

definition Step :: "slot \<Rightarrow> path_event \<Rightarrow> path_event_ctx \<Rightarrow> slot \<times> bool" where
  "Step s ev ctx = (let s' = Handle s ev ctx in (s', sl_state s' \<noteq> sl_state s))"

definition slot_abs :: "path_entry \<Rightarrow> slot" where
  "slot_abs p =
     \<lparr>sl_state = pe_state p, sl_attached = pe_transport_attached p,
      sl_released = pe_transport_released p, sl_live = pe_xquic_path_live p,
      sl_xqcId = pe_xqc_path_id p, sl_retryArmed = (pe_recreate_after_us p \<noteq> 0),
      sl_stableArmed = (pe_path_stable_since_us p \<noteq> 0),
      sl_retries = min MaxRetries (nat (pe_recreate_retries p))\<rparr>"

lemmas tla_defs = ApplyFailure_def ActivateOk_def PermanentFail_def FreeGate_def OnActivate_def
  OnRetryTimer_def OnValidationOk_def OnXquicRemoved_def OnManualReactivate_def OnDropLike_def
  OnAdd_def OnConnReset_def OnTransportReleased_def

lemma slot_abs_sel:
  "sl_state (slot_abs p) = pe_state p" "sl_attached (slot_abs p) = pe_transport_attached p"
  "sl_released (slot_abs p) = pe_transport_released p" "sl_live (slot_abs p) = pe_xquic_path_live p"
  "sl_xqcId (slot_abs p) = pe_xqc_path_id p"
  by (simp_all add: slot_abs_def)

lemma slot_abs_set_path_state [simp]:
  "slot_abs (snd (set_path_state_with_log c p s r)) = (slot_abs p)\<lparr>sl_state := s\<rparr>"
  by (simp add: slot_abs_def)

lemma slot_abs_apply_failure:
  assumes "0 \<le> pe_recreate_retries p" "unat now + 60000000 < 2 ^ 64"
  shows "slot_abs (snd (apply_failure_with_retry_check c p t r now)) = ApplyFailure (slot_abs p) t"
  using assms retry_deadline_nonzero(1) [of now]
  by (auto simp: apply_failure_with_retry_check_def ApplyFailure_def Let_def slot_abs_def
      PATH_RECREATE_MAX_RETRIES_def MaxRetries_def min_def nat_add_distrib)

lemma slot_abs_free_gate:
  "slot_abs (snd (maybe_transition_dropped_to_free c p r)) = FreeGate (slot_abs p)"
  by (simp add: maybe_transition_dropped_to_free_def FreeGate_def) (simp add: slot_abs_def)


lemma slot_abs_update [simp]:
  "slot_abs (p\<lparr>pe_xquic_path_live := b\<rparr>) = (slot_abs p)\<lparr>sl_live := b\<rparr>"
  "slot_abs (p\<lparr>pe_xqc_path_id := i\<rparr>) = (slot_abs p)\<lparr>sl_xqcId := i\<rparr>"
  "slot_abs (p\<lparr>pe_recreate_after_us := u\<rparr>) = (slot_abs p)\<lparr>sl_retryArmed := u \<noteq> 0\<rparr>"
  "slot_abs (p\<lparr>pe_path_stable_since_us := u\<rparr>) = (slot_abs p)\<lparr>sl_stableArmed := u \<noteq> 0\<rparr>"
  "slot_abs (p\<lparr>pe_transport_attached := b\<rparr>) = (slot_abs p)\<lparr>sl_attached := b\<rparr>"
  "slot_abs (p\<lparr>pe_transport_released := b\<rparr>) = (slot_abs p)\<lparr>sl_released := b\<rparr>"
  "slot_abs (p\<lparr>pe_transport_ctx := x\<rparr>) = slot_abs p"
  "slot_abs (p\<lparr>pe_recreate_retries := 0\<rparr>) = (slot_abs p)\<lparr>sl_retries := 0\<rparr>"
  by (simp_all add: slot_abs_def)

lemma slot_abs_dispatch:
  assumes "0 \<le> pe_recreate_retries p" "unat (ctx_now_us ctx) + 60000000 < 2 ^ 64" "ctx_now_us ctx \<noteq> 0"
  shows "slot_abs (snd (path_dispatch c p ev ctx)) = Handle (slot_abs p) ev ctx"
proof (cases ev)
  case PATH_EVENT_ACTIVATE_REQUESTED
  then show ?thesis using assms
    by (cases "ctx_result ctx") (simp_all add: path_on_activate_requested_def OnActivate_def slot_abs_apply_failure
     ActivateOk_def PermanentFail_def slot_abs_sel)
next
  case PATH_EVENT_RETRY_TIMER
  then show ?thesis using assms
    by (cases "ctx_result ctx") (simp_all add: path_on_retry_timer_def OnRetryTimer_def slot_abs_apply_failure
     ActivateOk_def PermanentFail_def slot_abs_sel Let_def)
next
  case PATH_EVENT_VALIDATION_OK
  then show ?thesis using assms
    by (simp add: path_on_validation_ok_def OnValidationOk_def slot_abs_sel)
next
  case PATH_EVENT_XQUIC_REMOVED
  then show ?thesis using assms
    by (cases "pe_state p") (simp_all add: path_on_xquic_removed_def OnXquicRemoved_def slot_abs_apply_failure
       slot_abs_free_gate slot_abs_sel)
next
  case PATH_EVENT_MANUAL_REACTIVATE
  then show ?thesis using assms
    by (cases "ctx_result ctx") (simp_all add: path_on_manual_reactivate_def OnManualReactivate_def
      ActivateOk_def slot_abs_sel)
next
  case PATH_EVENT_PLATFORM_DROP
  then show ?thesis by (simp add: path_on_platform_drop_def OnDropLike_def slot_abs_sel)
next
  case PATH_EVENT_REMOVE_API
  then show ?thesis by (simp add: path_on_remove_api_def OnDropLike_def slot_abs_sel)
next
  case PATH_EVENT_ADD
  then show ?thesis by (simp add: path_on_add_def OnAdd_def slot_abs_sel)
next
  case PATH_EVENT_CONN_RESET
  then show ?thesis by (simp add: path_on_conn_reset_def OnConnReset_def Let_def slot_abs_sel slot_abs_free_gate)
next
  case PATH_EVENT_TRANSPORT_RELEASED
  then show ?thesis by (simp add: path_on_transport_released_def OnTransportReleased_def slot_abs_sel slot_abs_free_gate)
qed

lemma fc_events_set_path [simp]:
  "fc_path_events (fst (set_path_state_with_log c p s r)) = fc_path_events c"
  "fc_path_event_cb (fst (set_path_state_with_log c p s r)) = fc_path_event_cb c"
  by (simp_all add: set_path_state_with_log_def path_log_state_change_def Let_def)

lemma fc_events_dispatch [simp]:
  "fc_path_events (fst (path_dispatch c p ev ctx)) = fc_path_events c"
  "fc_path_event_cb (fst (path_dispatch c p ev ctx)) = fc_path_event_cb c"
  by (cases ev; cases "ctx_result ctx"; cases "pe_state p"; simp add: fsm_defs Let_def)+

lemma path_events_on_event:
  "fc_path_events (fst (path_on_event c p ev (Some ctx))) =
     (if fc_path_event_cb c \<and> pe_state (snd (path_dispatch c p ev ctx)) \<noteq> pe_state p
      then (pe_handle (snd (path_dispatch c p ev ctx)), pe_status (snd (path_dispatch c p ev ctx))) # fc_path_events c
      else fc_path_events c)"
  using fc_events_dispatch [of c p ev ctx]
  by (auto simp: path_on_event_def Let_def path_fsm_fire_path_event_def simp del: fc_events_dispatch split: prod.splits)

lemma pe_handle_dispatch [simp]: "pe_handle (snd (path_dispatch c p ev ctx)) = pe_handle p"
  by (cases ev; cases "ctx_result ctx"; cases "pe_state p"; simp add: fsm_defs Let_def)


section \<open>Properties\<close>

text \<open>Concrete inputs for the witnesses.\<close>

definition ex_client :: fsm_client where
  "ex_client = \<lparr>fc_now_us = 1000, fc_path_event_cb = True, fc_path_events = [], fc_transitions = []\<rparr>"

definition ex_ctx :: "activate_result \<Rightarrow> u64 \<Rightarrow> path_event_ctx" where
  "ex_ctx r now = \<lparr>ctx_result = r, ctx_new_xqc_path_id = 7, ctx_validated_target = PATH_LC_ACTIVE,
                   ctx_now_us = now\<rparr>"

definition ex_ops :: path_ops where
  "ex_ops = \<lparr>ops_send = Some 1, ops_get_stats = None, ops_release = Some 2\<rparr>"

definition ex_pending :: path_entry where
  "ex_pending = path_entry_init
     \<lparr>pe_ops := ex_ops, pe_transport_ctx := Some 5, pe_transport_attached := True,
      pe_transport_released := False, pe_state := PATH_LC_PENDING,
      pe_status := MQVPN_PATH_PENDING, pe_state_entered_at_us := 900\<rparr>"

lemmas ex_defs = ex_client_def ex_ctx_def ex_ops_def ex_pending_def path_entry_init_def
  path_entry_zero_def path_ops_zero_def path_wf_def path_core_def path_transport_ok_def
  path_attached_ok_def path_event_pre_def PATH_RECREATE_MAX_RETRIES_def

text \<open>
  C7: The assertion that ends every \<open>path_on_event\<close> call holds: whatever the event and its
  activation result, a slot that satisfies the slot invariant is left in a state that satisfies
  it again, and with it every \<^verbatim>\<open>assert\<close> of \<open>path_invariant_check\<close>, provided the
  caller kept its side (\<open>path_event_pre\<close>: the transport is installed before ADD and cleared
  before TRANSPORT_RELEASED, the validated target is ACTIVE or STANDBY, and the clock is a minute
  or more below the end of its 64-bit range).
\<close>

theorem path_on_event_keeps_invariant:
  assumes "path_event_pre p ev ctx"
  shows "path_wf (snd (path_on_event c p ev (Some ctx))) \<and>
         path_invariant_check (snd (path_on_event c p ev (Some ctx)))"
  using path_on_event_wf [OF assms] by (auto intro: path_wf_invariant_check)

theorem path_on_event_keeps_invariant_witness:
  "path_event_pre ex_pending PATH_EVENT_ACTIVATE_REQUESTED (ex_ctx ACTIVATE_TRANSIENT_FAIL 1000) \<and>
   path_invariant_check (snd (path_on_event ex_client ex_pending PATH_EVENT_ACTIVATE_REQUESTED
     (Some (ex_ctx ACTIVATE_TRANSIENT_FAIL 1000))))"
proof -
  have "path_event_pre ex_pending PATH_EVENT_ACTIVATE_REQUESTED (ex_ctx ACTIVATE_TRANSIENT_FAIL 1000)"
    by (simp add: ex_defs)
  then show ?thesis using path_on_event_keeps_invariant by blast
qed

text \<open>
  C3: The C state machine implements the TLA+ transition operator of the repository: for every
  slot, event and context, abstracting the slot after \<open>path_on_event\<close> gives exactly the slot
  \<open>Step\<close> computes from the abstraction before, and the \<open>path_event\<close> callback is called
  (with the slot's handle and its new public status) exactly when \<open>Step\<close> says it fires.
\<close>

theorem path_on_event_refines_Step:
  assumes "0 \<le> pe_recreate_retries p" and "ctx_now_us ctx \<noteq> 0"
    and "unat (ctx_now_us ctx) + 60000000 < 2 ^ 64"
  shows "slot_abs (snd (path_on_event c p ev (Some ctx))) = fst (Step (slot_abs p) ev ctx) \<and>
         fc_path_events (fst (path_on_event c p ev (Some ctx))) =
           (if fc_path_event_cb c \<and> snd (Step (slot_abs p) ev ctx)
            then [(pe_handle p, pe_status (snd (path_on_event c p ev (Some ctx))))] else []) @
           fc_path_events c"
proof -
  have "pe_state (snd (path_dispatch c p ev ctx)) = sl_state (Handle (slot_abs p) ev ctx)"
    using slot_abs_dispatch [of p ctx c ev] assms by (metis slot_abs_sel(1))
  then show ?thesis
    using slot_abs_dispatch [of p ctx c ev] assms
    by (simp add: path_events_on_event Step_def Let_def slot_abs_sel)
qed

theorem path_on_event_refines_Step_witness:
  "sl_state (fst (Step (slot_abs ex_pending) PATH_EVENT_ACTIVATE_REQUESTED (ex_ctx ACTIVATE_OK 1000))) =
     PATH_LC_VALIDATING \<and>
   fc_path_events (fst (path_on_event ex_client ex_pending PATH_EVENT_ACTIVATE_REQUESTED
     (Some (ex_ctx ACTIVATE_OK 1000)))) = [(0, MQVPN_PATH_PENDING)]"
  using path_on_event_refines_Step
    [of ex_pending "ex_ctx ACTIVATE_OK 1000" ex_client PATH_EVENT_ACTIVATE_REQUESTED]
  by (simp add: ex_defs Step_def OnActivate_def ActivateOk_def slot_abs_def
      path_on_activate_requested_def set_path_state_with_log_def path_mark_state_entry_def Let_def)

definition path_release_completion :: "'a fsm_client_scheme \<Rightarrow> path_event_ctx \<Rightarrow> path_entry \<Rightarrow> path_entry" where
  "path_release_completion c x p =
     snd (path_on_event c (p\<lparr>pe_ops := path_ops_zero, pe_transport_ctx := None\<rparr>)
            PATH_EVENT_TRANSPORT_RELEASED (Some x))"

definition path_removal_completion :: "'a fsm_client_scheme \<Rightarrow> path_event_ctx \<Rightarrow> path_entry \<Rightarrow> path_entry" where
  "path_removal_completion c x p = snd (path_on_event c p PATH_EVENT_XQUIC_REMOVED (Some x))"

text \<open>
  C19: A dropped slot whose transport is still owed a release becomes CLOSED_FREE, and so
  reusable, exactly when the last of its two asynchronous completions has arrived, whichever
  comes first: after the platform's release and xquic's removal in either order the slot is
  CLOSED_FREE, and after only one of them (the release alone while xquic still holds the path,
  or the removal alone) it is still CLOSED_DROPPED.
\<close>

theorem dropped_slot_freed_by_last_completion:
  assumes "pe_state p = PATH_LC_CLOSED_DROPPED" and "\<not> pe_transport_released p"
    and "pe_xquic_path_live p"
  shows "pe_state (path_release_completion c x p) = PATH_LC_CLOSED_DROPPED \<and>
         pe_state (path_removal_completion c y p) = PATH_LC_CLOSED_DROPPED \<and>
         pe_state (path_removal_completion c' y (path_release_completion c x p)) = PATH_LC_CLOSED_FREE \<and>
         pe_state (path_release_completion c x (path_removal_completion c' y p)) = PATH_LC_CLOSED_FREE"
  using assms
  by (simp add: path_release_completion_def path_removal_completion_def
      path_on_transport_released_def path_on_xquic_removed_def maybe_transition_dropped_to_free_def)

definition ex_dropped :: path_entry where
  "ex_dropped = ex_pending\<lparr>pe_state := PATH_LC_CLOSED_DROPPED, pe_status := MQVPN_PATH_CLOSED,
     pe_transport_attached := False, pe_xquic_path_live := True, pe_xqc_path_id := 3\<rparr>"

theorem dropped_slot_freed_by_last_completion_witness:
  "path_wf ex_dropped \<and>
   pe_state (path_removal_completion ex_client (ex_ctx ACTIVATE_OK 1)
     (path_release_completion ex_client (ex_ctx ACTIVATE_OK 1) ex_dropped)) = PATH_LC_CLOSED_FREE"
  using dropped_slot_freed_by_last_completion
    [of ex_dropped ex_client "ex_ctx ACTIVATE_OK 1" "ex_ctx ACTIVATE_OK 1" ex_client]
  by (simp add: ex_dropped_def ex_defs)

fun path_retry_failures :: "'a fsm_client_scheme \<Rightarrow> path_entry \<Rightarrow> u64 list \<Rightarrow> path_entry" where
  "path_retry_failures c p [] = p"
| "path_retry_failures c p (now # nows) =
     path_retry_failures c
       (snd (path_on_event c p PATH_EVENT_RETRY_TIMER
          (Some \<lparr>ctx_result = ACTIVATE_TRANSIENT_FAIL, ctx_new_xqc_path_id = 0,
                 ctx_validated_target = PATH_LC_PENDING, ctx_now_us = now\<rparr>))) nows"

lemma path_retry_failures_closed:
  "pe_state p = PATH_LC_CLOSED_RECOVERABLE \<Longrightarrow> path_retry_failures c p nows = p"
  by (induction nows) (simp_all add: path_on_event_def path_on_retry_timer_def)

lemma path_retry_failures_state:
  assumes "pe_state p \<in> {PATH_LC_CREATE_WAIT, PATH_LC_DEGRADED}"
    and "pe_recreate_retries p < PATH_RECREATE_MAX_RETRIES"
  shows "pe_recreate_retries (path_retry_failures c p nows) =
           min PATH_RECREATE_MAX_RETRIES (pe_recreate_retries p + int (length nows)) \<and>
         pe_state (path_retry_failures c p nows) =
           (if pe_recreate_retries p + int (length nows) < PATH_RECREATE_MAX_RETRIES
            then pe_state p else PATH_LC_CLOSED_RECOVERABLE) \<and>
         (nows \<noteq> [] \<longrightarrow>
          pe_recreate_after_us (path_retry_failures c p nows) =
            (if pe_recreate_retries p + int (length nows) < PATH_RECREATE_MAX_RETRIES
             then last nows + path_recreate_backoff (pe_recreate_retries p + int (length nows))
             else 0))"
  using assms
proof (induction nows arbitrary: p)
  case Nil
  then show ?case by auto
next
  case (Cons now nows)
  let ?p = "snd (path_on_event c p PATH_EVENT_RETRY_TIMER
          (Some \<lparr>ctx_result = ACTIVATE_TRANSIENT_FAIL, ctx_new_xqc_path_id = 0,
                 ctx_validated_target = PATH_LC_PENDING, ctx_now_us = now\<rparr>))"
  have p: "pe_recreate_retries ?p = pe_recreate_retries p + 1"
    "pe_state ?p = (if pe_recreate_retries p + 1 < PATH_RECREATE_MAX_RETRIES then pe_state p
                    else PATH_LC_CLOSED_RECOVERABLE)"
    "pe_recreate_after_us ?p = (if pe_recreate_retries p + 1 < PATH_RECREATE_MAX_RETRIES
        then now + path_recreate_backoff (pe_recreate_retries p + 1) else 0)"
    using Cons.prems by (auto simp: path_on_retry_timer_def apply_failure_with_retry_check_def Let_def)
  show ?case
  proof (cases "pe_recreate_retries p + 1 < PATH_RECREATE_MAX_RETRIES")
    case True
    with Cons.IH [of ?p] Cons.prems p show ?thesis by (cases nows) (auto simp: add.assoc)
  next
    case False
    then have "path_retry_failures c ?p nows = ?p"
      using p by (intro path_retry_failures_closed) simp
    with False Cons.prems p show ?thesis by auto
  qed
qed

text \<open>
  C20: The retry budget. Starting from a slot that waits for its retry, a run of failed retries
  keeps it waiting until its consecutive failures reach six and then closes it: the failure
  count grows by one per retry up to six, the slot is CLOSED_RECOVERABLE with no timer armed
  exactly when the budget is used up, and until then it stays in the state it waited in with the
  timer set to the last attempt plus a delay of 5, 10, 20, 40 or 60 seconds.
\<close>

theorem path_retry_budget:
  assumes "pe_state p \<in> {PATH_LC_CREATE_WAIT, PATH_LC_DEGRADED}" and "path_wf p"
  shows "pe_recreate_retries (path_retry_failures c p nows) =
           min 6 (pe_recreate_retries p + int (length nows)) \<and>
         pe_state (path_retry_failures c p nows) =
           (if pe_recreate_retries p + int (length nows) < 6
            then pe_state p else PATH_LC_CLOSED_RECOVERABLE) \<and>
         (nows \<noteq> [] \<longrightarrow>
          pe_recreate_after_us (path_retry_failures c p nows) =
            (let n = pe_recreate_retries p + int (length nows)
             in if n < 6 then last nows + (if n \<le> 1 then 5000000 else if n = 2 then 10000000
                  else if n = 3 then 20000000 else if n = 4 then 40000000 else 60000000) else 0))"
proof -
  have "pe_recreate_retries p < PATH_RECREATE_MAX_RETRIES"
    using assms by (auto simp: path_wf_def path_core_def)
  from path_retry_failures_state [OF assms(1) this, of c nows] show ?thesis
    by (simp add: PATH_RECREATE_MAX_RETRIES_def path_recreate_backoff_schedule Let_def)
qed

definition ex_waiting :: path_entry where
  "ex_waiting = ex_pending\<lparr>pe_state := PATH_LC_CREATE_WAIT, pe_recreate_after_us := 5000000,
     pe_recreate_retries := 1\<rparr>"

theorem path_retry_budget_witness:
  "path_wf ex_waiting \<and>
   pe_state (path_retry_failures ex_client ex_waiting [6000000, 17000000, 40000000, 90000000]) =
     PATH_LC_CREATE_WAIT \<and>
   pe_recreate_after_us (path_retry_failures ex_client ex_waiting [6000000, 17000000, 40000000, 90000000]) =
     150000000 \<and>
   pe_state (path_retry_failures ex_client ex_waiting [6000000, 17000000, 40000000, 90000000, 151000000]) =
     PATH_LC_CLOSED_RECOVERABLE"
  using path_retry_budget [of ex_waiting ex_client "[6000000, 17000000, 40000000, 90000000]"]
    path_retry_budget [of ex_waiting ex_client "[6000000, 17000000, 40000000, 90000000, 151000000]"]
  by (simp add: ex_waiting_def ex_defs)

end
