(* ===== verification/Wire.thy ===== *)
theory Wire
  imports Prelude
begin

text \<open>
  The reorder shim's shared definitions (\<^verbatim>\<open>src/reorder.h\<close>): the self-describing 8-byte
  header, the capability header, the flow key and its keyed hash, the inner L3/L4 parser, and
  the reorder configuration with its rule resolution. Packets are byte lists; every read of a
  packet goes through \<open>rd\<close>, so that \<open>None\<close> stands for a read outside the buffer.
\<close>


section \<open>Wire header\<close>

definition MQVPN_REORDER_TYPE_V1 :: u8 where "MQVPN_REORDER_TYPE_V1 = 0x01"
definition MQVPN_REORDER_FLAG_RESET :: u8 where "MQVPN_REORDER_FLAG_RESET = 0x01"
definition MQVPN_REORDER_HDR_LEN :: nat where "MQVPN_REORDER_HDR_LEN = 8"

datatype mqvpn_reorder_kind =
  MQVPN_REORDER_KIND_RAW | MQVPN_REORDER_KIND_REORDER_V1 | MQVPN_REORDER_KIND_UNKNOWN

definition mqvpn_reorder_classify_byte :: "u8 \<Rightarrow> mqvpn_reorder_kind" where
  "mqvpn_reorder_classify_byte b0 =
     (let nibble = drop_bit 4 b0
      in if nibble = 4 \<or> nibble = 6 then MQVPN_REORDER_KIND_RAW
         else if b0 = MQVPN_REORDER_TYPE_V1 then MQVPN_REORDER_KIND_REORDER_V1
         else MQVPN_REORDER_KIND_UNKNOWN)"

definition mqvpn_reorder_wire_encode :: "u8 \<Rightarrow> u8 \<Rightarrow> u64 \<Rightarrow> u8 list" where
  "mqvpn_reorder_wire_encode type flags seq =
     [type, flags, ucast (drop_bit 40 seq), ucast (drop_bit 32 seq), ucast (drop_bit 24 seq),
      ucast (drop_bit 16 seq), ucast (drop_bit 8 seq), ucast seq]"

text \<open>The outer option is the bounds of the buffer, the inner one the C return code (None is -1).\<close>

definition mqvpn_reorder_wire_decode :: "u8 list \<Rightarrow> (u8 \<times> u8 \<times> u64) option option" where
  "mqvpn_reorder_wire_decode inp =
     (if length inp < MQVPN_REORDER_HDR_LEN then Some None
      else do {
        type \<leftarrow> rd inp 0;
        flags \<leftarrow> rd inp 1;
        b2 \<leftarrow> rd inp 2; b3 \<leftarrow> rd inp 3; b4 \<leftarrow> rd inp 4;
        b5 \<leftarrow> rd inp 5; b6 \<leftarrow> rd inp 6; b7 \<leftarrow> rd inp 7;
        Some (Some (type, flags,
          push_bit 40 (ucast b2) OR push_bit 32 (ucast b3) OR push_bit 24 (ucast b4) OR
          push_bit 16 (ucast b5) OR push_bit 8 (ucast b6) OR ucast b7)) })"


section \<open>Capability negotiation\<close>

datatype mqvpn_reorder_mode = MQVPN_REORDER_OFF | MQVPN_REORDER_ON

definition MQVPN_REORDER_HDR_NAME :: string where "MQVPN_REORDER_HDR_NAME = ''mqvpn-reorder''"
definition MQVPN_REORDER_HDR_VALUE :: string where "MQVPN_REORDER_HDR_VALUE = ''v1''"

definition mqvpn_reorder_header_match :: "string \<Rightarrow> string \<Rightarrow> bool" where
  "mqvpn_reorder_header_match name value \<longleftrightarrow>
     length name = length MQVPN_REORDER_HDR_NAME \<and> name = MQVPN_REORDER_HDR_NAME \<and>
     length value = length MQVPN_REORDER_HDR_VALUE \<and> value = MQVPN_REORDER_HDR_VALUE"

definition mqvpn_reorder_should_advertise :: "mqvpn_reorder_mode \<Rightarrow> 'e option \<Rightarrow> bool" where
  "mqvpn_reorder_should_advertise mode rx_engine \<longleftrightarrow> mode \<noteq> MQVPN_REORDER_OFF \<and> rx_engine \<noteq> None"


section \<open>Flow identity\<close>

record mqvpn_flow_key =
  fk_ip_version :: u8
  fk_proto :: u8
  fk_src_port :: u16
  fk_dst_port :: u16
  fk_src_ip :: "u8 list"
  fk_dst_ip :: "u8 list"

definition mqvpn_flow_key_eq :: "mqvpn_flow_key \<Rightarrow> mqvpn_flow_key \<Rightarrow> bool" where
  "mqvpn_flow_key_eq a b \<longleftrightarrow>
     fk_ip_version a = fk_ip_version b \<and> fk_proto a = fk_proto b \<and>
     fk_src_port a = fk_src_port b \<and> fk_dst_port a = fk_dst_port b \<and>
     fk_src_ip a = fk_src_ip b \<and> fk_dst_ip a = fk_dst_ip b"

text \<open>
  The bytes of the padding-free struct in memory order; the two ports are stored in the byte
  order of the host, little-endian on the platforms the repository builds for.
\<close>

definition mqvpn_flow_key_bytes :: "mqvpn_flow_key \<Rightarrow> u8 list" where
  "mqvpn_flow_key_bytes k =
     [fk_ip_version k, fk_proto k,
      ucast (fk_src_port k), ucast (drop_bit 8 (fk_src_port k)),
      ucast (fk_dst_port k), ucast (drop_bit 8 (fk_dst_port k))] @ fk_src_ip k @ fk_dst_ip k"

definition fnv_prime :: u64 where "fnv_prime = 1099511628211"

definition mqvpn_flow_key_hash :: "mqvpn_flow_key \<Rightarrow> u64 \<Rightarrow> u64" where
  "mqvpn_flow_key_hash k seed =
     foldl (\<lambda>h b. (h XOR ucast b) * fnv_prime) (14695981039346656037 XOR seed)
       (mqvpn_flow_key_bytes k)"


section \<open>Inner L3/L4 parser\<close>

definition MQVPN_IPPROTO_UDP :: u8 where "MQVPN_IPPROTO_UDP = 17"
definition MQVPN_IPPROTO_TCP :: u8 where "MQVPN_IPPROTO_TCP = 6"
definition MQVPN_IP6_HOPOPTS :: u8 where "MQVPN_IP6_HOPOPTS = 0"
definition MQVPN_IP6_ROUTING :: u8 where "MQVPN_IP6_ROUTING = 43"
definition MQVPN_IP6_FRAGMENT :: u8 where "MQVPN_IP6_FRAGMENT = 44"
definition MQVPN_IP6_DSTOPTS :: u8 where "MQVPN_IP6_DSTOPTS = 60"

datatype mqvpn_l4_verdict =
  MQVPN_L4_UDP | MQVPN_L4_TCP | MQVPN_L4_FRAGMENT | MQVPN_L4_OTHER | MQVPN_L4_MALFORMED

text \<open>
  The result pairs the verdict with the key written to \<open>*out\<close>, \<open>None\<close> when \<open>*out\<close> is left
  alone.
\<close>

type_synonym parse_result = "mqvpn_l4_verdict \<times> mqvpn_flow_key option"

definition l4_min :: "u8 \<Rightarrow> nat" where
  "l4_min proto = (if proto = MQVPN_IPPROTO_TCP then 20 else 8)"

definition l4_verdict_of :: "u8 \<Rightarrow> mqvpn_l4_verdict" where
  "l4_verdict_of proto = (if proto = MQVPN_IPPROTO_TCP then MQVPN_L4_TCP else MQVPN_L4_UDP)"

definition parse_v4 :: "u8 list \<Rightarrow> parse_result option" where
  "parse_v4 pkt =
     (if length pkt < 20 then Some (MQVPN_L4_MALFORMED, None)
      else do {
        b0 \<leftarrow> rd pkt 0;
        let ihl = b0 AND 0x0f;
        let hdr_len = unat ihl * 4;
        if ihl < 5 \<or> length pkt < hdr_len then Some (MQVPN_L4_MALFORMED, None)
        else do {
          frag \<leftarrow> rd16 pkt 6;
          if frag AND 0x3fff \<noteq> 0 then Some (MQVPN_L4_FRAGMENT, None)
          else do {
            proto \<leftarrow> rd pkt 9;
            if proto \<noteq> MQVPN_IPPROTO_UDP \<and> proto \<noteq> MQVPN_IPPROTO_TCP
            then Some (MQVPN_L4_OTHER, None)
            else if length pkt < hdr_len + l4_min proto then Some (MQVPN_L4_MALFORMED, None)
            else do {
              src \<leftarrow> rd_bytes pkt 12 4;
              dst \<leftarrow> rd_bytes pkt 16 4;
              sport \<leftarrow> rd16 pkt hdr_len;
              dport \<leftarrow> rd16 pkt (hdr_len + 2);
              Some (l4_verdict_of proto,
                Some \<lparr>fk_ip_version = 4, fk_proto = proto, fk_src_port = sport,
                      fk_dst_port = dport, fk_src_ip = src @ replicate 12 0,
                      fk_dst_ip = dst @ replicate 12 0\<rparr>) } } } })"

text \<open>The bounded walk of the extension headers: \<open>n\<close> iterations are left.\<close>

fun parse_v6_walk :: "u8 list \<Rightarrow> nat \<Rightarrow> u8 \<Rightarrow> nat \<Rightarrow> parse_result option" where
  "parse_v6_walk pkt 0 nxt off = Some (MQVPN_L4_OTHER, None)"
| "parse_v6_walk pkt (Suc n) nxt off =
     (if nxt = MQVPN_IPPROTO_UDP \<or> nxt = MQVPN_IPPROTO_TCP then
        (if length pkt < off + l4_min nxt then Some (MQVPN_L4_MALFORMED, None)
         else do {
           src \<leftarrow> rd_bytes pkt 8 16;
           dst \<leftarrow> rd_bytes pkt 24 16;
           sport \<leftarrow> rd16 pkt off;
           dport \<leftarrow> rd16 pkt (off + 2);
           Some (l4_verdict_of nxt,
             Some \<lparr>fk_ip_version = 6, fk_proto = nxt, fk_src_port = sport, fk_dst_port = dport,
                   fk_src_ip = src, fk_dst_ip = dst\<rparr>) })
      else if nxt = MQVPN_IP6_FRAGMENT then Some (MQVPN_L4_FRAGMENT, None)
      else if nxt = MQVPN_IP6_HOPOPTS \<or> nxt = MQVPN_IP6_ROUTING \<or> nxt = MQVPN_IP6_DSTOPTS then
        (if length pkt < off + 2 then Some (MQVPN_L4_MALFORMED, None)
         else do {
           hdr_ext_len \<leftarrow> rd pkt (off + 1);
           nxt' \<leftarrow> rd pkt off;
           let off' = off + (unat hdr_ext_len + 1) * 8;
           if off' > length pkt then Some (MQVPN_L4_MALFORMED, None)
           else parse_v6_walk pkt n nxt' off' })
      else Some (MQVPN_L4_OTHER, None))"

definition parse_v6 :: "u8 list \<Rightarrow> parse_result option" where
  "parse_v6 pkt =
     (if length pkt < 40 then Some (MQVPN_L4_MALFORMED, None)
      else do { nxt \<leftarrow> rd pkt 6; parse_v6_walk pkt 16 nxt 40 })"

definition mqvpn_parse_l3l4 :: "u8 list \<Rightarrow> parse_result option" where
  "mqvpn_parse_l3l4 pkt =
     (if length pkt < 1 then Some (MQVPN_L4_MALFORMED, None)
      else do {
        b0 \<leftarrow> rd pkt 0;
        let version = drop_bit 4 b0;
        if version = 4 then parse_v4 pkt
        else if version = 6 then parse_v6 pkt
        else Some (MQVPN_L4_MALFORMED, None) })"

text \<open>The wrapper: Some the key is the return code 0, None is -1.\<close>

definition mqvpn_reorder_parse_5tuple :: "u8 list \<Rightarrow> mqvpn_flow_key option option" where
  "mqvpn_reorder_parse_5tuple pkt = do {
     r \<leftarrow> mqvpn_parse_l3l4 pkt;
     Some (if fst r = MQVPN_L4_UDP then snd r else None) }"


section \<open>Configuration\<close>

datatype mqvpn_reorder_profile =
  MQVPN_RPROF_QUIC_BULK | MQVPN_RPROF_LOW_LATENCY | MQVPN_RPROF_DEFAULT_UDP
| MQVPN_RPROF_CELLULAR_BOND | MQVPN_RPROF_FIBER_LTE

record mqvpn_reorder_rule =
  ru_proto :: u8
  ru_port :: u16
  ru_profile :: mqvpn_reorder_profile
  ru_explicit_wait_ms :: u32
  ru_explicit_cap :: u32
  ru_resolved_wait_ms :: u32
  ru_resolved_cap :: u32

definition MQVPN_REORDER_MAX_RULES :: nat where "MQVPN_REORDER_MAX_RULES = 16"

text \<open>\<open>rc_rules\<close> holds the first \<open>n_rules\<close> entries of the C array, so \<open>n_rules\<close> is its length.\<close>

record mqvpn_reorder_config =
  rc_mode :: mqvpn_reorder_mode
  rc_max_wait_ms :: u32
  rc_cap_packets_per_flow :: u32
  rc_max_buffer_bytes_per_flow :: u64
  rc_classify_window :: u16
  rc_ack_demote_max_large_packets :: u16
  rc_small_packet_threshold_bytes :: u32
  rc_reset_mark_packets :: u32
  rc_reset_idle_grace_ms :: u32
  rc_max_flows :: u32
  rc_global_max_buffer_bytes :: u64
  rc_ingress_idle_timeout_sec :: u32
  rc_egress_idle_timeout_sec :: u32
  rc_eval_force_no_demotion :: bool
  rc_has_explicit_wait :: bool
  rc_has_explicit_cap :: bool
  rc_rules :: "mqvpn_reorder_rule list"

text \<open>Some (wait, cap) is the C return value 1 with both outputs written.\<close>

fun mqvpn_reorder_profile_preset :: "mqvpn_reorder_profile \<Rightarrow> (u32 \<times> u32) option" where
  "mqvpn_reorder_profile_preset MQVPN_RPROF_QUIC_BULK = Some (50, 1024)"
| "mqvpn_reorder_profile_preset MQVPN_RPROF_CELLULAR_BOND = Some (50, 1024)"
| "mqvpn_reorder_profile_preset MQVPN_RPROF_FIBER_LTE = Some (50, 2048)"
| "mqvpn_reorder_profile_preset _ = None"

definition rule_matches :: "mqvpn_flow_key \<Rightarrow> mqvpn_reorder_rule \<Rightarrow> bool" where
  "rule_matches key r \<longleftrightarrow>
     ru_proto r = fk_proto key \<and> (ru_port r = fk_src_port key \<or> ru_port r = fk_dst_port key)"

definition mqvpn_reorder_match_rule ::
  "mqvpn_reorder_config \<Rightarrow> mqvpn_flow_key \<Rightarrow> mqvpn_reorder_rule option" where
  "mqvpn_reorder_match_rule cfg key = List.find (rule_matches key) (rc_rules cfg)"

definition mqvpn_reorder_cap_is_valid :: "u32 \<Rightarrow> bool" where
  "mqvpn_reorder_cap_is_valid cap \<longleftrightarrow> cap \<noteq> 0 \<and> cap AND (cap - 1) = 0"

definition finalize_rule :: "mqvpn_reorder_config \<Rightarrow> mqvpn_reorder_rule \<Rightarrow> mqvpn_reorder_rule" where
  "finalize_rule cfg r =
     (let preset = mqvpn_reorder_profile_preset (ru_profile r);
          wait =
            (if ru_profile r = MQVPN_RPROF_DEFAULT_UDP then 0
             else if ru_explicit_wait_ms r \<noteq> 0 then ru_explicit_wait_ms r
             else if rc_has_explicit_wait cfg then rc_max_wait_ms cfg
             else (case preset of Some (pw, pc) \<Rightarrow> pw | None \<Rightarrow> rc_max_wait_ms cfg));
          rcap = (if mqvpn_reorder_cap_is_valid (ru_explicit_cap r) then ru_explicit_cap r else 0);
          cap =
            (if rcap \<noteq> 0 then rcap
             else if rc_has_explicit_cap cfg then rc_cap_packets_per_flow cfg
             else (case preset of Some (pw, pc) \<Rightarrow> pc | None \<Rightarrow> rc_cap_packets_per_flow cfg))
      in r\<lparr>ru_resolved_wait_ms := wait,
           ru_resolved_cap := (if mqvpn_reorder_cap_is_valid cap then cap else 1024)\<rparr>)"

definition mqvpn_reorder_config_finalize :: "mqvpn_reorder_config \<Rightarrow> mqvpn_reorder_config" where
  "mqvpn_reorder_config_finalize cfg = cfg\<lparr>rc_rules := map (finalize_rule cfg) (rc_rules cfg)\<rparr>"

definition mqvpn_reorder_config_default :: mqvpn_reorder_config where
  "mqvpn_reorder_config_default =
     \<lparr>rc_mode = MQVPN_REORDER_OFF, rc_max_wait_ms = 30, rc_cap_packets_per_flow = 1024,
      rc_max_buffer_bytes_per_flow = 1572864, rc_classify_window = 64,
      rc_ack_demote_max_large_packets = 3, rc_small_packet_threshold_bytes = 200,
      rc_reset_mark_packets = 8, rc_reset_idle_grace_ms = 10000, rc_max_flows = 65536,
      rc_global_max_buffer_bytes = 67108864, rc_ingress_idle_timeout_sec = 30,
      rc_egress_idle_timeout_sec = 300, rc_eval_force_no_demotion = False,
      rc_has_explicit_wait = False, rc_has_explicit_cap = False, rc_rules = []\<rparr>"

text \<open>True is the C return value 0.\<close>

definition mqvpn_reorder_config_validate :: "mqvpn_reorder_config \<Rightarrow> bool" where
  "mqvpn_reorder_config_validate cfg \<longleftrightarrow>
     rc_ingress_idle_timeout_sec cfg < rc_egress_idle_timeout_sec cfg \<and>
     mqvpn_reorder_cap_is_valid (rc_cap_packets_per_flow cfg)"


section \<open>Receive statistics\<close>

definition MQVPN_REORDER_LAT_BUCKETS :: nat where "MQVPN_REORDER_LAT_BUCKETS = 12"

record mqvpn_reorder_stats =
  st_delivered_count :: u64
  st_too_late_drop_count :: u64
  st_too_far_ahead_drop_count :: u64
  st_duplicate_drop_count :: u64
  st_per_flow_limit_drop_count :: u64
  st_pool_drop_count :: u64
  st_reset_discard_count :: u64
  st_gap_count :: u64
  st_gap_filled_count :: u64
  st_gap_timeout_count :: u64
  st_gap_overflow_count :: u64
  st_gap_demote_count :: u64
  st_gap_reset_count :: u64
  st_ack_demote_count :: u64
  st_residence_bucket :: "u64 list"
  st_residence_max_us :: u64


section \<open>Lemmas\<close>

text \<open>A valid capacity is a power of two.\<close>

lemma mqvpn_reorder_cap_is_valid_iff:
  "mqvpn_reorder_cap_is_valid cap \<longleftrightarrow> (\<exists>k. unat cap = 2 ^ k)"
proof
  assume v: "mqvpn_reorder_cap_is_valid cap"
  then have "unat (cap AND (cap - 1)) = 0" and nz: "cap \<noteq> 0"
    by (simp_all add: mqvpn_reorder_cap_is_valid_def)
  then have "unat cap AND (unat cap - 1) = 0" and "unat cap \<noteq> 0"
    by (simp_all add: unsigned_and_eq unat_minus_one unat_eq_0)
  then show "\<exists>k. unat cap = 2 ^ k" by (metis nat_and_pred_zero)
next
  assume "\<exists>k. unat cap = 2 ^ k"
  then obtain k where k: "unat cap = 2 ^ k" by blast
  then have "unat (cap AND (cap - 1)) = 0" by (simp add: and_pow2_mod [OF k])
  moreover have "cap \<noteq> 0" using k by auto
  ultimately show "mqvpn_reorder_cap_is_valid cap"
    by (simp add: mqvpn_reorder_cap_is_valid_def unat_eq_0)
qed

text \<open>Header round trip and parser totality.\<close>

lemma decode_encode:
  "mqvpn_reorder_wire_decode (mqvpn_reorder_wire_encode t f seq @ payload) =
     Some (Some (t, f, take_bit 48 seq))"
proof -
  have "push_bit 40 (ucast (ucast (drop_bit 40 seq) :: u8)) OR push_bit 32 (ucast (ucast (drop_bit 32 seq) :: u8)) OR
        push_bit 24 (ucast (ucast (drop_bit 24 seq) :: u8)) OR push_bit 16 (ucast (ucast (drop_bit 16 seq) :: u8)) OR
        push_bit 8 (ucast (ucast (drop_bit 8 seq) :: u8)) OR ucast (ucast seq :: u8) = take_bit 48 seq"
    by (rule bit_word_eqI) (auto simp: bit_simps cong: conj_cong)
  then show ?thesis
    by (simp add: mqvpn_reorder_wire_decode_def mqvpn_reorder_wire_encode_def
      MQVPN_REORDER_HDR_LEN_def rd_def)
qed

lemma parse_v6_walk_total:
  assumes "40 \<le> length pkt" and "40 \<le> off"
  shows "\<exists>r. parse_v6_walk pkt n nxt off = Some r"
  using assms
proof (induction n arbitrary: nxt off)
  case (Suc n)
  show ?case
    using Suc.prems Suc.IH
    by (auto simp: rd_simps l4_min_def Let_def)
qed simp

lemma mqvpn_parse_l3l4_total: "\<exists>r. mqvpn_parse_l3l4 pkt = Some r"
proof -
  have "\<exists>r. parse_v4 pkt = Some r"
  proof (cases "length pkt < 20")
    case False
    then have "rd pkt 0 = Some (pkt ! 0)" by (intro rd_in) linarith
    with False show ?thesis
      by (auto simp: parse_v4_def rd_simps l4_min_def Let_def)
  qed (simp add: parse_v4_def)
  moreover have "\<exists>r. parse_v6 pkt = Some r"
    using parse_v6_walk_total [of pkt 40 16 "pkt ! 6"] by (auto simp: parse_v6_def rd_simps)
  ultimately show ?thesis
    by (auto simp: mqvpn_parse_l3l4_def rd_simps Let_def)
qed

text \<open>What a parsed key looks like.\<close>

definition flow_key_wf :: "mqvpn_flow_key \<Rightarrow> bool" where
  "flow_key_wf k \<longleftrightarrow>
     length (fk_src_ip k) = 16 \<and> length (fk_dst_ip k) = 16 \<and>
     (fk_proto k = MQVPN_IPPROTO_UDP \<or> fk_proto k = MQVPN_IPPROTO_TCP) \<and>
     (fk_ip_version k = 6 \<or>
      fk_ip_version k = 4 \<and> drop 4 (fk_src_ip k) = replicate 12 0 \<and>
      drop 4 (fk_dst_ip k) = replicate 12 0)"

definition parse_result_ok :: "parse_result \<Rightarrow> bool" where
  "parse_result_ok r \<longleftrightarrow>
     (case r of (v, None) \<Rightarrow> v \<noteq> MQVPN_L4_UDP \<and> v \<noteq> MQVPN_L4_TCP
      | (v, Some k) \<Rightarrow> flow_key_wf k \<and> v = l4_verdict_of (fk_proto k))"

lemma parse_result_ok_simps [simp]:
  "parse_result_ok (v, None) \<longleftrightarrow> v \<noteq> MQVPN_L4_UDP \<and> v \<noteq> MQVPN_L4_TCP"
  "parse_result_ok (v, Some k) \<longleftrightarrow> flow_key_wf k \<and> v = l4_verdict_of (fk_proto k)"
  by (simp_all add: parse_result_ok_def)

lemma parse_v6_walk_ok: "parse_v6_walk pkt n nxt off = Some r \<Longrightarrow> parse_result_ok r"
proof (induction n arbitrary: nxt off)
  case (Suc n)
  from Suc.prems show ?case
    by (auto simp: bind_eq_Some_conv Let_def flow_key_wf_def
        dest!: length_rd_bytes intro: Suc.IH split: if_splits)
qed auto

lemma parse_v4_ok: "parse_v4 pkt = Some r \<Longrightarrow> parse_result_ok r"
  by (auto simp: parse_v4_def flow_key_wf_def bind_eq_Some_conv Let_def
      dest!: length_rd_bytes split: if_splits)

lemma mqvpn_parse_l3l4_ok: "mqvpn_parse_l3l4 pkt = Some r \<Longrightarrow> parse_result_ok r"
  by (auto simp: mqvpn_parse_l3l4_def parse_v6_def bind_eq_Some_conv Let_def
      dest: parse_v4_ok parse_v6_walk_ok split: if_splits)

text \<open>Packets built from an extension-header chain.\<close>

fun ext_next :: "(u8 \<times> u8 \<times> u8 list) list \<Rightarrow> u8 \<Rightarrow> u8" where
  "ext_next [] proto = proto"
| "ext_next ((kind, hel, body) # es) proto = kind"

fun ext_chain :: "(u8 \<times> u8 \<times> u8 list) list \<Rightarrow> u8 \<Rightarrow> u8 list" where
  "ext_chain [] proto = []"
| "ext_chain ((kind, hel, body) # es) proto = ext_next es proto # hel # body @ ext_chain es proto"

definition ext_ok :: "u8 \<times> u8 \<times> u8 list \<Rightarrow> bool" where
  "ext_ok e \<longleftrightarrow>
     (case e of (kind, hel, body) \<Rightarrow>
        kind \<in> {MQVPN_IP6_HOPOPTS, MQVPN_IP6_ROUTING, MQVPN_IP6_DSTOPTS} \<and>
        length body + 2 = (unat hel + 1) * 8)"

text \<open>
  \<open>vtf\<close> is the version, traffic class and flow label (four bytes), \<open>plen\<close> the payload length
  (two bytes), and \<open>hop\<close> the hop limit.
\<close>

definition ip6_packet ::
  "u8 list \<Rightarrow> u8 list \<Rightarrow> u8 \<Rightarrow> u8 list \<Rightarrow> u8 list \<Rightarrow> (u8 \<times> u8 \<times> u8 list) list \<Rightarrow> u8 \<Rightarrow> u8 list \<Rightarrow> u8 list" where
  "ip6_packet vtf plen hop src dst es proto l4 =
     vtf @ plen @ [ext_next es proto, hop] @ src @ dst @ ext_chain es proto @ l4"

lemmas ip6_kinds = MQVPN_IP6_HOPOPTS_def MQVPN_IP6_ROUTING_def MQVPN_IP6_DSTOPTS_def
  MQVPN_IP6_FRAGMENT_def MQVPN_IPPROTO_UDP_def MQVPN_IPPROTO_TCP_def

lemma parse_v6_walk_chain:
  assumes "list_all ext_ok es" and "length es < n" and "40 \<le> length pre"
    and "proto = MQVPN_IPPROTO_UDP \<or> proto = MQVPN_IPPROTO_TCP" and "l4_min proto \<le> length l4"
  shows "parse_v6_walk (pre @ ext_chain es proto @ l4) n (ext_next es proto) (length pre) =
    Some (l4_verdict_of proto,
      Some \<lparr>fk_ip_version = 6, fk_proto = proto, fk_src_port = be16 (l4 ! 0) (l4 ! 1),
            fk_dst_port = be16 (l4 ! 2) (l4 ! 3), fk_src_ip = take 16 (drop 8 pre),
            fk_dst_ip = take 16 (drop 24 pre)\<rparr>)"
  using assms
proof (induction es arbitrary: n pre)
  case Nil
  obtain m where n: "n = Suc m" using Nil by (cases n) auto
  have l4: "8 \<le> length l4" using Nil by (auto simp: l4_min_def split: if_splits)
  show ?case
    using Nil l4 by (auto simp: n rd_simps nth_append)
next
  case (Cons e es)
  obtain kind hel body where e: "e = (kind, hel, body)" by (cases e)
  obtain m where n: "n = Suc m" using Cons.prems by (cases n) auto
  let ?pre = "pre @ ext_next es proto # hel # body"
  have len: "length ?pre = length pre + (unat hel + 1) * 8"
    using Cons.prems(1) by (simp add: e ext_ok_def)
  have IH: "parse_v6_walk (?pre @ ext_chain es proto @ l4) m (ext_next es proto) (length ?pre) =
    Some (l4_verdict_of proto,
      Some \<lparr>fk_ip_version = 6, fk_proto = proto, fk_src_port = be16 (l4 ! 0) (l4 ! 1),
            fk_dst_port = be16 (l4 ! 2) (l4 ! 3), fk_src_ip = take 16 (drop 8 ?pre),
            fk_dst_ip = take 16 (drop 24 ?pre)\<rparr>)"
    using Cons.prems n by (intro Cons.IH) auto
  have kind: "kind = MQVPN_IP6_HOPOPTS \<or> kind = MQVPN_IP6_ROUTING \<or> kind = MQVPN_IP6_DSTOPTS"
    using Cons.prems(1) by (simp add: e ext_ok_def)
  then have "kind \<noteq> MQVPN_IPPROTO_UDP \<and> kind \<noteq> MQVPN_IPPROTO_TCP \<and> kind \<noteq> MQVPN_IP6_FRAGMENT"
    by (auto simp: ip6_kinds)
  then show ?case
    using IH kind Cons.prems(3) len
    by (simp add: e n rd_simps nth_append Let_def ac_simps)
qed

lemma mqvpn_flow_key_eq_iff [simp]: "mqvpn_flow_key_eq a b \<longleftrightarrow> a = b"
  by (auto simp: mqvpn_flow_key_eq_def intro: mqvpn_flow_key.equality)

lemma mqvpn_reorder_parse_5tuple_total: "\<exists>ko. mqvpn_reorder_parse_5tuple pkt = Some ko"
  using mqvpn_parse_l3l4_total [of pkt] by (auto simp: mqvpn_reorder_parse_5tuple_def)

lemma cap_is_valid_1024 [simp]: "mqvpn_reorder_cap_is_valid 1024"
  by (simp add: mqvpn_reorder_cap_is_valid_def)

lemma finalize_rule_cap_valid: "mqvpn_reorder_cap_is_valid (ru_resolved_cap (finalize_rule cfg r))"
  by (simp add: finalize_rule_def Let_def)

lemma finalize_rule_idem: "finalize_rule (mqvpn_reorder_config_finalize cfg) (finalize_rule cfg r) = finalize_rule cfg r"
  by (simp add: finalize_rule_def mqvpn_reorder_config_finalize_def Let_def split: option.split)

lemma match_rule_finalize:
  "mqvpn_reorder_match_rule (mqvpn_reorder_config_finalize cfg) key =
     map_option (finalize_rule cfg) (mqvpn_reorder_match_rule cfg key)"
proof -
  have "rule_matches key (finalize_rule cfg r) = rule_matches key r" for r
    by (simp add: rule_matches_def finalize_rule_def Let_def)
  then have "List.find (rule_matches key) (map (finalize_rule cfg) rs) =
      map_option (finalize_rule cfg) (List.find (rule_matches key) rs)" for rs
    by (induction rs) simp_all
  then show ?thesis
    by (simp add: mqvpn_reorder_match_rule_def mqvpn_reorder_config_finalize_def)
qed

section \<open>Properties\<close>

text \<open>
  C21: A stamped header is self-describing and decodes to what was encoded: for every type, flag
  byte and sequence number, decoding the eight encoded bytes in front of any payload succeeds and
  returns the type, the flags and the low 48 bits of the sequence number (the whole number while
  it is below 2^48), and a header of type V1 is dispatched as a reordered packet.
\<close>

theorem reorder_header_roundtrip:
  "mqvpn_reorder_wire_decode (mqvpn_reorder_wire_encode t f seq @ payload) =
     Some (Some (t, f, take_bit 48 seq)) \<and>
   unat (take_bit 48 seq) = unat seq mod 2 ^ 48 \<and>
   mqvpn_reorder_classify_byte (hd (mqvpn_reorder_wire_encode MQVPN_REORDER_TYPE_V1 f seq)) =
     MQVPN_REORDER_KIND_REORDER_V1"
proof -
  have "unat (take_bit 48 seq) = take_bit 48 (unat seq)" by (simp add: unsigned_take_bit_eq)
  then have "unat (take_bit 48 seq) = unat seq mod 2 ^ 48" by (simp only: take_bit_eq_mod)
  then show ?thesis
    by (simp only: decode_encode)
      (simp add: mqvpn_reorder_wire_encode_def mqvpn_reorder_classify_byte_def MQVPN_REORDER_TYPE_V1_def)
qed

text \<open>
  C22: The inner-packet parser is memory safe and total: on every byte string, of whatever
  length and content, it returns without reading outside the packet, it writes a key exactly for
  the UDP and TCP verdicts, and the key it writes is canonical (protocol 17 for UDP and 6 for
  TCP, version 4 or 6, two 16-byte addresses, the last twelve bytes of an IPv4 address zero).
\<close>

theorem mqvpn_parse_l3l4_safe:
  "\<exists>r. mqvpn_parse_l3l4 pkt = Some r \<and> parse_result_ok r"
  using mqvpn_parse_l3l4_total mqvpn_parse_l3l4_ok by blast

text \<open>
  C23: The parser sees through IPv6 extension headers: a packet with up to fifteen hop-by-hop,
  routing and destination-options headers of any legal size in front of its UDP or TCP header
  parses to that protocol's verdict and to exactly the 5-tuple of the packet, whatever its traffic
  class, flow label, payload length and hop limit.
\<close>

theorem mqvpn_parse_l3l4_ip6_chain:
  assumes "length vtf = 4" and "drop_bit 4 (vtf ! 0) = 6" and "length plen = 2"
    and "length src = 16" and "length dst = 16" and "list_all ext_ok es" and "length es \<le> 15"
    and "proto = MQVPN_IPPROTO_UDP \<or> proto = MQVPN_IPPROTO_TCP" and "l4_min proto \<le> length l4"
  shows "mqvpn_parse_l3l4 (ip6_packet vtf plen hop src dst es proto l4) =
    Some (l4_verdict_of proto,
      Some \<lparr>fk_ip_version = 6, fk_proto = proto, fk_src_port = be16 (l4 ! 0) (l4 ! 1),
            fk_dst_port = be16 (l4 ! 2) (l4 ! 3), fk_src_ip = src, fk_dst_ip = dst\<rparr>)"
proof -
  let ?pre = "vtf @ plen @ [ext_next es proto, hop] @ src @ dst"
  have "parse_v6_walk (?pre @ ext_chain es proto @ l4) 16 (ext_next es proto) (length ?pre) =
    Some (l4_verdict_of proto,
      Some \<lparr>fk_ip_version = 6, fk_proto = proto, fk_src_port = be16 (l4 ! 0) (l4 ! 1),
            fk_dst_port = be16 (l4 ! 2) (l4 ! 3), fk_src_ip = take 16 (drop 8 ?pre),
            fk_dst_ip = take 16 (drop 24 ?pre)\<rparr>)"
    using assms by (intro parse_v6_walk_chain) auto
  then show ?thesis
    using assms(1-5) by (simp add: mqvpn_parse_l3l4_def parse_v6_def ip6_packet_def rd_def nth_append)
qed

definition ex_ip6 :: "u8 list" where
  "ex_ip6 = ip6_packet [0x6a, 0xb1, 0x23, 0x45] [0, 32] 64 (replicate 16 1) (replicate 16 2)
     [(0, 0, replicate 6 0), (43, 1, replicate 14 0)] 17 [0x1f, 0x90, 0, 53, 0, 8, 0, 0]"

theorem mqvpn_parse_l3l4_ip6_chain_witness:
  "mqvpn_parse_l3l4 ex_ip6 =
    Some (MQVPN_L4_UDP,
      Some \<lparr>fk_ip_version = 6, fk_proto = 17, fk_src_port = 8080, fk_dst_port = 53,
            fk_src_ip = replicate 16 1, fk_dst_ip = replicate 16 2\<rparr>)"
  using mqvpn_parse_l3l4_ip6_chain
    [of "[0x6a, 0xb1, 0x23, 0x45]" "[0, 32]" "replicate 16 1" "replicate 16 2"
      "[(0, 0, replicate 6 0), (43, 1, replicate 14 0)]" 17 "[0x1f, 0x90, 0, 53, 0, 8, 0, 0]" 64]
  by (simp add: ex_ip6_def ext_ok_def ip6_kinds l4_min_def l4_verdict_of_def be16_def)

text \<open>
  C24: Resolving the rule parameters is idempotent, leaves every rule with a ring capacity that
  is a power of two (so that the ring's index mask is exact, whatever capacity was configured),
  switches the rules of the OFF class off, and does not change which rule a flow matches.
\<close>

theorem mqvpn_reorder_config_finalize_ok:
  "mqvpn_reorder_config_finalize (mqvpn_reorder_config_finalize cfg) = mqvpn_reorder_config_finalize cfg \<and>
   list_all (\<lambda>r. (\<exists>k. unat (ru_resolved_cap r) = 2 ^ k) \<and>
       (if ru_profile r = MQVPN_RPROF_DEFAULT_UDP then ru_resolved_wait_ms r = 0 else True))
     (rc_rules (mqvpn_reorder_config_finalize cfg)) \<and>
   mqvpn_reorder_match_rule (mqvpn_reorder_config_finalize cfg) key =
     map_option (finalize_rule cfg) (mqvpn_reorder_match_rule cfg key)"
proof -
  have "mqvpn_reorder_config_finalize (mqvpn_reorder_config_finalize cfg) = mqvpn_reorder_config_finalize cfg"
    using finalize_rule_idem [of cfg] by (simp add: mqvpn_reorder_config_finalize_def)
  moreover have "list_all (\<lambda>r. (\<exists>k. unat (ru_resolved_cap r) = 2 ^ k) \<and>
       (if ru_profile r = MQVPN_RPROF_DEFAULT_UDP then ru_resolved_wait_ms r = 0 else True))
     (rc_rules (mqvpn_reorder_config_finalize cfg))"
    using finalize_rule_cap_valid [of cfg]
    by (auto simp: mqvpn_reorder_config_finalize_def list_all_iff mqvpn_reorder_cap_is_valid_iff)
      (simp add: finalize_rule_def Let_def)
  ultimately show ?thesis by (simp add: match_rule_finalize)
qed

end
