(* ===== verification/Ring.thy ===== *)
theory Ring
  imports Wire "HOL-Library.Multiset"
begin

text \<open>
  The elastic, sequence-indexed ring of the receiver (\<^verbatim>\<open>src/reorder_rx.c\<close>, struct ring). A
  packet pointer is the packet's bytes or \<open>None\<close> for NULL; the slot array is \<open>None\<close> until the
  first insert allocates it. Whether an allocation succeeds is an argument.

  The ring refines a finite map from sequence numbers to packets (\<open>ring_abs\<close>): the interface
  \<open>seq_buffer\<close> states what the receive engine relies on and the ring is shown to provide it.
\<close>


section \<open>The ring\<close>

record ring_slot =
  rs_seq :: u64
  rs_len :: u16
  rs_pkt :: "u8 list option"
  rs_enqueue_us :: u64

record ring =
  rg_slots :: "ring_slot list option"
  rg_size :: u32
  rg_cap :: u32
  rg_count :: u32
  rg_bytes :: u64

definition RING_IDX :: "ring \<Rightarrow> u64 \<Rightarrow> u32" where
  "RING_IDX r s = ucast (s AND (ucast (rg_size r) - 1))"

definition ring_init :: "u32 \<Rightarrow> ring" where
  "ring_init cap = \<lparr>rg_slots = None, rg_size = 0, rg_cap = cap, rg_count = 0, rg_bytes = 0\<rparr>"

definition ring_free :: "ring \<Rightarrow> ring" where
  "ring_free r = r\<lparr>rg_slots := None, rg_size := 0, rg_count := 0, rg_bytes := 0\<rparr>"

definition ring_empty :: "ring \<Rightarrow> bool" where
  "ring_empty r \<longleftrightarrow> rg_count r = 0"

definition ring_far_ahead :: "ring \<Rightarrow> u64 \<Rightarrow> u64 \<Rightarrow> bool" where
  "ring_far_ahead r seq expected \<longleftrightarrow> seq - expected \<ge> ucast (rg_cap r)"

definition ring_contains :: "ring \<Rightarrow> u64 \<Rightarrow> bool" where
  "ring_contains r seq \<longleftrightarrow>
     (case rg_slots r of None \<Rightarrow> False
      | Some ss \<Rightarrow> (let s = ss ! unat (RING_IDX r seq) in rs_pkt s \<noteq> None \<and> rs_seq s = seq))"

text \<open>A zeroed slot, as calloc returns it.\<close>

definition slot_zero :: ring_slot where
  "slot_zero = \<lparr>rs_seq = 0, rs_len = 0, rs_pkt = None, rs_enqueue_us = 0\<rparr>"

definition ring_alloc_slots :: "bool \<Rightarrow> ring \<Rightarrow> u32 \<Rightarrow> ring option" where
  "ring_alloc_slots calloc_ok r new_size =
     (if \<not> calloc_ok then None
      else Some (r\<lparr>rg_slots := Some (replicate (unat new_size) slot_zero), rg_size := new_size\<rparr>))"

text \<open>
  The doubling loop of \<open>ring_grow_to_cover\<close>. From \<open>want = 0\<close> the C loop would never leave (a
  shift keeps it zero); the guard \<open>want \<noteq> 0\<close> makes the function total there, and
  \<open>ring_want_loop_covers\<close> below shows that a ring with a power-of-two capacity never gets there.
\<close>

function ring_want_loop :: "u32 \<Rightarrow> u64 \<Rightarrow> u32 \<Rightarrow> u32" where
  "ring_want_loop want span cap =
     (if ucast want \<le> span \<and> want < cap \<and> want \<noteq> 0
      then ring_want_loop (push_bit 1 want) span cap else want)"
  by pat_completeness auto

termination
proof (relation "measure (\<lambda>(want, span, cap). LEAST n. push_bit n want = 0)")
  fix want cap :: u32 and span :: u64
  assume "ucast want \<le> span \<and> want < cap \<and> want \<noteq> 0"
  then have "push_bit 0 want \<noteq> 0" by simp
  moreover have "push_bit 32 want = 0"
    by (rule bit_word_eqI) (simp add: bit_simps)
  ultimately have "(LEAST n. push_bit n want = 0) = Suc (LEAST m. push_bit (Suc m) want = 0)"
    by (rule Least_Suc [rotated])
  then show "((push_bit 1 want, span, cap), want, span, cap) \<in>
      measure (\<lambda>(want, span, cap). LEAST n. push_bit n want = 0)"
    by simp
qed simp

declare ring_want_loop.simps [simp del]

definition ring_rehash :: "ring \<Rightarrow> ring_slot list \<Rightarrow> ring" where
  "ring_rehash r old =
     fold (\<lambda>s r. if rs_pkt s \<noteq> None
                 then r\<lparr>rg_slots := map_option (\<lambda>ss. ss[unat (RING_IDX r (rs_seq s)) := s]) (rg_slots r)\<rparr>
                 else r) old r"

definition ring_grow_to_cover :: "bool \<Rightarrow> ring \<Rightarrow> u64 \<Rightarrow> ring option" where
  "ring_grow_to_cover calloc_ok r span =
     (let want = ring_want_loop (if rg_size r \<noteq> 0 then rg_size r else 1) span (rg_cap r);
          want = (if want < rg_size r then rg_size r else want)
      in if want = rg_size r \<and> rg_slots r \<noteq> None then Some r
         else (case ring_alloc_slots calloc_ok r want of
                 None \<Rightarrow> None
               | Some r' \<Rightarrow> (case rg_slots r of None \<Rightarrow> Some r' | Some old \<Rightarrow> Some (ring_rehash r' old))))"

definition ring_store :: "ring \<Rightarrow> u64 \<Rightarrow> u8 list \<Rightarrow> u16 \<Rightarrow> u64 \<Rightarrow> ring" where
  "ring_store r seq pkt len enqueue_us =
     r\<lparr>rg_slots := map_option (\<lambda>ss. ss[unat (RING_IDX r seq) :=
          \<lparr>rs_seq = seq, rs_len = len, rs_pkt = Some pkt, rs_enqueue_us = enqueue_us\<rparr>]) (rg_slots r),
       rg_count := rg_count r + 1, rg_bytes := rg_bytes r + ucast len\<rparr>"

text \<open>\<open>None\<close> is the return code -1; the ring is then unchanged.\<close>

definition ring_insert :: "bool \<Rightarrow> ring \<Rightarrow> u64 \<Rightarrow> u8 list \<Rightarrow> u16 \<Rightarrow> u64 \<Rightarrow> u64 \<Rightarrow> ring option" where
  "ring_insert calloc_ok r seq pkt len expected enqueue_us =
     (let span = seq - expected
      in if rg_slots r = None \<or> span \<ge> ucast (rg_size r)
         then (case ring_grow_to_cover calloc_ok r span of
                 None \<Rightarrow> None
               | Some r' \<Rightarrow> Some (ring_store r' seq pkt len enqueue_us))
         else Some (ring_store r seq pkt len enqueue_us))"

text \<open>The packet with its stored length and admit time, or \<open>None\<close> for NULL, and the new ring.\<close>

definition ring_remove :: "ring \<Rightarrow> u64 \<Rightarrow> (u8 list \<times> u16 \<times> u64) option \<times> ring" where
  "ring_remove r seq =
     (case rg_slots r of None \<Rightarrow> (None, r)
      | Some ss \<Rightarrow>
        (let i = unat (RING_IDX r seq); s = ss ! i
         in case rs_pkt s of
              None \<Rightarrow> (None, r)
            | Some pkt \<Rightarrow>
                if rs_seq s \<noteq> seq then (None, r)
                else (Some (pkt, rs_len s, rs_enqueue_us s),
                      r\<lparr>rg_slots := Some (ss[i := slot_zero]), rg_count := rg_count r - 1,
                        rg_bytes := rg_bytes r - ucast (rs_len s)\<rparr>)))"

fun ring_scan :: "ring \<Rightarrow> u64 \<Rightarrow> nat \<Rightarrow> nat \<Rightarrow> u64" where
  "ring_scan r expected i 0 = expected"
| "ring_scan r expected i (Suc n) =
     (let seq = expected + of_nat i
      in if ring_contains r seq then seq else ring_scan r expected (Suc i) n)"

definition ring_lowest_seq :: "ring \<Rightarrow> u64 \<Rightarrow> u64" where
  "ring_lowest_seq r expected =
     (case rg_slots r of None \<Rightarrow> expected
      | Some ss \<Rightarrow> ring_scan r expected 0 (unat (rg_size r)))"


section \<open>Abstraction and invariant\<close>

text \<open>The packet, its length and its admit time by sequence number.\<close>

definition ring_abs :: "ring \<Rightarrow> u64 \<rightharpoonup> u8 list \<times> u16 \<times> u64" where
  "ring_abs r seq =
     (case rg_slots r of None \<Rightarrow> None
      | Some ss \<Rightarrow>
        (let s = ss ! unat (RING_IDX r seq)
         in case rs_pkt s of None \<Rightarrow> None
            | Some pkt \<Rightarrow> if rs_seq s = seq then Some (pkt, rs_len s, rs_enqueue_us s) else None))"

definition slot_used :: "ring_slot \<Rightarrow> bool" where
  "slot_used s \<longleftrightarrow> rs_pkt s \<noteq> None"

definition is_pow2 :: "nat \<Rightarrow> bool" where
  "is_pow2 n \<longleftrightarrow> (\<exists>k. n = 2 ^ k)"

text \<open>
  Relative to the window origin \<open>e\<close>: the array has \<open>size\<close> entries, both sizes are powers of two,
  every occupied slot stands where its sequence number is indexed and inside the window
  \<open>[e, e + size)\<close>, and the two totals are exact.
\<close>

definition ring_wf :: "ring \<Rightarrow> u64 \<Rightarrow> bool" where
  "ring_wf r e \<longleftrightarrow>
     is_pow2 (unat (rg_cap r)) \<and>
     (case rg_slots r of
        None \<Rightarrow> rg_size r = 0 \<and> rg_count r = 0 \<and> rg_bytes r = 0
      | Some ss \<Rightarrow>
          length ss = unat (rg_size r) \<and> is_pow2 (unat (rg_size r)) \<and> rg_size r \<le> rg_cap r \<and>
          (\<forall>i < length ss. slot_used (ss ! i) \<longrightarrow>
             unat (RING_IDX r (rs_seq (ss ! i))) = i \<and>
             unat e \<le> unat (rs_seq (ss ! i)) \<and>
             unat (rs_seq (ss ! i)) < unat e + unat (rg_size r)) \<and>
          unat (rg_count r) = length (filter slot_used ss) \<and>
          unat (rg_bytes r) = sum_list (map (unat \<circ> rs_len) (filter slot_used ss)))"


section \<open>Sizes and indices\<close>

lemma is_pow2_code [code]: "is_pow2 n \<longleftrightarrow> n \<noteq> 0 \<and> n AND (n - 1) = 0"
proof
  assume "is_pow2 n"
  then obtain k where k: "n = 2 ^ k" by (auto simp: is_pow2_def)
  have "n AND mask k = 0" using take_bit_eq_mask [of k n] by (simp add: k)
  then show "n \<noteq> 0 \<and> n AND (n - 1) = 0" by (simp add: k mask_eq_exp_minus_1)
qed (metis is_pow2_def nat_and_pred_zero)

lemma is_pow2_0 [simp]: "\<not> is_pow2 0" by (simp add: is_pow2_def)

lemma is_pow2_1 [simp]: "is_pow2 1" "is_pow2 (Suc 0)"
  by (auto simp: is_pow2_def intro: exI [of _ 0])

lemma is_pow2_double: "is_pow2 n \<Longrightarrow> is_pow2 (2 * n)"
  unfolding is_pow2_def by (metis power_Suc)

lemma is_pow2_less_double:
  assumes "is_pow2 m" and "is_pow2 n" and "m < n"
  shows "2 * m \<le> n"
proof -
  obtain i j where ij: "m = 2 ^ i" "n = 2 ^ j" using assms by (auto simp: is_pow2_def)
  then have "i < j" using assms(3) by simp
  then have "(2::nat) ^ Suc i \<le> 2 ^ j" by (intro power_increasing) auto
  then show ?thesis using ij by simp
qed

lemma ring_idx_mod:
  assumes "is_pow2 (unat (rg_size r))"
  shows "unat (RING_IDX r s) = unat s mod unat (rg_size r)"
proof -
  obtain k where k: "unat (rg_size r) = 2 ^ k" using assms by (auto simp: is_pow2_def)
  have "unat (s AND (ucast (rg_size r) - 1)) = unat s mod unat (rg_size r)"
    using and_pow2_mod [of "ucast (rg_size r) :: u64" k s] k by simp
  moreover have "unat s mod unat (rg_size r) < 4294967296"
    using k unat_u32_lt [of "rg_size r"] by (metis mod_less_divisor order_less_trans zero_less_numeral zero_less_power)
  ultimately show ?thesis
    by (simp add: RING_IDX_def unsigned_ucast_eq take_bit_nat_eq_self_iff)
qed

lemma ring_idx_less:
  "is_pow2 (unat (rg_size r)) \<Longrightarrow> unat (RING_IDX r s) < unat (rg_size r)"
  by (simp add: ring_idx_mod) (metis is_pow2_0 mod_less_divisor neq0_conv)

lemma ring_want_loop_covers:
  assumes "is_pow2 (unat cap)" and "is_pow2 (unat want)" and "want \<le> cap" and "span < ucast cap"
  shows "is_pow2 (unat (ring_want_loop want span cap)) \<and> want \<le> ring_want_loop want span cap \<and>
         ring_want_loop want span cap \<le> cap \<and> span < ucast (ring_want_loop want span cap)"
  using assms
proof (induction want span cap rule: ring_want_loop.induct)
  case (1 want span cap)
  show ?case
  proof (cases "ucast want \<le> span \<and> want < cap \<and> want \<noteq> 0")
    case True
    have "2 * unat want \<le> unat cap"
      using is_pow2_less_double 1 True by (simp add: word_less_nat_alt)
    then have u: "unat (push_bit 1 want) = 2 * unat want"
      using unat_u32_lt [of cap] by (simp add: push_bit_eq_mult unat_word_ariths)
    then have "is_pow2 (unat (push_bit 1 want))" and "push_bit 1 want \<le> cap"
      using 1 \<open>2 * unat want \<le> unat cap\<close> by (simp_all add: is_pow2_double word_le_nat_alt)
    with 1 True have IH: "is_pow2 (unat (ring_want_loop (push_bit 1 want) span cap)) \<and>
        push_bit 1 want \<le> ring_want_loop (push_bit 1 want) span cap \<and>
        ring_want_loop (push_bit 1 want) span cap \<le> cap \<and>
        span < ucast (ring_want_loop (push_bit 1 want) span cap)" by blast
    moreover have "want \<le> push_bit 1 want" using u by (simp add: word_le_nat_alt)
    ultimately show ?thesis
      using True by (subst (1 2 3 4) ring_want_loop.simps) auto
  next
    case False
    then have r: "ring_want_loop want span cap = want"
      by (subst ring_want_loop.simps) auto
    have "want \<noteq> 0" using 1 by auto
    then have "span < ucast want"
      using False 1 by (auto simp: word_le_nat_alt word_less_nat_alt)
    then show ?thesis using 1 r by simp
  qed
qed

section \<open>Rehash\<close>

definition place_all :: "(ring_slot \<Rightarrow> nat) \<Rightarrow> ring_slot list \<Rightarrow> ring_slot list \<Rightarrow> ring_slot list" where
  "place_all f old ss = fold (\<lambda>s ss. if slot_used s then ss[f s := s] else ss) old ss"

lemma ring_rehash_place_all:
  assumes "rg_slots r = Some ss"
  shows "ring_rehash r old = r\<lparr>rg_slots := Some (place_all (\<lambda>s. unat (RING_IDX r (rs_seq s))) old ss)\<rparr>"
  using assms
proof (induction old arbitrary: r ss)
  case Nil
  then show ?case by (cases r) (simp add: ring_rehash_def place_all_def)
next
  case (Cons s old)
  let ?r = "if slot_used s then r\<lparr>rg_slots := Some (ss[unat (RING_IDX r (rs_seq s)) := s])\<rparr> else r"
  let ?ss = "if slot_used s then ss[unat (RING_IDX r (rs_seq s)) := s] else ss"
  have "ring_rehash r (s # old) = ring_rehash ?r old"
    using Cons.prems by (simp add: ring_rehash_def slot_used_def)
  moreover have "rg_slots ?r = Some ?ss" using Cons.prems by simp
  moreover have "RING_IDX ?r = RING_IDX r" by (auto simp: RING_IDX_def fun_eq_iff)
  ultimately show ?case
    using Cons.IH [of ?r ?ss] by (auto simp: place_all_def)
qed

lemma place_all_spec:
  assumes "\<forall>s \<in> set old. slot_used s \<longrightarrow> f s < length ss \<and> \<not> slot_used (ss ! f s)"
    and "distinct (map f (filter slot_used old))"
  shows "length (place_all f old ss) = length ss \<and>
    filter_mset slot_used (mset (place_all f old ss)) =
      filter_mset slot_used (mset old) + filter_mset slot_used (mset ss) \<and>
    (\<forall>s \<in> set old. slot_used s \<longrightarrow> place_all f old ss ! f s = s) \<and>
    (\<forall>i. i \<notin> f ` set (filter slot_used old) \<longrightarrow> place_all f old ss ! i = ss ! i)"
  using assms
proof (induction old arbitrary: ss)
  case Nil
  then show ?case by (simp add: place_all_def)
next
  case (Cons s old)
  show ?case
  proof (cases "slot_used s")
    case False
    then have "place_all f (s # old) ss = place_all f old ss" by (simp add: place_all_def)
    then show ?thesis using Cons False by simp
  next
    case True
    let ?ss = "ss[f s := s]"
    have step: "place_all f (s # old) ss = place_all f old ?ss"
      using True by (simp add: place_all_def)
    have fs: "f s < length ss" "\<not> slot_used (ss ! f s)" using Cons.prems True by auto
    have ne: "\<forall>t \<in> set old. slot_used t \<longrightarrow> f t \<noteq> f s"
      using Cons.prems(2) True by (auto simp: image_iff)
    have IH: "length (place_all f old ?ss) = length ?ss \<and>
      filter_mset slot_used (mset (place_all f old ?ss)) =
        filter_mset slot_used (mset old) + filter_mset slot_used (mset ?ss) \<and>
      (\<forall>t \<in> set old. slot_used t \<longrightarrow> place_all f old ?ss ! f t = t) \<and>
      (\<forall>i. i \<notin> f ` set (filter slot_used old) \<longrightarrow> place_all f old ?ss ! i = ?ss ! i)"
      using Cons.prems ne True by (intro Cons.IH) (auto simp: nth_list_update)
    have "filter_mset slot_used (mset ?ss) = add_mset s (filter_mset slot_used (mset ss))"
      using fs True by (simp add: mset_update)
    moreover have "f s \<notin> f ` set (filter slot_used old)" using ne by auto
    then have "place_all f old ?ss ! f s = ?ss ! f s" using IH by blast
    then have "place_all f old ?ss ! f s = s" using fs by simp
    ultimately show ?thesis
      using IH True fs step by (auto simp: nth_list_update)
  qed
qed

lemma distinct_map_filter_nth:
  assumes "\<And>i j. i < length xs \<Longrightarrow> j < length xs \<Longrightarrow> P (xs ! i) \<Longrightarrow> P (xs ! j) \<Longrightarrow>
             f (xs ! i) = f (xs ! j) \<Longrightarrow> i = j"
  shows "distinct (map f (filter P xs))"
  using assms
proof (induction xs)
  case (Cons x xs)
  have "distinct (map f (filter P xs))"
    by (rule Cons.IH) (use Cons.prems [of "Suc _" "Suc _"] in fastforce)
  moreover have "f x \<notin> f ` set (filter P xs)" if "P x"
  proof
    assume "f x \<in> f ` set (filter P xs)"
    then obtain j where "j < length xs" "P (xs ! j)" "f x = f (xs ! j)"
      by (auto simp: in_set_conv_nth)
    then show False using Cons.prems [of 0 "Suc j"] that by simp
  qed
  ultimately show ?case by auto
qed simp


section \<open>The ring as a map\<close>

abbreviation used_slots :: "ring_slot list \<Rightarrow> ring_slot multiset" where
  "used_slots ss \<equiv> filter_mset slot_used (mset ss)"

lemma ring_totals:
  "length (filter slot_used ss) = size (used_slots ss)"
  "sum_list (map (unat \<circ> rs_len) (filter slot_used ss)) = (\<Sum>s\<in>#used_slots ss. unat (rs_len s))"
  by (simp_all add: mset_filter [symmetric] sum_mset_sum_list [symmetric] comp_def del: mset_filter)

lemma ring_wf_SomeD:
  assumes "ring_wf r e" and "rg_slots r = Some ss"
  shows "length ss = unat (rg_size r)" "is_pow2 (unat (rg_size r))" "rg_size r \<le> rg_cap r"
    "unat (rg_count r) = size (used_slots ss)"
    "unat (rg_bytes r) = (\<Sum>s\<in>#used_slots ss. unat (rs_len s))"
  using assms by (auto simp: ring_wf_def ring_totals)

lemma ring_wf_usedD:
  assumes "ring_wf r e" and "rg_slots r = Some ss" and "i < length ss" and "slot_used (ss ! i)"
  shows "unat (RING_IDX r (rs_seq (ss ! i))) = i" "unat e \<le> unat (rs_seq (ss ! i))"
    "unat (rs_seq (ss ! i)) < unat e + unat (rg_size r)"
  using assms by (auto simp: ring_wf_def)

lemma ring_wf_capD: "ring_wf r e \<Longrightarrow> is_pow2 (unat (rg_cap r))"
  by (simp add: ring_wf_def)

lemma ring_abs_None_slots [simp]: "rg_slots r = None \<Longrightarrow> ring_abs r = Map.empty"
  by (auto simp: ring_abs_def)

lemma ring_abs_in_slots:
  assumes "ring_wf r e" and "rg_slots r = Some ss"
  shows "ring_abs r q = Some (p, l, t) \<longleftrightarrow>
     \<lparr>rs_seq = q, rs_len = l, rs_pkt = Some p, rs_enqueue_us = t\<rparr> \<in> set ss"
proof
  assume "ring_abs r q = Some (p, l, t)"
  then have "ss ! unat (RING_IDX r q) = \<lparr>rs_seq = q, rs_len = l, rs_pkt = Some p, rs_enqueue_us = t\<rparr>"
    using assms(2) by (auto simp: ring_abs_def Let_def split: option.splits if_splits)
  moreover have "unat (RING_IDX r q) < length ss"
    using ring_wf_SomeD [OF assms] by (simp add: ring_idx_less)
  ultimately show "\<lparr>rs_seq = q, rs_len = l, rs_pkt = Some p, rs_enqueue_us = t\<rparr> \<in> set ss"
    by (metis nth_mem)
next
  assume "\<lparr>rs_seq = q, rs_len = l, rs_pkt = Some p, rs_enqueue_us = t\<rparr> \<in> set ss"
  then obtain i where i: "i < length ss"
    "ss ! i = \<lparr>rs_seq = q, rs_len = l, rs_pkt = Some p, rs_enqueue_us = t\<rparr>"
    by (auto simp: in_set_conv_nth)
  then have "unat (RING_IDX r q) = i"
    using ring_wf_usedD(1) [OF assms i(1)] by (simp add: slot_used_def)
  then show "ring_abs r q = Some (p, l, t)"
    using assms(2) i by (simp add: ring_abs_def)
qed

lemma ring_abs_used_slots:
  assumes "ring_wf r e" and "rg_slots r = Some ss"
  shows "ring_abs r q = Some (p, l, t) \<longleftrightarrow>
     \<lparr>rs_seq = q, rs_len = l, rs_pkt = Some p, rs_enqueue_us = t\<rparr> \<in># used_slots ss"
  by (simp add: ring_abs_in_slots [OF assms] slot_used_def)

lemma ring_contains_abs: "ring_contains r q \<longleftrightarrow> ring_abs r q \<noteq> None"
  by (auto simp: ring_contains_def ring_abs_def Let_def split: option.splits)

lemma ring_abs_window:
  assumes "ring_wf r e" and "ring_abs r q \<noteq> None"
  shows "unat e \<le> unat q" "unat q < unat e + unat (rg_size r)" "rg_size r \<le> rg_cap r"
proof -
  obtain ss where ss: "rg_slots r = Some ss" using assms(2) by (cases "rg_slots r") auto
  obtain p l t where "ring_abs r q = Some (p, l, t)" using assms(2) by (metis not_None_eq prod_cases3)
  then have "\<lparr>rs_seq = q, rs_len = l, rs_pkt = Some p, rs_enqueue_us = t\<rparr> \<in> set ss"
    using ring_abs_in_slots [OF assms(1) ss] by simp
  then obtain i where "i < length ss"
    "ss ! i = \<lparr>rs_seq = q, rs_len = l, rs_pkt = Some p, rs_enqueue_us = t\<rparr>"
    by (auto simp: in_set_conv_nth)
  then show "unat e \<le> unat q" "unat q < unat e + unat (rg_size r)"
    using ring_wf_usedD(2,3) [OF assms(1) ss] by (fastforce simp: slot_used_def)+
  show "rg_size r \<le> rg_cap r" using ring_wf_SomeD(3) [OF assms(1) ss] .
qed

lemma ring_empty_abs:
  assumes "ring_wf r e"
  shows "ring_empty r \<longleftrightarrow> ring_abs r = Map.empty"
proof (cases "rg_slots r")
  case None
  then show ?thesis using assms by (simp add: ring_wf_def ring_empty_def)
next
  case (Some ss)
  have "ring_empty r \<longleftrightarrow> unat (rg_count r) = 0" by (simp add: ring_empty_def unat_eq_0)
  also have "\<dots> \<longleftrightarrow> used_slots ss = {#}" using ring_wf_SomeD(4) [OF assms Some] by simp
  also have "\<dots> \<longleftrightarrow> ring_abs r = Map.empty"
  proof
    assume u: "used_slots ss = {#}"
    show "ring_abs r = Map.empty"
    proof
      fix q show "ring_abs r q = None"
        using ring_abs_used_slots [OF assms Some, of q] u by (cases "ring_abs r q") auto
    qed
  next
    assume a: "ring_abs r = Map.empty"
    show "used_slots ss = {#}"
    proof (rule ccontr)
      assume "used_slots ss \<noteq> {#}"
      then obtain s where s: "s \<in># used_slots ss" by (auto dest: multiset_nonemptyE)
      then obtain p where "rs_pkt s = Some p" by (auto simp: slot_used_def)
      then have "ring_abs r (rs_seq s) = Some (p, rs_len s, rs_enqueue_us s)"
        using s by (subst ring_abs_used_slots [OF assms Some]) (cases s; simp)
      then show False using a by simp
    qed
  qed
  finally show ?thesis .
qed

lemma ring_bytes_bound:
  assumes "ring_wf r e"
  shows "unat (rg_bytes r) \<le> 65535 * unat (rg_count r)"
proof (cases "rg_slots r")
  case None
  then show ?thesis using assms by (simp add: ring_wf_def)
next
  case (Some ss)
  have "(\<Sum>s\<in>#M. unat (rs_len s)) \<le> 65535 * size M" for M
  proof (induction M)
    case (add s M)
    have "unat (rs_len s) \<le> 65535" using unat_u16_lt [of "rs_len s"] by simp
    with add show ?case by simp
  qed simp
  then show ?thesis using ring_wf_SomeD(4,5) [OF assms Some] by simp
qed

lemma ring_wf_advance:
  assumes "ring_wf r e" and "unat e \<le> unat e'" and "\<And>q. ring_abs r q \<noteq> None \<Longrightarrow> unat e' \<le> unat q"
  shows "ring_wf r e'"
proof (cases "rg_slots r")
  case None
  then show ?thesis using assms(1) by (simp add: ring_wf_def)
next
  case (Some ss)
  have "unat e' \<le> unat (rs_seq (ss ! i)) \<and> unat (rs_seq (ss ! i)) < unat e' + unat (rg_size r)"
    if i: "i < length ss" "slot_used (ss ! i)" for i
  proof -
    obtain p where "rs_pkt (ss ! i) = Some p" using i(2) by (auto simp: slot_used_def)
    then have "ring_abs r (rs_seq (ss ! i)) = Some (p, rs_len (ss ! i), rs_enqueue_us (ss ! i))"
      using i by (subst ring_abs_in_slots [OF assms(1) Some]) (metis nth_mem ring_slot.surjective old.unit.exhaust)
    then have "unat e' \<le> unat (rs_seq (ss ! i))" using assms(3) by simp
    then show ?thesis using ring_wf_usedD(3) [OF assms(1) Some i] assms(2) by linarith
  qed
  then show ?thesis using assms(1) Some by (simp add: ring_wf_def)
qed

lemma ring_wf_init: "is_pow2 (unat cap) \<Longrightarrow> ring_wf (ring_init cap) e"
  by (simp add: ring_wf_def ring_init_def)

lemma ring_wf_free: "ring_wf r e \<Longrightarrow> ring_wf (ring_free r) e'"
  by (simp add: ring_wf_def ring_free_def)

lemma ring_abs_init [simp]: "ring_abs (ring_init cap) = Map.empty" "ring_abs (ring_free r) = Map.empty"
  by (simp_all add: ring_init_def ring_free_def)


section \<open>Operations\<close>

lemma ring_idx_window_inj:
  assumes "is_pow2 (unat (rg_size r))" and "unat (RING_IDX r a) = unat (RING_IDX r b)"
    and "unat e \<le> unat a" "unat a < unat e + n" "unat e \<le> unat b" "unat b < unat e + n"
    and "n \<le> unat (rg_size r)"
  shows "a = b"
proof -
  have "unat a = unat b"
    using window_mod_inj [of "unat e" "unat a" "unat (rg_size r)" "unat b"] assms
    by (simp add: ring_idx_mod)
  then show ?thesis by (simp only: word_unat_eq_iff)
qed



lemma RING_IDX_updates [simp]:
  "RING_IDX (r\<lparr>rg_slots := a\<rparr>) = RING_IDX r" "RING_IDX (r\<lparr>rg_count := b\<rparr>) = RING_IDX r"
  "RING_IDX (r\<lparr>rg_bytes := c\<rparr>) = RING_IDX r"
  by (simp_all add: RING_IDX_def fun_eq_iff)

text \<open>Growing keeps the contents.\<close>

lemma ring_grow_wf:
  assumes wf: "ring_wf r e" and slots: "rg_slots r = Some ss"
    and want: "is_pow2 (unat want)" "rg_size r \<le> want" "want \<le> rg_cap r"
    and r': "r' = ring_rehash (r\<lparr>rg_slots := Some (replicate (unat want) slot_zero), rg_size := want\<rparr>) ss"
  shows "ring_wf r' e \<and> ring_abs r' = ring_abs r \<and> rg_size r' = want \<and> rg_slots r' \<noteq> None \<and>
         rg_count r' = rg_count r \<and> rg_bytes r' = rg_bytes r \<and> rg_cap r' = rg_cap r"
proof -
  let ?r = "r\<lparr>rg_slots := Some (replicate (unat want) slot_zero), rg_size := want\<rparr>"
  let ?f = "\<lambda>s. unat (RING_IDX ?r (rs_seq s))"
  let ?ns = "place_all ?f ss (replicate (unat want) slot_zero)"
  have p2: "is_pow2 (unat (rg_size ?r))" using want by simp
  have r'eq: "r' = ?r\<lparr>rg_slots := Some ?ns\<rparr>"
    using r' ring_rehash_place_all [of ?r "replicate (unat want) slot_zero" ss] by simp
  have le: "unat (rg_size r) \<le> unat want" using want by (simp add: word_le_nat_alt)
  have "distinct (map ?f (filter slot_used ss))"
  proof (rule distinct_map_filter_nth)
    fix i j assume ij: "i < length ss" "j < length ss" "slot_used (ss ! i)" "slot_used (ss ! j)"
      "?f (ss ! i) = ?f (ss ! j)"
    then have eq: "rs_seq (ss ! i) = rs_seq (ss ! j)"
      using ring_wf_usedD(2,3) [OF wf slots] le
      by (intro ring_idx_window_inj [of ?r _ _ e "unat (rg_size r)"]) (auto simp: want)
    show "i = j"
      using ring_wf_usedD(1) [OF wf slots ij(1,3)] unfolding eq ring_wf_usedD(1) [OF wf slots ij(2,4)] ..
  qed
  moreover have "\<forall>s \<in> set ss. slot_used s \<longrightarrow>
      ?f s < length (replicate (unat want) slot_zero) \<and>
      \<not> slot_used (replicate (unat want) slot_zero ! ?f s)"
    using ring_idx_less [OF p2] by (auto simp: slot_used_def slot_zero_def)
  ultimately have spec: "length ?ns = length (replicate (unat want) slot_zero) \<and>
      used_slots ?ns = used_slots ss + used_slots (replicate (unat want) slot_zero) \<and>
      (\<forall>s \<in> set ss. slot_used s \<longrightarrow> ?ns ! ?f s = s) \<and>
      (\<forall>i. i \<notin> ?f ` set (filter slot_used ss) \<longrightarrow> ?ns ! i = replicate (unat want) slot_zero ! i)"
    by (intro place_all_spec)
  then have pl: "length ?ns = unat want"
    "used_slots ?ns = used_slots ss + used_slots (replicate (unat want) slot_zero)"
    "\<forall>s \<in> set ss. slot_used s \<longrightarrow> ?ns ! ?f s = s"
    "\<forall>i. i \<notin> ?f ` set (filter slot_used ss) \<longrightarrow> ?ns ! i = replicate (unat want) slot_zero ! i"
    by (simp, blast+)
  have "used_slots (replicate (unat want) slot_zero) = {#}"
    by (simp add: mset_filter [symmetric] filter_replicate slot_used_def slot_zero_def del: mset_filter)
  then have us: "used_slots ?ns = used_slots ss" using pl(2) by simp
  have idx: "unat (RING_IDX r' (rs_seq (?ns ! i))) = i \<and> unat e \<le> unat (rs_seq (?ns ! i)) \<and>
      unat (rs_seq (?ns ! i)) < unat e + unat want"
    if i: "i < length ?ns" "slot_used (?ns ! i)" for i
  proof -
    have "\<not> slot_used (replicate (unat want) slot_zero ! i)"
      using i(1) pl(1) by (simp add: slot_used_def slot_zero_def)
    then have "i \<in> ?f ` set (filter slot_used ss)" using i(2) pl(4) by (auto simp del: set_filter)
    then obtain s where s: "s \<in> set ss" "slot_used s" "i = ?f s" by auto
    then have ns: "?ns ! i = s" using pl(3) by simp
    obtain j where j: "j < length ss" "ss ! j = s" using s(1) by (auto simp: in_set_conv_nth)
    then have "unat e \<le> unat (rs_seq s)" "unat (rs_seq s) < unat e + unat (rg_size r)"
      using ring_wf_usedD(2,3) [OF wf slots, of j] s(2) by simp_all
    moreover have "RING_IDX r' = RING_IDX ?r" by (simp add: r'eq RING_IDX_def fun_eq_iff)
    ultimately show ?thesis using ns s(3) le by simp
  qed
  have wf': "ring_wf r' e"
    using ring_wf_SomeD [OF wf slots] want pl(1) idx ring_wf_capD [OF wf]
    by (simp add: ring_wf_def r'eq ring_totals us)
  have "ring_abs r' = ring_abs r"
  proof
    fix q
    have "ring_abs r' q = Some (p, l, t) \<longleftrightarrow> ring_abs r q = Some (p, l, t)" for p l t
      using ring_abs_used_slots [OF wf', of ?ns q] ring_abs_used_slots [OF wf slots, of q] us
      by (simp add: r'eq)
    then show "ring_abs r' q = ring_abs r q"
      by (metis not_None_eq prod_cases3)
  qed
  with wf' show ?thesis by (simp add: r'eq)
qed

lemma ring_grow_to_cover_ok:
  assumes wf: "ring_wf r e" and span: "span < ucast (rg_cap r)" and g: "ring_grow_to_cover ok r span = Some r'"
  shows "ring_wf r' e \<and> ring_abs r' = ring_abs r \<and> span < ucast (rg_size r') \<and> rg_slots r' \<noteq> None \<and>
         rg_count r' = rg_count r \<and> rg_bytes r' = rg_bytes r \<and> rg_cap r' = rg_cap r"
proof -
  let ?start = "if rg_size r \<noteq> 0 then rg_size r else 1"
  let ?w = "ring_want_loop ?start span (rg_cap r)"
  have cap: "is_pow2 (unat (rg_cap r))" using wf by (rule ring_wf_capD)
  have "is_pow2 (unat ?start) \<and> ?start \<le> rg_cap r \<and> rg_size r \<le> ?start"
  proof (cases "rg_slots r")
    case None
    then have "rg_size r = 0" using wf by (simp add: ring_wf_def)
    moreover have "0 < unat (rg_cap r)" using cap is_pow2_0 by (metis neq0_conv)
    ultimately show "is_pow2 (unat ?start) \<and> ?start \<le> rg_cap r \<and> rg_size r \<le> ?start"
      by (simp add: word_le_nat_alt Suc_le_eq)
  next
    case (Some ss)
    then have "is_pow2 (unat (rg_size r))" "rg_size r \<le> rg_cap r" using ring_wf_SomeD [OF wf] by auto
    moreover from this have "rg_size r \<noteq> 0" by auto
    ultimately show "is_pow2 (unat ?start) \<and> ?start \<le> rg_cap r \<and> rg_size r \<le> ?start" by simp_all
  qed
  then have w0: "is_pow2 (unat ?start)" "?start \<le> rg_cap r" "rg_size r \<le> ?start" by blast+
  have w: "is_pow2 (unat ?w)" "?start \<le> ?w" "?w \<le> rg_cap r" "span < ucast ?w"
    using ring_want_loop_covers [OF cap w0(1,2) span] by blast+
  have "rg_size r \<le> ?w" using w0(3) w(2) by (rule order_trans)
  then have nl: "\<not> ?w < rg_size r" by (simp only: not_less)
  show ?thesis
  proof (cases "rg_slots r")
    case None
    then have "r' = r\<lparr>rg_slots := Some (replicate (unat ?w) slot_zero), rg_size := ?w\<rparr>"
      using g nl by (auto simp: ring_grow_to_cover_def ring_alloc_slots_def Let_def split: if_splits)
    moreover have "filter slot_used (replicate (unat ?w) slot_zero) = []"
      by (simp add: slot_used_def slot_zero_def filter_replicate)
    moreover have "ring_abs (r\<lparr>rg_slots := Some (replicate (unat ?w) slot_zero), rg_size := ?w\<rparr>) = Map.empty"
      (is "ring_abs ?r = _")
    proof
      fix q
      have "unat (RING_IDX ?r q) < unat ?w" using ring_idx_less [of ?r q] w(1) by simp
      then show "ring_abs ?r q = None" by (simp add: ring_abs_def Let_def slot_zero_def)
    qed
    ultimately show ?thesis
      using wf w None by (auto simp: ring_wf_def slot_used_def slot_zero_def)
  next
    case (Some ss)
    show ?thesis
    proof (cases "?w = rg_size r")
      case True
      then have "r' = r" using g Some nl by (simp add: ring_grow_to_cover_def Let_def)
      then show ?thesis using wf w True Some by simp
    next
      case False
      then have "r' = ring_rehash (r\<lparr>rg_slots := Some (replicate (unat ?w) slot_zero), rg_size := ?w\<rparr>) ss"
        using g nl Some by (auto simp: ring_grow_to_cover_def ring_alloc_slots_def Let_def split: if_splits)
      from ring_grow_wf [OF wf Some w(1) _ w(3) this] w(2,4) w0(3) show ?thesis by auto
    qed
  qed
qed


text \<open>Storing into a ring whose window covers the sequence number.\<close>

lemma ring_store_ok:
  assumes wf: "ring_wf r e" and slots: "rg_slots r = Some ss"
    and q: "unat e \<le> unat q" "unat q < unat e + unat (rg_size r)" "ring_abs r q = None"
  shows "ring_wf (ring_store r q p l t) e \<and> ring_abs (ring_store r q p l t) = (ring_abs r)(q \<mapsto> (p, l, t)) \<and>
         unat (rg_bytes (ring_store r q p l t)) = unat (rg_bytes r) + unat l \<and>
         unat (rg_count (ring_store r q p l t)) = unat (rg_count r) + 1"
proof -
  let ?i = "unat (RING_IDX r q)"
  let ?s = "\<lparr>rs_seq = q, rs_len = l, rs_pkt = Some p, rs_enqueue_us = t\<rparr>"
  let ?r = "ring_store r q p l t"
  note D = ring_wf_SomeD [OF wf slots]
  have i: "?i < length ss" using ring_idx_less [OF D(2)] D(1) by simp
  have free: "\<not> slot_used (ss ! ?i)"
  proof
    assume u: "slot_used (ss ! ?i)"
    then have "rs_seq (ss ! ?i) = q"
      using ring_wf_usedD [OF wf slots i] q D(2)
      by (intro ring_idx_window_inj [of r _ _ e "unat (rg_size r)"]) auto
    then show False using u q(3) slots by (auto simp: ring_abs_def slot_used_def Let_def)
  qed
  have us: "used_slots (ss[?i := ?s]) = add_mset ?s (used_slots ss)"
    using i free by (simp add: mset_update slot_used_def)
  have "size (used_slots ss) < length ss"
  proof -
    have "size (used_slots (ss[?i := ?s])) \<le> length ss"
      using size_filter_mset_lesseq [of slot_used "mset (ss[?i := ?s])"] by simp
    then show ?thesis by (simp add: us)
  qed
  then have cnt: "unat (rg_count r) + 1 \<le> unat (rg_size r)" using D by simp
  then have c': "unat (rg_count r + 1) = unat (rg_count r) + 1"
    using unat_u32_lt [of "rg_size r"] by (simp add: unat_word_ariths)
  have "unat (rg_bytes r) \<le> 65535 * 4294967296"
    using ring_bytes_bound [OF wf] cnt unat_u32_lt [of "rg_size r"] by linarith
  then have b': "unat (rg_bytes r + ucast l) = unat (rg_bytes r) + unat l"
    using unat_u16_lt [of l] by (simp add: unat_word_ariths)
  have r: "?r = r\<lparr>rg_slots := Some (ss[?i := ?s]), rg_count := rg_count r + 1, rg_bytes := rg_bytes r + ucast l\<rparr>"
    using slots by (simp add: ring_store_def)
  have idx: "RING_IDX ?r = RING_IDX r" by (simp add: r RING_IDX_def fun_eq_iff)
  have wf': "ring_wf ?r e"
  proof -
    have "unat (RING_IDX ?r (rs_seq (ss[?i := ?s] ! j))) = j \<and> unat e \<le> unat (rs_seq (ss[?i := ?s] ! j)) \<and>
          unat (rs_seq (ss[?i := ?s] ! j)) < unat e + unat (rg_size ?r)"
      if "j < length ss" "slot_used (ss[?i := ?s] ! j)" for j
      using that q ring_wf_usedD [OF wf slots, of j] unfolding idx
      by (cases "j = ?i") (simp_all add: r)
    then show ?thesis
      using D ring_wf_capD [OF wf] c' b' by (simp add: ring_wf_def ring_totals us r)
  qed
  have "ring_abs ?r = (ring_abs r)(q \<mapsto> (p, l, t))"
  proof
    fix x
    show "ring_abs ?r x = ((ring_abs r)(q \<mapsto> (p, l, t))) x"
    proof (cases "x = q")
      case True
      then show ?thesis using i by (simp add: ring_abs_def r Let_def)
    next
      case False
      have "ring_abs ?r x = Some (a, b, c) \<longleftrightarrow> ring_abs r x = Some (a, b, c)" for a b c
        using ring_abs_used_slots [OF wf', of "ss[?i := ?s]" x] ring_abs_used_slots [OF wf slots, of x] us False
        by (simp add: r)
      then show ?thesis using False by (simp add: fun_upd_def) (metis not_None_eq prod_cases3)
    qed
  qed
  then show ?thesis using wf' b' c' by (simp add: r)
qed

lemma ring_far_ahead_iff:
  assumes "expected \<le> seq"
  shows "ring_far_ahead r seq expected \<longleftrightarrow> unat expected + unat (rg_cap r) \<le> unat seq"
  using assms by (auto simp: ring_far_ahead_def word_le_nat_alt unat_sub_le)

lemma ring_insert_ok:
  assumes wf: "ring_wf r e" and q: "e \<le> q" "\<not> ring_far_ahead r q e" "ring_abs r q = None"
    and ins: "ring_insert ok r q p l e t = Some r'"
  shows "ring_wf r' e \<and> ring_abs r' = (ring_abs r)(q \<mapsto> (p, l, t)) \<and>
         unat (rg_bytes r') = unat (rg_bytes r) + unat l \<and>
         unat (rg_count r') = unat (rg_count r) + 1 \<and> rg_cap r' = rg_cap r"
proof -
  have span: "unat (q - e) = unat q - unat e" "unat e \<le> unat q"
    using q(1) by (simp_all add: unat_sub_le word_le_nat_alt)
  have far: "q - e < ucast (rg_cap r)" using q(2) by (simp add: ring_far_ahead_def)
  obtain r1 ss where r1: "ring_wf r1 e" "ring_abs r1 = ring_abs r" "rg_slots r1 = Some ss"
    "q - e < ucast (rg_size r1)" "rg_count r1 = rg_count r" "rg_bytes r1 = rg_bytes r"
    "rg_cap r1 = rg_cap r" "r' = ring_store r1 q p l t"
  proof (cases "rg_slots r = None \<or> q - e \<ge> ucast (rg_size r)")
    case True
    then obtain r1 where g: "ring_grow_to_cover ok r (q - e) = Some r1" "r' = ring_store r1 q p l t"
      using ins by (auto simp: ring_insert_def Let_def split: option.splits)
    then show ?thesis using ring_grow_to_cover_ok [OF wf far g(1)] that by auto
  next
    case False
    then have "r' = ring_store r q p l t" using ins by (auto simp: ring_insert_def Let_def split: if_splits)
    then show ?thesis using False wf that by (auto simp: not_le)
  qed
  have "unat q < unat e + unat (rg_size r1)" using r1(4) span by (simp add: word_less_nat_alt)
  from ring_store_ok [OF r1(1,3) span(2) this] q(3) r1 show ?thesis
    by (simp add: ring_store_def)
qed

lemma ring_insert_alloc: "ring_insert True r q p l e t \<noteq> None"
  by (simp add: ring_insert_def ring_grow_to_cover_def ring_alloc_slots_def Let_def split: option.split)


lemma ring_remove_absent:
  "ring_abs r q = None \<Longrightarrow> ring_remove r q = (None, r)"
  by (auto simp: ring_remove_def ring_abs_def Let_def split: option.splits if_splits)

lemma ring_remove_present:
  assumes wf: "ring_wf r e" and q: "ring_abs r q = Some (p, l, t)"
  shows "fst (ring_remove r q) = Some (p, l, t) \<and> ring_wf (snd (ring_remove r q)) e \<and>
         ring_abs (snd (ring_remove r q)) = (ring_abs r)(q := None) \<and>
         unat (rg_bytes r) = unat (rg_bytes (snd (ring_remove r q))) + unat l \<and>
         unat (rg_count r) = unat (rg_count (snd (ring_remove r q))) + 1 \<and>
         rg_cap (snd (ring_remove r q)) = rg_cap r"
proof -
  obtain ss where slots: "rg_slots r = Some ss" using q by (cases "rg_slots r") auto
  let ?i = "unat (RING_IDX r q)"
  let ?s = "\<lparr>rs_seq = q, rs_len = l, rs_pkt = Some p, rs_enqueue_us = t\<rparr>"
  let ?ss = "ss[?i := slot_zero]"
  let ?r = "r\<lparr>rg_slots := Some ?ss, rg_count := rg_count r - 1, rg_bytes := rg_bytes r - ucast l\<rparr>"
  note D = ring_wf_SomeD [OF wf slots]
  have i: "?i < length ss" using ring_idx_less [OF D(2)] D(1) by simp
  have s: "ss ! ?i = ?s"
    using q slots by (auto simp: ring_abs_def Let_def split: option.splits if_splits)
  have rm: "ring_remove r q = (Some (p, l, t), ?r)"
    using slots s by (simp add: ring_remove_def)
  have "?s \<in># used_slots ss" using i s by (simp add: slot_used_def) (metis nth_mem)
  then have us: "used_slots ss = add_mset ?s (used_slots ?ss)"
    using i s by (simp add: mset_update slot_used_def slot_zero_def)
  have c: "unat (rg_count r) = size (used_slots ?ss) + 1" using D(4) us by simp
  have b: "unat (rg_bytes r) = (\<Sum>s\<in>#used_slots ?ss. unat (rs_len s)) + unat l" using D(5) us by simp
  have c': "unat (rg_count r - 1) = size (used_slots ?ss)"
    using c by (subst unat_sub_le) (simp_all add: word_le_nat_alt)
  have b': "unat (rg_bytes r - ucast l) = (\<Sum>s\<in>#used_slots ?ss. unat (rs_len s))"
    using b unat_u16_lt [of l]
    by (subst unat_sub_le) (simp_all add: word_le_nat_alt)
  have idx: "RING_IDX ?r = RING_IDX r" by (simp add: RING_IDX_def fun_eq_iff)
  have wf': "ring_wf ?r e"
  proof -
    have "unat (RING_IDX ?r (rs_seq (?ss ! j))) = j \<and> unat e \<le> unat (rs_seq (?ss ! j)) \<and>
          unat (rs_seq (?ss ! j)) < unat e + unat (rg_size ?r)"
      if "j < length ss" "slot_used (?ss ! j)" for j
      using that i ring_wf_usedD [OF wf slots, of j] unfolding idx
      by (cases "j = ?i") (simp_all add: slot_used_def slot_zero_def)
    then show ?thesis
      using D(1-3) ring_wf_capD [OF wf] c' b' by (simp add: ring_wf_def ring_totals)
  qed
  have "ring_abs ?r = (ring_abs r)(q := None)"
  proof
    fix x
    show "ring_abs ?r x = ((ring_abs r)(q := None)) x"
    proof (cases "x = q")
      case True
      then show ?thesis using i by (simp add: ring_abs_def slot_zero_def Let_def)
    next
      case False
      have "ring_abs ?r x = Some (a, b, c) \<longleftrightarrow> ring_abs r x = Some (a, b, c)" for a b c
        using ring_abs_used_slots [OF wf', of ?ss x] ring_abs_used_slots [OF wf slots, of x] us False
        by simp
      then show ?thesis using False by (simp add: fun_upd_def) (metis not_None_eq prod_cases3)
    qed
  qed
  then show ?thesis using wf' b b' c c' by (simp add: rm)
qed

lemma ring_scan_least:
  assumes "k < i + n" and "i \<le> k" and "ring_contains r (e + of_nat k)"
    and "\<And>j. i \<le> j \<Longrightarrow> j < k \<Longrightarrow> \<not> ring_contains r (e + of_nat j)"
  shows "ring_scan r e i n = e + of_nat k"
  using assms
proof (induction n arbitrary: i)
  case (Suc n)
  show ?case
  proof (cases "i = k")
    case True
    then show ?thesis using Suc.prems by (simp add: Let_def)
  next
    case False
    then have "\<not> ring_contains r (e + of_nat i)" using Suc.prems by simp
    moreover have "ring_scan r e (Suc i) n = e + of_nat k"
      using False Suc.prems by (intro Suc.IH) auto
    ultimately show ?thesis by (simp add: Let_def)
  qed
qed simp

lemma ring_lowest_least:
  assumes wf: "ring_wf r e" and ne: "ring_abs r \<noteq> Map.empty"
  shows "ring_abs r (ring_lowest_seq r e) \<noteq> None \<and>
         (\<forall>q. ring_abs r q \<noteq> None \<longrightarrow> ring_lowest_seq r e \<le> q) \<and> e \<le> ring_lowest_seq r e"
proof -
  obtain ss where slots: "rg_slots r = Some ss" using ne by (cases "rg_slots r") auto
  obtain q0 where q0: "ring_abs r q0 \<noteq> None" using ne by (meson ext)
  define P where "P k \<longleftrightarrow> ring_contains r (e + of_nat k)" for k
  have fwd: "e + of_nat (unat q - unat e) = q" if "ring_abs r q \<noteq> None" for q
    using ring_abs_window(1) [OF wf that]
    by (simp add: word_unat_eq_iff unat_word_ariths unat_of_nat mod_simps)
  then have P0: "P (unat q0 - unat e)" using q0 by (simp add: P_def ring_contains_abs)
  define k where "k = (LEAST k. P k)"
  have k: "P k" "\<And>j. j < k \<Longrightarrow> \<not> P j"
    unfolding k_def using P0 by (auto intro: LeastI dest: not_less_Least)
  have kle: "k \<le> unat q - unat e" if "ring_abs r q \<noteq> None" for q
    unfolding k_def using fwd [OF that] that by (intro Least_le) (simp add: P_def ring_contains_abs)
  have ksz: "k < unat (rg_size r)" using kle [OF q0] ring_abs_window(2) [OF wf q0] ring_abs_window(1) [OF wf q0] by linarith
  have low: "ring_lowest_seq r e = e + of_nat k"
    using slots k ksz ring_scan_least [of k 0 "unat (rg_size r)" r e] by (simp add: ring_lowest_seq_def P_def)
  have "unat e + k < 2 ^ 64"
    using kle [OF q0] ring_abs_window(1) [OF wf q0] unsigned_less [of q0, where ?'a = nat] by simp
  then have u: "unat (e + of_nat k) = unat e + k"
    by (simp add: unat_word_ariths unat_of_nat mod_simps)
  have "ring_abs r (ring_lowest_seq r e) \<noteq> None" using k(1) low by (simp add: P_def ring_contains_abs)
  moreover have "ring_lowest_seq r e \<le> q" if "ring_abs r q \<noteq> None" for q
    using kle [OF that] ring_abs_window(1) [OF wf that] by (simp add: low word_le_nat_alt u)
  moreover have "e \<le> ring_lowest_seq r e" by (simp add: low word_le_nat_alt u)
  ultimately show ?thesis by blast
qed


section \<open>The interface of the buffer\<close>

text \<open>
  What the receive engine relies on: a map from sequence numbers to packets, kept at or above
  the window origin, with lookup, removal, the least sequence number, and an origin that may
  advance over an empty stretch.
\<close>

locale seq_buffer =
  fixes inv :: "'r \<Rightarrow> u64 \<Rightarrow> bool"
    and abs :: "'r \<Rightarrow> u64 \<rightharpoonup> 'p"
    and contains :: "'r \<Rightarrow> u64 \<Rightarrow> bool"
    and empty :: "'r \<Rightarrow> bool"
    and remove :: "'r \<Rightarrow> u64 \<Rightarrow> 'p option \<times> 'r"
    and lowest :: "'r \<Rightarrow> u64 \<Rightarrow> u64"
  assumes contains_abs: "contains r q \<longleftrightarrow> abs r q \<noteq> None"
    and empty_abs: "inv r e \<Longrightarrow> empty r \<longleftrightarrow> abs r = Map.empty"
    and window: "inv r e \<Longrightarrow> abs r q \<noteq> None \<Longrightarrow> e \<le> q"
    and remove_result: "inv r e \<Longrightarrow> fst (remove r q) = abs r q"
    and remove_inv: "inv r e \<Longrightarrow> inv (snd (remove r q)) e"
    and remove_abs: "inv r e \<Longrightarrow> abs (snd (remove r q)) = (abs r)(q := None)"
    and lowest_in: "inv r e \<Longrightarrow> abs r \<noteq> Map.empty \<Longrightarrow> abs r (lowest r e) \<noteq> None"
    and lowest_le: "inv r e \<Longrightarrow> abs r q \<noteq> None \<Longrightarrow> lowest r e \<le> q"
    and advance: "inv r e \<Longrightarrow> e \<le> e' \<Longrightarrow> (\<And>q. abs r q \<noteq> None \<Longrightarrow> e' \<le> q) \<Longrightarrow> inv r e'"
begin

text \<open>Stepping the origin over the packet it stands on.\<close>

lemma step_inv:
  assumes "inv r e" and "e \<noteq> - 1"
  shows "inv (snd (remove r e)) (e + 1)"
proof (rule advance [of _ e])
  show "inv (snd (remove r e)) e" using assms(1) by (rule remove_inv)
  show "e \<le> e + 1" using assms(2) by (rule le_inc)
  fix q assume "abs (snd (remove r e)) q \<noteq> None"
  then have "abs r q \<noteq> None" and "q \<noteq> e" using remove_abs [OF assms(1), of e] by (auto split: if_splits)
  then have "e < q" using window [OF assms(1)] by (metis order_le_less)
  then show "e + 1 \<le> q" by (rule inc_le)
qed

text \<open>Skipping the origin to the least sequence number of a non-empty buffer.\<close>

lemma skip_inv:
  assumes "inv r e" and "\<not> empty r"
  shows "inv r (lowest r e)" "contains r (lowest r e)" "e \<le> lowest r e"
proof -
  have ne: "abs r \<noteq> Map.empty" using assms empty_abs by blast
  then have low: "abs r (lowest r e) \<noteq> None" using assms(1) by (intro lowest_in)
  then show "contains r (lowest r e)" by (simp add: contains_abs)
  show "e \<le> lowest r e" using assms(1) low by (rule window)
  then show "inv r (lowest r e)" by (rule advance [OF assms(1)]) (rule lowest_le [OF assms(1)])
qed

end

interpretation rb: seq_buffer ring_wf ring_abs ring_contains ring_empty ring_remove ring_lowest_seq
proof
  fix r e q e'
  show "ring_contains r q \<longleftrightarrow> ring_abs r q \<noteq> None" by (rule ring_contains_abs)
  assume wf: "ring_wf r e"
  show "ring_empty r \<longleftrightarrow> ring_abs r = Map.empty" using wf by (rule ring_empty_abs)
  show "e \<le> q" if "ring_abs r q \<noteq> None"
    using ring_abs_window(1) [OF wf that] by (simp add: word_le_nat_alt)
  have rm: "fst (ring_remove r q) = ring_abs r q \<and> ring_wf (snd (ring_remove r q)) e \<and>
      ring_abs (snd (ring_remove r q)) = (ring_abs r)(q := None)"
  proof (cases "ring_abs r q")
    case None
    then show ?thesis using wf by (simp add: ring_remove_absent fun_upd_idem)
  next
    case (Some v)
    then show ?thesis using ring_remove_present [OF wf] by (cases v) auto
  qed
  show "fst (ring_remove r q) = ring_abs r q" using rm by blast
  show "ring_wf (snd (ring_remove r q)) e" using rm by blast
  show "ring_abs (snd (ring_remove r q)) = (ring_abs r)(q := None)" using rm by blast
  show "ring_abs r (ring_lowest_seq r e) \<noteq> None" if "ring_abs r \<noteq> Map.empty"
    using ring_lowest_least [OF wf that] by blast
  show "ring_lowest_seq r e \<le> q" if "ring_abs r q \<noteq> None"
    using ring_lowest_least [OF wf] that by (metis option.simps(3))
  show "ring_wf r e'" if "e \<le> e'" "\<And>q. ring_abs r q \<noteq> None \<Longrightarrow> e' \<le> q"
    using that by (intro ring_wf_advance [OF wf]) (auto simp: word_le_nat_alt)
qed



text \<open>The packet counter counts the sequence numbers held.\<close>

lemma ring_count_card:
  assumes "ring_wf r e"
  shows "unat (rg_count r) = card {q. ring_contains r q}"
proof (cases "rg_slots r")
  case None
  then show ?thesis using assms by (simp add: ring_wf_def ring_contains_abs)
next
  case (Some ss)
  have "distinct (map rs_seq (filter slot_used ss))"
  proof (rule distinct_map_filter_nth)
    fix i j assume ij: "i < length ss" "j < length ss" "slot_used (ss ! i)" "slot_used (ss ! j)"
      "rs_seq (ss ! i) = rs_seq (ss ! j)"
    show "i = j"
      using ring_wf_usedD(1) [OF assms Some ij(1,3)] unfolding ij(5) ring_wf_usedD(1) [OF assms Some ij(2,4)] ..
  qed
  moreover have "set (map rs_seq (filter slot_used ss)) = {q. ring_contains r q}"
  proof (intro equalityI subsetI)
    fix q assume "q \<in> set (map rs_seq (filter slot_used ss))"
    then obtain s p where s: "s \<in> set ss" "rs_seq s = q" "rs_pkt s = Some p" by (auto simp: slot_used_def)
    then have "ring_abs r q = Some (p, rs_len s, rs_enqueue_us s)"
      by (subst ring_abs_in_slots [OF assms Some]) (cases s; simp)
    then show "q \<in> {q. ring_contains r q}" by (simp add: ring_contains_abs)
  next
    fix q assume "q \<in> {q. ring_contains r q}"
    then obtain p l t where "ring_abs r q = Some (p, l, t)" by (auto simp: ring_contains_abs)
    then have "\<lparr>rs_seq = q, rs_len = l, rs_pkt = Some p, rs_enqueue_us = t\<rparr> \<in> set ss"
      by (simp add: ring_abs_in_slots [OF assms Some])
    then show "q \<in> set (map rs_seq (filter slot_used ss))"
      by (force simp: slot_used_def)
  qed
  ultimately have "length (filter slot_used ss) = card {q. ring_contains r q}"
    by (metis distinct_card length_map)
  then show ?thesis using assms Some by (simp add: ring_wf_def)
qed

lemma ring_abs_below:
  assumes "ring_wf r e" and "q < e"
  shows "ring_abs r q = None"
proof (rule ccontr)
  assume "ring_abs r q \<noteq> None"
  from rb.window [OF assms(1) this] assms(2) show False by simp
qed


section \<open>Properties\<close>

text \<open>
  C9: Inserting into the ring is inserting into the map it stands for. For a sequence number
  inside the window (not below the origin and not far ahead) that the ring does not hold, a
  successful insert adds exactly that packet, whatever growth and rehashing it took, keeps the
  ring well-formed with its counters exact (packet count plus one, byte count plus the length,
  without wrap-around) and its capacity unchanged; and the insert can only fail when the
  allocation does.
\<close>

theorem ring_insert_refines:
  assumes "ring_wf r e" and "e \<le> q" and "\<not> ring_far_ahead r q e" and "\<not> ring_contains r q"
  shows "(case ring_insert calloc_ok r q p l e t of
            None \<Rightarrow> \<not> calloc_ok
          | Some r' \<Rightarrow> ring_wf r' e \<and> ring_abs r' = (ring_abs r)(q \<mapsto> (p, l, t)) \<and>
              unat (rg_count r') = unat (rg_count r) + 1 \<and>
              unat (rg_bytes r') = unat (rg_bytes r) + unat l \<and> rg_cap r' = rg_cap r)"
proof (cases "ring_insert calloc_ok r q p l e t")
  case None
  then show ?thesis using ring_insert_alloc [of r q p l e t] by (cases calloc_ok) auto
next
  case (Some r')
  moreover have "ring_abs r q = None" using assms(4) by (simp only: ring_contains_abs simp_thms)
  ultimately show ?thesis using ring_insert_ok [OF assms(1-3)] by simp
qed

definition ex_ring :: ring where
  "ex_ring = the (ring_insert True (ring_init 8) 13 [1, 2, 3] 3 10 500)"

theorem ring_insert_refines_witness:
  "ring_lowest_seq ex_ring 10 = 13 \<and>
   (case ring_insert True ex_ring 17 [9] 1 10 700 of
      None \<Rightarrow> False
    | Some r' \<Rightarrow> ring_wf r' 10 \<and> ring_abs r' = (ring_abs ex_ring)(17 \<mapsto> ([9], 1, 700)) \<and>
        unat (rg_bytes r') = 4)"
proof -
  have "ring_wf ex_ring 10" "(10 :: u64) \<le> 17" "\<not> ring_far_ahead ex_ring 17 10" "\<not> ring_contains ex_ring 17"
    by code_simp+
  note use = ring_insert_refines [OF this, of True "[9]" 1 700]
  moreover have "ring_lowest_seq ex_ring 10 = 13" "unat (rg_bytes ex_ring) = 3" by code_simp+
  ultimately show ?thesis by (auto split: option.splits)
qed

text \<open>
  C10: Reading the ring is reading the map it stands for. Membership is membership, removal
  returns the stored packet, length and admit time (or nothing) and removes exactly that
  sequence number, the empty test holds exactly when no packet is held, every held sequence
  number lies in the window of one capacity from the origin, and the bounded scan for the lowest
  sequence number of a non-empty ring finds the least one held.
\<close>

theorem ring_read_refines:
  assumes "ring_wf r e"
  shows "ring_contains r q = (ring_abs r q \<noteq> None) \<and>
         ring_empty r = (ring_abs r = Map.empty) \<and>
         fst (ring_remove r q) = ring_abs r q \<and>
         ring_abs (snd (ring_remove r q)) = (ring_abs r)(q := None) \<and>
         ring_wf (snd (ring_remove r q)) e \<and>
         (ring_contains r q \<longrightarrow> e \<le> q \<and> \<not> ring_far_ahead r q e \<and>
            ring_lowest_seq r e \<le> q \<and> ring_contains r (ring_lowest_seq r e))"
proof -
  have "\<not> ring_far_ahead r q e" "ring_lowest_seq r e \<le> q" "ring_contains r (ring_lowest_seq r e)" "e \<le> q"
    if "ring_contains r q"
  proof -
    have q: "ring_abs r q \<noteq> None" using that by (simp add: ring_contains_abs)
    then show le: "e \<le> q" using assms by (intro rb.window)
    show "\<not> ring_far_ahead r q e"
      using ring_abs_window(2,3) [OF assms q] by (simp add: ring_far_ahead_iff [OF le] word_le_nat_alt)
    show "ring_lowest_seq r e \<le> q" using assms q by (rule rb.lowest_le)
    have "ring_abs r \<noteq> Map.empty" using q by auto
    then show "ring_contains r (ring_lowest_seq r e)"
      unfolding ring_contains_abs by (rule rb.lowest_in [OF assms])
  qed
  then show ?thesis
    using assms by (simp add: ring_contains_abs rb.empty_abs rb.remove_result rb.remove_abs rb.remove_inv)
qed

theorem ring_read_refines_witness:
  "ring_wf ex_ring 10 \<and> ring_contains ex_ring 13 \<and> fst (ring_remove ex_ring 13) = Some ([1, 2, 3], 3, 500) \<and>
   ring_abs (snd (ring_remove ex_ring 13)) = (ring_abs ex_ring)(13 := None)"
proof -
  have wf: "ring_wf ex_ring 10" by code_simp
  moreover have "fst (ring_remove ex_ring 13) = Some ([1, 2, 3], 3, 500)" "ring_contains ex_ring 13"
    by code_simp+
  ultimately show ?thesis using ring_read_refines [OF wf, of 13] by blast
qed

end
