(* ===== verification/Flow_Table.thy ===== *)
theory Flow_Table
  imports Wire
begin

text \<open>
  The 5-tuple-keyed hash table with chaining that the receive and the transmit engine each keep
  (\<^verbatim>\<open>src/reorder_rx.c\<close>, \<^verbatim>\<open>src/reorder_tx.c\<close>): a list of chains, a chain being the list of its
  flows from the head on. \<open>key\<close> reads a flow's key and \<open>idx\<close> is the chain of a key.
\<close>

definition chain_lookup :: "('f \<Rightarrow> mqvpn_flow_key) \<Rightarrow> 'f list \<Rightarrow> mqvpn_flow_key \<Rightarrow> 'f option" where
  "chain_lookup key chain k = List.find (\<lambda>f. mqvpn_flow_key_eq (key f) k) chain"

text \<open>The chain with the flow of \<open>f\<close>'s key replaced by \<open>f\<close>, and without the flow of key \<open>k\<close>.\<close>

definition chain_put :: "('f \<Rightarrow> mqvpn_flow_key) \<Rightarrow> 'f \<Rightarrow> 'f list \<Rightarrow> 'f list" where
  "chain_put key f chain = map (\<lambda>g. if mqvpn_flow_key_eq (key g) (key f) then f else g) chain"

definition chain_unlink :: "('f \<Rightarrow> mqvpn_flow_key) \<Rightarrow> mqvpn_flow_key \<Rightarrow> 'f list \<Rightarrow> 'f list" where
  "chain_unlink key k chain = filter (\<lambda>g. \<not> mqvpn_flow_key_eq (key g) k) chain"

definition table_wf :: "('f \<Rightarrow> mqvpn_flow_key) \<Rightarrow> (mqvpn_flow_key \<Rightarrow> nat) \<Rightarrow> nat \<Rightarrow> 'f list list \<Rightarrow> bool" where
  "table_wf key idx n b \<longleftrightarrow>
     length b = n \<and>
     (\<forall>i < n. distinct (map key (b ! i)) \<and> list_all (\<lambda>f. idx (key f) = i) (b ! i))"

text \<open>The table after an operation on the chain of key \<open>k\<close>.\<close>

definition table_map :: "(mqvpn_flow_key \<Rightarrow> nat) \<Rightarrow> mqvpn_flow_key \<Rightarrow> ('f list \<Rightarrow> 'f list) \<Rightarrow> 'f list list \<Rightarrow> 'f list list" where
  "table_map idx k g b = b[idx k := g (b ! idx k)]"

lemma chain_lookup_Some:
  assumes "chain_lookup key c k = Some f"
  shows "f \<in> set c" "key f = k"
  using assms by (auto simp: chain_lookup_def find_Some_iff in_set_conv_nth)

lemma chain_lookup_None: "chain_lookup key c k = None \<longleftrightarrow> k \<notin> key ` set c"
  by (auto simp: chain_lookup_def find_None_iff)

lemma chain_lookup_distinct:
  "distinct (map key c) \<Longrightarrow> f \<in> set c \<Longrightarrow> chain_lookup key c (key f) = Some f"
  by (induction c) (auto simp: chain_lookup_def)

lemma map_key_chain_put [simp]: "map key (chain_put key f c) = map key c"
  by (simp add: chain_put_def)

lemma set_chain_put: "distinct (map key c) \<Longrightarrow> set (chain_put key f c) \<subseteq> insert f {g \<in> set c. key g \<noteq> key f}"
  by (auto simp: chain_put_def)

lemma sum_chain_put:
  fixes v :: "'f \<Rightarrow> nat"
  assumes "distinct (map key c)" and "g \<in> set c" and "key g = key f"
  shows "sum_list (map v (chain_put key f c)) + v g = sum_list (map v c) + v f"
  using assms
proof (induction c)
  case (Cons h c)
  show ?case
  proof (cases "key h = key f")
    case True
    then have "h = g" using Cons.prems by (auto simp: image_iff)
    moreover have "chain_put key f c = c"
      unfolding chain_put_def using True Cons.prems(1) by (intro map_idI) (auto simp: image_iff)
    ultimately show ?thesis using True by (simp add: chain_put_def)
  next
    case False
    with Cons show ?thesis by (auto simp: chain_put_def)
  qed
qed simp

lemma sum_chain_unlink:
  fixes v :: "'f \<Rightarrow> nat"
  assumes "distinct (map key c)" and "g \<in> set c"
  shows "sum_list (map v (chain_unlink key (key g) c)) + v g = sum_list (map v c)"
  using assms
proof (induction c)
  case (Cons h c)
  show ?case
  proof (cases "key h = key g")
    case True
    then have "h = g" using Cons.prems by (auto simp: image_iff)
    moreover have "chain_unlink key (key g) c = c"
      unfolding chain_unlink_def using True Cons.prems(1) by (intro filter_True) (auto simp: image_iff)
    ultimately show ?thesis by (simp add: chain_unlink_def)
  next
    case False
    with Cons show ?thesis by (auto simp: chain_unlink_def)
  qed
qed simp

lemma chain_lookup_push: "chain_lookup key (f # c) k = (if k = key f then Some f else chain_lookup key c k)"
  by (auto simp: chain_lookup_def)

lemma chain_lookup_put:
  "chain_lookup key (chain_put key f c) k =
     (if k = key f then (if k \<in> key ` set c then Some f else None) else chain_lookup key c k)"
  by (induction c) (auto simp: chain_lookup_def chain_put_def)

lemma chain_lookup_unlink:
  "chain_lookup key (chain_unlink key k c) k' = (if k' = k then None else chain_lookup key c k')"
  by (induction c) (auto simp: chain_lookup_def chain_unlink_def)

lemma concat_memberE:
  assumes "f \<in> set (concat b)"
  obtains i where "i < length b" and "f \<in> set (b ! i)"
proof -
  obtain c where "c \<in> set b" "f \<in> set c" using assms by auto
  then show ?thesis using that by (metis in_set_conv_nth)
qed

lemma sum_concat_update:
  fixes v :: "'f \<Rightarrow> nat"
  assumes "i < length b"
  shows "sum_list (map v (concat (b[i := c]))) + sum_list (map v (b ! i)) =
         sum_list (map v (concat b)) + sum_list (map v c)"
  using assms
proof (induction b arbitrary: i)
  case (Cons x b)
  then show ?case by (cases i) auto
qed simp


section \<open>The interface of the table\<close>

locale flow_table =
  fixes key :: "'f \<Rightarrow> mqvpn_flow_key" and idx :: "mqvpn_flow_key \<Rightarrow> nat" and n :: nat
  assumes idx_less: "idx k < n"
begin

lemma wf_chain:
  assumes "table_wf key idx n b"
  shows "distinct (map key (b ! idx k))"
  using assms idx_less by (auto simp: table_wf_def)

lemma wf_member_chain:
  assumes "table_wf key idx n b" and "f \<in> set (concat b)"
  shows "f \<in> set (b ! idx (key f))"
proof -
  obtain i where "i < length b" "f \<in> set (b ! i)" using assms(2) by (rule concat_memberE)
  moreover then have "idx (key f) = i" using assms(1) by (auto simp: table_wf_def list_all_iff)
  ultimately show ?thesis by simp
qed

lemma lookup_complete:
  "table_wf key idx n b \<Longrightarrow> f \<in> set (concat b) \<Longrightarrow> chain_lookup key (b ! idx (key f)) (key f) = Some f"
  by (intro chain_lookup_distinct wf_chain wf_member_chain)

lemma lookup_member:
  assumes "table_wf key idx n b" and "chain_lookup key (b ! idx k) k = Some f"
  shows "f \<in> set (concat b)" "key f = k"
proof -
  have "idx k < length b" using assms(1) idx_less by (simp add: table_wf_def)
  then show "f \<in> set (concat b)" using chain_lookup_Some(1) [OF assms(2)] by (auto intro: nth_mem)
  show "key f = k" using assms(2) by (rule chain_lookup_Some)
qed

lemma wf_update:
  assumes "table_wf key idx n b" and "distinct (map key c)" and "\<And>f. f \<in> set c \<Longrightarrow> idx (key f) = i"
  shows "table_wf key idx n (b[i := c])"
  using assms unfolding table_wf_def list_all_iff by (cases "i < length b") (auto simp: nth_list_update)

lemma wf_idx: "table_wf key idx n b \<Longrightarrow> f \<in> set (b ! idx k) \<Longrightarrow> idx (key f) = idx k"
  using idx_less [of k] by (auto simp: table_wf_def list_all_iff)

lemma wf_put:
  assumes "table_wf key idx n b"
  shows "table_wf key idx n (table_map idx (key f) (chain_put key f) b)"
  unfolding table_map_def
proof (rule wf_update [OF assms])
  show "distinct (map key (chain_put key f (b ! idx (key f))))" using wf_chain [OF assms] by simp
  show "idx (key g) = idx (key f)" if "g \<in> set (chain_put key f (b ! idx (key f)))" for g
    using that wf_idx [OF assms] by (auto simp: chain_put_def)
qed

lemma wf_push:
  assumes "table_wf key idx n b" and "chain_lookup key (b ! idx (key f)) (key f) = None"
  shows "table_wf key idx n (table_map idx (key f) ((#) f) b)"
  unfolding table_map_def
proof (rule wf_update [OF assms(1)])
  show "distinct (map key (f # b ! idx (key f)))"
    using wf_chain [OF assms(1)] assms(2) by (auto simp: chain_lookup_None)
  show "idx (key g) = idx (key f)" if "g \<in> set (f # b ! idx (key f))" for g
    using that wf_idx [OF assms(1)] by auto
qed

lemma wf_unlink:
  assumes "table_wf key idx n b"
  shows "table_wf key idx n (table_map idx k (chain_unlink key k) b)"
  unfolding table_map_def
proof (rule wf_update [OF assms])
  show "distinct (map key (chain_unlink key k (b ! idx k)))"
    using wf_chain [OF assms] by (simp add: chain_unlink_def distinct_map_filter)
  show "idx (key g) = idx k" if "g \<in> set (chain_unlink key k (b ! idx k))" for g
    using that wf_idx [OF assms] by (auto simp: chain_unlink_def)
qed

lemma set_update_concat:
  assumes "idx k < length b"
  shows "set (concat (b[idx k := c])) \<subseteq> set c \<union> set (concat b)"
  using set_update_subset_insert [of b "idx k" c] by auto

lemma set_put:
  assumes "table_wf key idx n b"
  shows "set (concat (table_map idx (key f) (chain_put key f) b)) \<subseteq>
         insert f {g \<in> set (concat b). key g \<noteq> key f}"
proof
  fix g assume "g \<in> set (concat (table_map idx (key f) (chain_put key f) b))"
  then obtain i where i: "i < length b" "g \<in> set (table_map idx (key f) (chain_put key f) b ! i)"
    by (rule concat_memberE) (simp add: table_map_def)
  show "g \<in> insert f {g \<in> set (concat b). key g \<noteq> key f}"
  proof (cases "i = idx (key f)")
    case True
    then have "g \<in> set (chain_put key f (b ! i))" using i by (simp add: table_map_def)
    then show ?thesis using i(1) nth_mem [OF i(1)] by (auto simp: chain_put_def)
  next
    case False
    then have "g \<in> set (b ! i)" using i by (simp add: table_map_def)
    moreover from this have "idx (key g) = i"
      using assms i(1) by (auto simp: table_wf_def list_all_iff)
    ultimately show ?thesis using i(1) False nth_mem [OF i(1)] by auto
  qed
qed

lemma sum_put:
  fixes v :: "'f \<Rightarrow> nat"
  assumes "table_wf key idx n b" and "g \<in> set (concat b)" and "key g = key f"
  shows "sum_list (map v (concat (table_map idx (key f) (chain_put key f) b))) + v g =
         sum_list (map v (concat b)) + v f"
proof -
  have "idx (key f) < length b" using assms(1) idx_less by (simp add: table_wf_def)
  then show ?thesis
    using sum_concat_update [of "idx (key f)" b v "chain_put key f (b ! idx (key f))"]
      sum_chain_put [OF wf_chain [OF assms(1), of "key f"], of g f v]
      wf_member_chain [OF assms(1,2)] assms(3)
    by (simp add: table_map_def)
qed

lemma sum_push:
  fixes v :: "'f \<Rightarrow> nat"
  assumes "table_wf key idx n b"
  shows "sum_list (map v (concat (table_map idx (key f) ((#) f) b))) = v f + sum_list (map v (concat b))"
proof -
  have "idx (key f) < length b" using assms(1) idx_less by (simp add: table_wf_def)
  then show ?thesis
    using sum_concat_update [of "idx (key f)" b v "f # b ! idx (key f)"] by (simp add: table_map_def)
qed

lemma sum_unlink:
  fixes v :: "'f \<Rightarrow> nat"
  assumes "table_wf key idx n b" and "g \<in> set (concat b)"
  shows "sum_list (map v (concat (table_map idx (key g) (chain_unlink key (key g)) b))) + v g =
         sum_list (map v (concat b))"
proof -
  have "idx (key g) < length b" using assms(1) idx_less by (simp add: table_wf_def)
  then show ?thesis
    using sum_concat_update [of "idx (key g)" b v "chain_unlink key (key g) (b ! idx (key g))"]
      sum_chain_unlink [OF wf_chain [OF assms(1), of "key g"] wf_member_chain [OF assms], of v]
    by (simp add: table_map_def)
qed

lemma set_push: "set (concat (table_map idx (key f) ((#) f) b)) \<subseteq> insert f (set (concat b))"
proof (cases "idx (key f) < length b")
  case True
  then show ?thesis
    using set_update_concat [OF True, of "f # b ! idx (key f)"] nth_mem [OF True]
    by (auto simp: table_map_def)
next
  case False
  then show ?thesis by (auto simp: table_map_def list_update_beyond not_less)
qed

lemma set_unlink: "set (concat (table_map idx k (chain_unlink key k) b)) \<subseteq> set (concat b)"
proof (cases "idx k < length b")
  case True
  then have "set (chain_unlink key k (b ! idx k)) \<subseteq> set (concat b)"
    using True by (force simp: chain_unlink_def intro: nth_mem)
  then show ?thesis
    using set_update_concat [OF True, of "chain_unlink key k (b ! idx k)"] unfolding table_map_def by blast
next
  case False
  then show ?thesis by (auto simp: table_map_def list_update_beyond not_less)
qed

lemma unlink_keeps:
  assumes "table_wf key idx n b" and "g \<in> set (concat b)" and "key g \<noteq> k"
  shows "g \<in> set (concat (table_map idx k (chain_unlink key k) b))"
proof -
  let ?i = "idx (key g)" and ?b = "table_map idx k (chain_unlink key k) b"
  have m: "g \<in> set (b ! ?i)" using assms(1,2) by (rule wf_member_chain)
  have i: "?i < length b" using assms(1) idx_less by (simp add: table_wf_def)
  have "g \<in> set (?b ! ?i)"
    using m i assms(3) by (cases "?i = idx k") (auto simp: table_map_def chain_unlink_def)
  moreover have "?b ! ?i \<in> set ?b" using i by (intro nth_mem) (simp add: table_map_def)
  ultimately show ?thesis by auto
qed

lemma key_inj:
  assumes "table_wf key idx n b" and "f \<in> set (concat b)" and "g \<in> set (concat b)" and "key f = key g"
  shows "f = g"
proof -
  have "Some f = chain_lookup key (b ! idx (key f)) (key f)" by (rule lookup_complete [OF assms(1,2), symmetric])
  also have "\<dots> = chain_lookup key (b ! idx (key g)) (key g)" unfolding assms(4) ..
  also have "\<dots> = Some g" by (rule lookup_complete [OF assms(1,3)])
  finally show ?thesis by (rule option.inject [THEN iffD1])
qed

text \<open>The table as a finite map: lookup after each of the three changes.\<close>

lemma nth_table_map:
  assumes "table_wf key idx n b"
  shows "table_map idx k g b ! idx k' = (if idx k' = idx k then g (b ! idx k) else b ! idx k')"
  using assms idx_less [of k] by (auto simp: table_map_def table_wf_def nth_list_update)

lemma lookup_put:
  assumes "table_wf key idx n b" and "chain_lookup key (b ! idx (key f)) (key f) = Some g"
  shows "chain_lookup key (table_map idx (key f) (chain_put key f) b ! idx k) k =
    (if k = key f then Some f else chain_lookup key (b ! idx k) k)"
proof -
  have "key f \<in> key ` set (b ! idx (key f))"
    using assms(2) chain_lookup_None [of key "b ! idx (key f)" "key f"] by (metis option.distinct(1))
  then show ?thesis by (auto simp: nth_table_map [OF assms(1)] chain_lookup_put)
qed

lemma lookup_push:
  assumes "table_wf key idx n b"
  shows "chain_lookup key (table_map idx (key f) ((#) f) b ! idx k) k =
    (if k = key f then Some f else chain_lookup key (b ! idx k) k)"
  by (auto simp: nth_table_map [OF assms] chain_lookup_push)

lemma lookup_unlink:
  assumes "table_wf key idx n b"
  shows "chain_lookup key (table_map idx k (chain_unlink key k) b ! idx k') k' =
    (if k' = k then None else chain_lookup key (b ! idx k') k')"
  by (auto simp: nth_table_map [OF assms] chain_lookup_unlink)

end

end
