(* ===== verification/Reorder_Rx.thy ===== *)
theory Reorder_Rx
  imports Ring Flow_Table
begin

text \<open>
  The receive engine of the reorder shim (\<^verbatim>\<open>src/reorder_rx.c\<close>): per-flow state, the gap timer
  and its periods, in-order delivery, limits and overflow, FLOW_RESET, ACK-direction demotion,
  the flow table with LRU and idle eviction, and the periodic tick.

  The engine is the record \<open>mqvpn_reorder_rx\<close>; the calls of the deliver callback are the list
  \<open>rx_delivered\<close>, in call order. A flow operation takes the engine and the flow it works on (in C a
  pointer into the table) and returns both; \<open>mqvpn_reorder_rx_on_packet\<close> takes the flow from
  the table and puts it back. The outcomes of the three allocations one packet can make are the
  record \<open>rx_alloc\<close>.
\<close>


section \<open>State\<close>

definition reorder_lat_bound_us :: "u64 list" where
  "reorder_lat_bound_us =
     [0, 1000, 2000, 4000, 8000, 16000, 32000, 64000, 128000, 256000, 512000, - 1]"

record mqvpn_reorder_flow =
  rf_key :: mqvpn_flow_key
  rf_expected :: u64
  rf_initialized :: bool
  rf_buffer :: ring
  rf_gap_timer_active :: bool
  rf_gap_deadline_us :: u64
  rf_gap_armed_us :: u64
  rf_wait_ms :: u32
  rf_rx_next :: u64
  rf_reord :: u64
  rf_last_seen_us :: u64
  rf_last_progress_us :: u64
  rf_pass_through :: bool
  rf_classify_seen :: u16
  rf_classify_large :: u16
  rf_stats :: mqvpn_reorder_stats

datatype reorder_process_result =
  REORDER_DELIVERED | REORDER_BUFFERED | REORDER_DROPPED_LATE | REORDER_DROPPED_FAR_AHEAD
| REORDER_DROPPED_LIMIT

record mqvpn_reorder_rx =
  rx_cfg :: mqvpn_reorder_config
  rx_hash_seed :: u64
  rx_delivered :: "u8 list list"
  rx_buckets :: "mqvpn_reorder_flow list list"
  rx_n_buckets :: u32
  rx_n_flows :: u32
  rx_next_gap_us :: u64
  rx_next_idle_us :: u64
  rx_pool_bytes_used :: u64
  rx_evicted_stats :: mqvpn_reorder_stats

record rx_alloc =
  al_flow :: bool
  al_copy :: bool
  al_slots :: bool

definition stats_zero :: mqvpn_reorder_stats where
  "stats_zero =
     \<lparr>st_delivered_count = 0, st_too_late_drop_count = 0, st_too_far_ahead_drop_count = 0,
      st_duplicate_drop_count = 0, st_per_flow_limit_drop_count = 0, st_pool_drop_count = 0,
      st_reset_discard_count = 0, st_gap_count = 0, st_gap_filled_count = 0,
      st_gap_timeout_count = 0, st_gap_overflow_count = 0, st_gap_demote_count = 0,
      st_gap_reset_count = 0, st_ack_demote_count = 0,
      st_residence_bucket = replicate MQVPN_REORDER_LAT_BUCKETS 0, st_residence_max_us = 0\<rparr>"

definition mqvpn_reorder_stats_accumulate ::
  "mqvpn_reorder_stats \<Rightarrow> mqvpn_reorder_stats \<Rightarrow> mqvpn_reorder_stats" where
  "mqvpn_reorder_stats_accumulate dst src =
     \<lparr>st_delivered_count = st_delivered_count dst + st_delivered_count src,
      st_too_late_drop_count = st_too_late_drop_count dst + st_too_late_drop_count src,
      st_too_far_ahead_drop_count = st_too_far_ahead_drop_count dst + st_too_far_ahead_drop_count src,
      st_duplicate_drop_count = st_duplicate_drop_count dst + st_duplicate_drop_count src,
      st_per_flow_limit_drop_count = st_per_flow_limit_drop_count dst + st_per_flow_limit_drop_count src,
      st_pool_drop_count = st_pool_drop_count dst + st_pool_drop_count src,
      st_reset_discard_count = st_reset_discard_count dst + st_reset_discard_count src,
      st_gap_count = st_gap_count dst + st_gap_count src,
      st_gap_filled_count = st_gap_filled_count dst + st_gap_filled_count src,
      st_gap_timeout_count = st_gap_timeout_count dst + st_gap_timeout_count src,
      st_gap_overflow_count = st_gap_overflow_count dst + st_gap_overflow_count src,
      st_gap_demote_count = st_gap_demote_count dst + st_gap_demote_count src,
      st_gap_reset_count = st_gap_reset_count dst + st_gap_reset_count src,
      st_ack_demote_count = st_ack_demote_count dst + st_ack_demote_count src,
      st_residence_bucket = map2 (+) (st_residence_bucket dst) (st_residence_bucket src),
      st_residence_max_us =
        (if st_residence_max_us src > st_residence_max_us dst then st_residence_max_us src
         else st_residence_max_us dst)\<rparr>"


section \<open>Gap timer\<close>

definition arm_gap_timer ::
  "mqvpn_reorder_rx \<Rightarrow> mqvpn_reorder_flow \<Rightarrow> u64 \<Rightarrow> u32 \<Rightarrow> mqvpn_reorder_rx \<times> mqvpn_reorder_flow" where
  "arm_gap_timer rx f now_us wait_ms =
     (let deadline = now_us + ucast wait_ms * 1000
      in (if deadline < rx_next_gap_us rx then rx\<lparr>rx_next_gap_us := deadline\<rparr> else rx,
          f\<lparr>rf_gap_timer_active := True, rf_gap_armed_us := now_us, rf_gap_deadline_us := deadline\<rparr>))"

definition stop_gap_timer :: "mqvpn_reorder_flow \<Rightarrow> mqvpn_reorder_flow" where
  "stop_gap_timer f = f\<lparr>rf_gap_timer_active := False\<rparr>"

text \<open>\<open>bump\<close> increments the counter the C code points to.\<close>

definition period_end_if_done ::
  "mqvpn_reorder_flow \<Rightarrow> (mqvpn_reorder_stats \<Rightarrow> mqvpn_reorder_stats) \<Rightarrow> mqvpn_reorder_flow" where
  "period_end_if_done f bump =
     (if rf_gap_timer_active f \<and> (ring_empty (rf_buffer f) \<or> rf_expected f \<ge> rf_reord f)
      then stop_gap_timer (f\<lparr>rf_stats := bump (rf_stats f)\<rparr>) else f)"

abbreviation bump_gap_filled :: "mqvpn_reorder_stats \<Rightarrow> mqvpn_reorder_stats" where
  "bump_gap_filled \<equiv> st_gap_filled_count_update (\<lambda>n. n + 1)"

abbreviation bump_gap_overflow :: "mqvpn_reorder_stats \<Rightarrow> mqvpn_reorder_stats" where
  "bump_gap_overflow \<equiv> st_gap_overflow_count_update (\<lambda>n. n + 1)"

definition period_start_if_needed ::
  "mqvpn_reorder_rx \<Rightarrow> mqvpn_reorder_flow \<Rightarrow> u64 \<Rightarrow> mqvpn_reorder_rx \<times> mqvpn_reorder_flow" where
  "period_start_if_needed rx f now_us =
     (if \<not> rf_gap_timer_active f \<and> \<not> ring_empty (rf_buffer f)
      then (let (rx, f) = arm_gap_timer rx (f\<lparr>rf_reord := rf_rx_next f\<rparr>) now_us (rf_wait_ms f)
            in (rx, f\<lparr>rf_stats := st_gap_count_update (\<lambda>n. n + 1) (rf_stats f)\<rparr>))
      else (rx, f))"


section \<open>Delivery\<close>

fun lat_bucket :: "u64 \<Rightarrow> nat \<Rightarrow> u64 list \<Rightarrow> nat" where
  "lat_bucket residence_us i [] = i"
| "lat_bucket residence_us i (bound # bounds) =
     (if i < MQVPN_REORDER_LAT_BUCKETS - 1 \<and> residence_us > bound
      then lat_bucket residence_us (Suc i) bounds else i)"

definition record_residence :: "mqvpn_reorder_flow \<Rightarrow> u64 \<Rightarrow> u64 \<Rightarrow> mqvpn_reorder_flow" where
  "record_residence f now_us enq_us =
     (let residence_us = (if now_us > enq_us then now_us - enq_us else 0);
          i = lat_bucket residence_us 0 reorder_lat_bound_us;
          st = rf_stats f
      in f\<lparr>rf_stats := st\<lparr>st_residence_bucket := (st_residence_bucket st)[i := st_residence_bucket st ! i + 1],
             st_residence_max_us := (if residence_us > st_residence_max_us st then residence_us
                                     else st_residence_max_us st)\<rparr>\<rparr>)"

definition deliver_pkt ::
  "mqvpn_reorder_rx \<Rightarrow> u8 list \<Rightarrow> mqvpn_reorder_flow \<Rightarrow> u64 \<Rightarrow> u64 \<Rightarrow>
   mqvpn_reorder_rx \<times> mqvpn_reorder_flow" where
  "deliver_pkt rx pkt f now_us enq_us =
     (rx\<lparr>rx_delivered := rx_delivered rx @ [pkt]\<rparr>,
      record_residence (f\<lparr>rf_stats := st_delivered_count_update (\<lambda>n. n + 1) (rf_stats f)\<rparr>) now_us enq_us)"

definition pool_release :: "mqvpn_reorder_rx \<Rightarrow> u16 \<Rightarrow> mqvpn_reorder_rx" where
  "pool_release rx len =
     (if rx_pool_bytes_used rx \<ge> ucast len
      then rx\<lparr>rx_pool_bytes_used := rx_pool_bytes_used rx - ucast len\<rparr>
      else rx\<lparr>rx_pool_bytes_used := 0\<rparr>)"

text \<open>The bytes of every occupied slot leave the pool, in slot order.\<close>

definition release_slots :: "mqvpn_reorder_rx \<Rightarrow> ring \<Rightarrow> mqvpn_reorder_rx" where
  "release_slots rx r =
     (case rg_slots r of None \<Rightarrow> rx
      | Some ss \<Rightarrow> fold (\<lambda>s rx. if rs_pkt s \<noteq> None then pool_release rx (rs_len s) else rx) ss rx)"

definition flow_destroy :: "mqvpn_reorder_rx \<Rightarrow> mqvpn_reorder_flow \<Rightarrow> mqvpn_reorder_rx" where
  "flow_destroy rx f =
     release_slots
       (rx\<lparr>rx_evicted_stats := mqvpn_reorder_stats_accumulate (rx_evicted_stats rx) (rf_stats f)\<rparr>)
       (rf_buffer f)"

text \<open>
  The drain loop with a bound on its iterations. The loop removes a packet in every iteration,
  so the number of buffered packets is bound enough (\<open>drain_contiguous_done\<close>).
\<close>

fun drain_loop ::
  "nat \<Rightarrow> mqvpn_reorder_rx \<Rightarrow> mqvpn_reorder_flow \<Rightarrow> u64 \<Rightarrow> mqvpn_reorder_rx \<times> mqvpn_reorder_flow" where
  "drain_loop 0 rx f now_us = (rx, f)"
| "drain_loop (Suc n) rx f now_us =
     (case ring_remove (rf_buffer f) (rf_expected f) of
        (None, r) \<Rightarrow> (rx, f)
      | (Some (pkt, len, enq), r) \<Rightarrow>
          (let (rx, f) = deliver_pkt rx pkt (f\<lparr>rf_buffer := r\<rparr>) now_us enq;
               rx = pool_release rx len
           in drain_loop n rx (f\<lparr>rf_expected := rf_expected f + 1\<rparr>) now_us))"

definition drain_contiguous ::
  "mqvpn_reorder_rx \<Rightarrow> mqvpn_reorder_flow \<Rightarrow> u64 \<Rightarrow> mqvpn_reorder_rx \<times> mqvpn_reorder_flow" where
  "drain_contiguous rx f now_us = drain_loop (unat (rg_count (rf_buffer f))) rx f now_us"


section \<open>Timeout and overflow\<close>

definition skip_to_lowest_and_drain ::
  "mqvpn_reorder_rx \<Rightarrow> mqvpn_reorder_flow \<Rightarrow> u64 \<Rightarrow> mqvpn_reorder_rx \<times> mqvpn_reorder_flow" where
  "skip_to_lowest_and_drain rx f now_us =
     (let lowest = ring_lowest_seq (rf_buffer f) (rf_expected f);
          f = (if lowest > rf_expected f then f\<lparr>rf_expected := lowest\<rparr> else f);
          (rx, f) = drain_contiguous rx f now_us
      in (rx, f\<lparr>rf_last_progress_us := now_us\<rparr>))"

text \<open>
  The loops of the timeout (up to the mark) and of the demote flush (no mark). Every iteration
  delivers at least the lowest buffered packet, so the number of buffered packets bounds them.
\<close>

fun timeout_loop ::
  "nat \<Rightarrow> mqvpn_reorder_rx \<Rightarrow> mqvpn_reorder_flow \<Rightarrow> u64 \<Rightarrow> mqvpn_reorder_rx \<times> mqvpn_reorder_flow" where
  "timeout_loop 0 rx f now_us = (rx, f)"
| "timeout_loop (Suc n) rx f now_us =
     (if \<not> ring_empty (rf_buffer f) \<and> rf_expected f < rf_reord f
      then (let f = f\<lparr>rf_expected := ring_lowest_seq (rf_buffer f) (rf_expected f)\<rparr>;
                (rx, f) = drain_contiguous rx f now_us
            in timeout_loop n rx f now_us)
      else (rx, f))"

definition on_gap_timeout ::
  "mqvpn_reorder_rx \<Rightarrow> mqvpn_reorder_flow \<Rightarrow> u64 \<Rightarrow> mqvpn_reorder_rx \<times> mqvpn_reorder_flow" where
  "on_gap_timeout rx f now_us =
     (if ring_empty (rf_buffer f) then (rx, stop_gap_timer f)
      else (let f = f\<lparr>rf_stats := st_gap_timeout_count_update (\<lambda>n. n + 1) (rf_stats f)\<rparr>;
                (rx, f) = timeout_loop (unat (rg_count (rf_buffer f))) rx f now_us;
                f = f\<lparr>rf_last_progress_us := now_us\<rparr>
            in period_start_if_needed rx (stop_gap_timer f) now_us))"

definition overflow_flush ::
  "mqvpn_reorder_rx \<Rightarrow> mqvpn_reorder_flow \<Rightarrow> u64 \<Rightarrow> mqvpn_reorder_rx \<times> mqvpn_reorder_flow" where
  "overflow_flush rx f now_us =
     (let (rx, f) = skip_to_lowest_and_drain rx f now_us
      in period_start_if_needed rx (period_end_if_done f bump_gap_overflow) now_us)"


section \<open>Reset\<close>

definition discard_buffer_for_reset ::
  "mqvpn_reorder_rx \<Rightarrow> mqvpn_reorder_flow \<Rightarrow> mqvpn_reorder_rx \<times> mqvpn_reorder_flow" where
  "discard_buffer_for_reset rx f =
     (let f = (if rf_gap_timer_active f
               then f\<lparr>rf_stats := st_gap_reset_count_update (\<lambda>n. n + 1) (rf_stats f)\<rparr> else f);
          discarded = (case rg_slots (rf_buffer f) of None \<Rightarrow> 0
                       | Some ss \<Rightarrow> length (filter (\<lambda>s. rs_pkt s \<noteq> None) ss));
          f = f\<lparr>rf_stats := st_reset_discard_count_update (\<lambda>n. n + of_nat discarded) (rf_stats f)\<rparr>
      in (release_slots rx (rf_buffer f),
          (stop_gap_timer f)\<lparr>rf_rx_next := 0, rf_reord := 0, rf_buffer := ring_free (rf_buffer f)\<rparr>))"

definition reset_reorder_flow ::
  "mqvpn_reorder_rx \<Rightarrow> mqvpn_reorder_flow \<Rightarrow> mqvpn_reorder_rx \<times> mqvpn_reorder_flow" where
  "reset_reorder_flow rx f =
     (let (rx, f) = discard_buffer_for_reset rx f
      in (rx, f\<lparr>rf_pass_through := False, rf_classify_seen := 0, rf_classify_large := 0\<rparr>))"


section \<open>Demotion\<close>

datatype classify_result = CLASSIFY_UNCHANGED | CLASSIFY_DEMOTED

definition inner_udp_payload_len :: "u8 list \<Rightarrow> u16 \<Rightarrow> u32" where
  "inner_udp_payload_len pkt len =
     (if len < 1 then 0
      else case rd pkt 0 of None \<Rightarrow> 0
      | Some b0 \<Rightarrow>
        (let version = drop_bit 4 b0
         in if version = 4 \<and> len < 20 then 0
            else if version = 4 \<or> version = 6
            then (let hdr = (if version = 4 then unat (b0 AND 0x0f) * 4 else 40);
                      l4 = hdr + 8
                  in if unat len \<le> l4 then 0 else of_nat (unat len - l4))
            else 0))"

definition classify_update ::
  "mqvpn_reorder_rx \<Rightarrow> mqvpn_reorder_flow \<Rightarrow> u8 list \<Rightarrow> u16 \<Rightarrow> classify_result \<times> mqvpn_reorder_flow" where
  "classify_update rx f pkt len =
     (if rc_eval_force_no_demotion (rx_cfg rx) then (CLASSIFY_UNCHANGED, f)
      else if rf_classify_seen f \<ge> rc_classify_window (rx_cfg rx) then (CLASSIFY_UNCHANGED, f)
      else (let f = f\<lparr>rf_classify_seen := rf_classify_seen f + 1\<rparr>;
                f = (if inner_udp_payload_len pkt len \<ge> rc_small_packet_threshold_bytes (rx_cfg rx)
                     then f\<lparr>rf_classify_large := rf_classify_large f + 1\<rparr> else f)
            in if rf_classify_seen f = rc_classify_window (rx_cfg rx) \<and>
                  rf_classify_large f \<le> rc_ack_demote_max_large_packets (rx_cfg rx)
               then (CLASSIFY_DEMOTED, f) else (CLASSIFY_UNCHANGED, f)))"

fun demote_loop ::
  "nat \<Rightarrow> mqvpn_reorder_rx \<Rightarrow> mqvpn_reorder_flow \<Rightarrow> u64 \<Rightarrow> mqvpn_reorder_rx \<times> mqvpn_reorder_flow" where
  "demote_loop 0 rx f now_us = (rx, f)"
| "demote_loop (Suc n) rx f now_us =
     (if \<not> ring_empty (rf_buffer f)
      then (let f = f\<lparr>rf_expected := ring_lowest_seq (rf_buffer f) (rf_expected f)\<rparr>;
                (rx, f) = drain_contiguous rx f now_us
            in demote_loop n rx f now_us)
      else (rx, f))"

definition flush_buffer_for_demote ::
  "mqvpn_reorder_rx \<Rightarrow> mqvpn_reorder_flow \<Rightarrow> u64 \<Rightarrow> mqvpn_reorder_rx \<times> mqvpn_reorder_flow" where
  "flush_buffer_for_demote rx f now_us =
     (let f = (if rf_gap_timer_active f
               then f\<lparr>rf_stats := st_gap_demote_count_update (\<lambda>n. n + 1) (rf_stats f)\<rparr> else f);
          (rx, f) = demote_loop (unat (rg_count (rf_buffer f))) rx f now_us;
          f = stop_gap_timer (f\<lparr>rf_last_progress_us := now_us\<rparr>)
      in (rx, f\<lparr>rf_buffer := ring_free (rf_buffer f)\<rparr>))"


section \<open>Admission\<close>

definition would_exceed_per_flow_limits ::
  "mqvpn_reorder_rx \<Rightarrow> mqvpn_reorder_flow \<Rightarrow> u16 \<Rightarrow> bool" where
  "would_exceed_per_flow_limits rx f len \<longleftrightarrow>
     rg_count (rf_buffer f) \<ge> rg_cap (rf_buffer f) \<or>
     rg_bytes (rf_buffer f) + ucast len > rc_max_buffer_bytes_per_flow (rx_cfg rx)"

definition pool_would_exhaust :: "mqvpn_reorder_rx \<Rightarrow> u16 \<Rightarrow> bool" where
  "pool_would_exhaust rx len \<longleftrightarrow>
     rx_pool_bytes_used rx + ucast len > rc_global_max_buffer_bytes (rx_cfg rx)"

type_synonym rx_step = "reorder_process_result \<times> mqvpn_reorder_rx \<times> mqvpn_reorder_flow"

definition buffer_insert_committed ::
  "rx_alloc \<Rightarrow> mqvpn_reorder_rx \<Rightarrow> mqvpn_reorder_flow \<Rightarrow> u64 \<Rightarrow> u8 list \<Rightarrow> u16 \<Rightarrow> u64 \<Rightarrow> rx_step" where
  "buffer_insert_committed al rx f seq pkt len now_us =
     (let dropped = (REORDER_DROPPED_LIMIT, rx,
                     f\<lparr>rf_stats := st_pool_drop_count_update (\<lambda>n. n + 1) (rf_stats f)\<rparr>)
      in if \<not> al_copy al then dropped
         else case ring_insert (al_slots al) (rf_buffer f) seq pkt len (rf_expected f) now_us of
                None \<Rightarrow> dropped
              | Some r \<Rightarrow>
                  (let rx = rx\<lparr>rx_pool_bytes_used := rx_pool_bytes_used rx + ucast len\<rparr>;
                       f = f\<lparr>rf_buffer := r, rf_last_progress_us := now_us\<rparr>;
                       f = (if seq + 1 > rf_rx_next f then f\<lparr>rf_rx_next := seq + 1\<rparr> else f);
                       (rx, f) = period_start_if_needed rx f now_us
                   in (REORDER_BUFFERED, rx, f)))"

text \<open>An in-order packet: deliver it, step over it, drain, and settle the period.\<close>

definition deliver_in_order ::
  "mqvpn_reorder_rx \<Rightarrow> mqvpn_reorder_flow \<Rightarrow> u8 list \<Rightarrow> u64 \<Rightarrow> rx_step" where
  "deliver_in_order rx f pkt now_us =
     (let (rx, f) = deliver_pkt rx pkt f now_us now_us;
          f = f\<lparr>rf_expected := rf_expected f + 1, rf_last_progress_us := now_us\<rparr>;
          (rx, f) = drain_contiguous rx f now_us;
          (rx, f) = period_start_if_needed rx (period_end_if_done f bump_gap_filled) now_us
      in (REORDER_DELIVERED, rx, f))"

definition reclassify_after_flush ::
  "mqvpn_reorder_rx \<Rightarrow> mqvpn_reorder_flow \<Rightarrow> u64 \<Rightarrow> u8 list \<Rightarrow> u64 \<Rightarrow> rx_step" where
  "reclassify_after_flush rx f seq pkt now_us =
     (if seq < rf_expected f
      then (REORDER_DROPPED_LATE, rx,
            f\<lparr>rf_stats := st_too_late_drop_count_update (\<lambda>n. n + 1) (rf_stats f)\<rparr>)
      else if seq = rf_expected f then deliver_in_order rx f pkt now_us
      else if ring_far_ahead (rf_buffer f) seq (rf_expected f)
      then (REORDER_DROPPED_FAR_AHEAD, rx,
            f\<lparr>rf_stats := st_too_far_ahead_drop_count_update (\<lambda>n. n + 1) (rf_stats f)\<rparr>)
      else if ring_contains (rf_buffer f) seq
      then (REORDER_DROPPED_LIMIT, rx,
            f\<lparr>rf_stats := st_duplicate_drop_count_update (\<lambda>n. n + 1) (rf_stats f)\<rparr>)
      else (REORDER_BUFFERED, rx, f))"

text \<open>The global-pool half of \<open>buffer_admit\<close>, entered directly or after a per-flow flush.\<close>

definition admit_pool ::
  "rx_alloc \<Rightarrow> mqvpn_reorder_rx \<Rightarrow> mqvpn_reorder_flow \<Rightarrow> u64 \<Rightarrow> u8 list \<Rightarrow> u16 \<Rightarrow> u64 \<Rightarrow> rx_step" where
  "admit_pool al rx f seq pkt len now_us =
     (if pool_would_exhaust rx len then
        (if ring_empty (rf_buffer f)
         then (REORDER_DROPPED_LIMIT, rx,
               f\<lparr>rf_stats := st_pool_drop_count_update (\<lambda>n. n + 1) (rf_stats f)\<rparr>)
         else (let (rx, f) = overflow_flush rx f now_us;
                   (r, rx, f) = reclassify_after_flush rx f seq pkt now_us
               in if r \<noteq> REORDER_BUFFERED then (r, rx, f)
                  else if pool_would_exhaust rx len
                  then (REORDER_DROPPED_LIMIT, rx,
                        f\<lparr>rf_stats := st_pool_drop_count_update (\<lambda>n. n + 1) (rf_stats f)\<rparr>)
                  else buffer_insert_committed al rx f seq pkt len now_us))
      else buffer_insert_committed al rx f seq pkt len now_us)"

definition buffer_admit ::
  "rx_alloc \<Rightarrow> mqvpn_reorder_rx \<Rightarrow> mqvpn_reorder_flow \<Rightarrow> u64 \<Rightarrow> u8 list \<Rightarrow> u16 \<Rightarrow> u64 \<Rightarrow> rx_step" where
  "buffer_admit al rx f seq pkt len now_us =
     (if ring_contains (rf_buffer f) seq
      then (REORDER_DROPPED_LIMIT, rx,
            f\<lparr>rf_stats := st_duplicate_drop_count_update (\<lambda>n. n + 1) (rf_stats f)\<rparr>)
      else if would_exceed_per_flow_limits rx f len then
        (if ring_empty (rf_buffer f)
         then (REORDER_DROPPED_LIMIT, rx,
               f\<lparr>rf_stats := st_per_flow_limit_drop_count_update (\<lambda>n. n + 1) (rf_stats f)\<rparr>)
         else (let (rx, f) = overflow_flush rx f now_us;
                   (r, rx, f) = reclassify_after_flush rx f seq pkt now_us
               in if r \<noteq> REORDER_BUFFERED then (r, rx, f)
                  else admit_pool al rx f seq pkt len now_us))
      else admit_pool al rx f seq pkt len now_us)"

definition process_reorder_packet ::
  "rx_alloc \<Rightarrow> mqvpn_reorder_rx \<Rightarrow> mqvpn_reorder_flow \<Rightarrow> u64 \<Rightarrow> u8 list \<Rightarrow> u16 \<Rightarrow> u64 \<Rightarrow> rx_step" where
  "process_reorder_packet al rx f seq pkt len now_us =
     (if \<not> rf_initialized f
      then (let f = f\<lparr>rf_initialized := True, rf_expected := seq\<rparr>;
                (rx, f) = deliver_pkt rx pkt f now_us now_us
            in (REORDER_DELIVERED, rx,
                f\<lparr>rf_expected := rf_expected f + 1, rf_last_progress_us := now_us\<rparr>))
      else if seq = rf_expected f then deliver_in_order rx f pkt now_us
      else if seq < rf_expected f
      then (REORDER_DROPPED_LATE, rx,
            f\<lparr>rf_stats := st_too_late_drop_count_update (\<lambda>n. n + 1) (rf_stats f)\<rparr>)
      else if ring_far_ahead (rf_buffer f) seq (rf_expected f)
      then (REORDER_DROPPED_FAR_AHEAD, rx,
            f\<lparr>rf_stats := st_too_far_ahead_drop_count_update (\<lambda>n. n + 1) (rf_stats f)\<rparr>)
      else buffer_admit al rx f seq pkt len now_us)"

text \<open>A FLOW_RESET is honoured on a fresh flow and after more than the grace period of silence.\<close>

definition reset_honored :: "mqvpn_reorder_rx \<Rightarrow> mqvpn_reorder_flow \<Rightarrow> u8 \<Rightarrow> u64 \<Rightarrow> bool" where
  "reset_honored rx f flags now_us \<longleftrightarrow>
     flags AND MQVPN_REORDER_FLAG_RESET \<noteq> 0 \<and>
     (let grace_us = ucast (rc_reset_idle_grace_ms (rx_cfg rx)) * 1000
      in \<not> rf_initialized f \<or>
         now_us > rf_last_progress_us f \<and> now_us - rf_last_progress_us f > grace_us)"

definition on_reordered ::
  "rx_alloc \<Rightarrow> mqvpn_reorder_rx \<Rightarrow> mqvpn_reorder_flow \<Rightarrow> u64 \<Rightarrow> u8 \<Rightarrow> u8 list \<Rightarrow> u16 \<Rightarrow> u64 \<Rightarrow>
   mqvpn_reorder_rx \<times> mqvpn_reorder_flow" where
  "on_reordered al rx f seq flags pkt len now_us =
     (let f = f\<lparr>rf_last_seen_us := now_us\<rparr>
      in if reset_honored rx f flags now_us
         then (let (rx, f) = reset_reorder_flow rx f;
                   f = f\<lparr>rf_initialized := True, rf_expected := seq\<rparr>;
                   (rx, f) = deliver_pkt rx pkt f now_us now_us
               in (rx, f\<lparr>rf_expected := rf_expected f + 1, rf_last_progress_us := now_us\<rparr>))
         else if rf_pass_through f
         then (let (rx, f) = deliver_pkt rx pkt f now_us now_us
               in (rx, f\<lparr>rf_last_progress_us := now_us\<rparr>))
         else (let (res, rx, f) = process_reorder_packet al rx f seq pkt len now_us
               in if res = REORDER_DELIVERED \<or> res = REORDER_BUFFERED \<or> res = REORDER_DROPPED_LATE
                  then (case classify_update rx f pkt len of
                          (CLASSIFY_DEMOTED, f) \<Rightarrow>
                            (let (rx, f) = flush_buffer_for_demote rx f now_us
                             in (rx, f\<lparr>rf_pass_through := True,
                                      rf_stats := st_ack_demote_count_update (\<lambda>n. n + 1) (rf_stats f)\<rparr>))
                        | (CLASSIFY_UNCHANGED, f) \<Rightarrow> (rx, f))
                  else (rx, f)))"


section \<open>Flow table\<close>

definition MQVPN_RX_BUCKETS :: u32 where "MQVPN_RX_BUCKETS = 1024"

definition rx_idx :: "mqvpn_reorder_rx \<Rightarrow> mqvpn_flow_key \<Rightarrow> nat" where
  "rx_idx rx key =
     unat (ucast (mqvpn_flow_key_hash key (rx_hash_seed rx) AND ucast (rx_n_buckets rx - 1)) :: u32)"

definition flow_lookup :: "mqvpn_reorder_rx \<Rightarrow> mqvpn_flow_key \<Rightarrow> mqvpn_reorder_flow option" where
  "flow_lookup rx key = chain_lookup rf_key (rx_buckets rx ! rx_idx rx key) key"

text \<open>The last flow in scan order with the least progress time, as the C scan leaves it.\<close>

fun lru_scan :: "mqvpn_reorder_flow list \<Rightarrow> u64 \<Rightarrow> mqvpn_reorder_flow option \<Rightarrow> mqvpn_reorder_flow option" where
  "lru_scan [] oldest victim = victim"
| "lru_scan (f # fs) oldest victim =
     (if rf_last_progress_us f \<le> oldest then lru_scan fs (rf_last_progress_us f) (Some f)
      else lru_scan fs oldest victim)"

definition evict_lru_flow :: "mqvpn_reorder_rx \<Rightarrow> mqvpn_reorder_rx" where
  "evict_lru_flow rx =
     (case lru_scan (concat (rx_buckets rx)) (- 1) None of
        None \<Rightarrow> rx
      | Some v \<Rightarrow>
          (let rx = rx\<lparr>rx_buckets := table_map (rx_idx rx) (rf_key v) (chain_unlink rf_key (rf_key v)) (rx_buckets rx)\<rparr>;
               rx = flow_destroy rx v
           in rx\<lparr>rx_n_flows := rx_n_flows rx - 1\<rparr>))"

definition flow_wait_ms :: "mqvpn_reorder_config \<Rightarrow> mqvpn_flow_key \<Rightarrow> u32" where
  "flow_wait_ms cfg key =
     (case mqvpn_reorder_match_rule cfg key of Some r \<Rightarrow> ru_resolved_wait_ms r | None \<Rightarrow> rc_max_wait_ms cfg)"

definition flow_cap :: "mqvpn_reorder_config \<Rightarrow> mqvpn_flow_key \<Rightarrow> u32" where
  "flow_cap cfg key =
     (case mqvpn_reorder_match_rule cfg key of Some r \<Rightarrow> ru_resolved_cap r | None \<Rightarrow> rc_cap_packets_per_flow cfg)"

definition flow_new :: "mqvpn_reorder_config \<Rightarrow> mqvpn_flow_key \<Rightarrow> mqvpn_reorder_flow" where
  "flow_new cfg key =
     \<lparr>rf_key = key, rf_expected = 0, rf_initialized = False, rf_buffer = ring_init (flow_cap cfg key),
      rf_gap_timer_active = False, rf_gap_deadline_us = 0, rf_gap_armed_us = 0,
      rf_wait_ms = flow_wait_ms cfg key, rf_rx_next = 0, rf_reord = 0, rf_last_seen_us = 0,
      rf_last_progress_us = 0, rf_pass_through = False, rf_classify_seen = 0,
      rf_classify_large = 0, rf_stats = stats_zero\<rparr>"

definition flow_get_or_create ::
  "rx_alloc \<Rightarrow> mqvpn_reorder_rx \<Rightarrow> mqvpn_flow_key \<Rightarrow> mqvpn_reorder_rx \<times> mqvpn_reorder_flow option" where
  "flow_get_or_create al rx key =
     (case flow_lookup rx key of
        Some f \<Rightarrow> (rx, Some f)
      | None \<Rightarrow>
          (let rx = (if rc_max_flows (rx_cfg rx) > 0 \<and> rx_n_flows rx \<ge> rc_max_flows (rx_cfg rx)
                     then evict_lru_flow rx else rx)
           in if \<not> al_flow al then (rx, None)
              else (let f = flow_new (rx_cfg rx) key
                    in (rx\<lparr>rx_buckets := table_map (rx_idx rx) key ((#) f) (rx_buckets rx),
                           rx_n_flows := rx_n_flows rx + 1, rx_next_idle_us := 0\<rparr>, Some f))))"

text \<open>Writing a flow back through its pointer.\<close>

definition flow_put :: "mqvpn_reorder_rx \<Rightarrow> mqvpn_reorder_flow \<Rightarrow> mqvpn_reorder_rx" where
  "flow_put rx f =
     rx\<lparr>rx_buckets := table_map (rx_idx rx) (rf_key f) (chain_put rf_key f) (rx_buckets rx)\<rparr>"


section \<open>Public API\<close>

text \<open>\<open>None\<close> is NULL; the two flags are the outcomes of the two allocations.\<close>

definition mqvpn_reorder_rx_new ::
  "bool \<Rightarrow> bool \<Rightarrow> mqvpn_reorder_config \<Rightarrow> u64 \<Rightarrow> mqvpn_reorder_rx option" where
  "mqvpn_reorder_rx_new rx_ok buckets_ok cfg hash_seed =
     (if \<not> mqvpn_reorder_config_validate cfg \<or> \<not> rx_ok \<or> \<not> buckets_ok then None
      else Some \<lparr>rx_cfg = mqvpn_reorder_config_finalize cfg, rx_hash_seed = hash_seed,
                 rx_delivered = [], rx_buckets = replicate (unat MQVPN_RX_BUCKETS) [],
                 rx_n_buckets = MQVPN_RX_BUCKETS, rx_n_flows = 0, rx_next_gap_us = 0,
                 rx_next_idle_us = 0, rx_pool_bytes_used = 0, rx_evicted_stats = stats_zero\<rparr>)"

text \<open>Destroying the engine destroys every flow; what is left is the final state of the totals.\<close>

definition mqvpn_reorder_rx_free :: "mqvpn_reorder_rx \<Rightarrow> mqvpn_reorder_rx" where
  "mqvpn_reorder_rx_free rx =
     (fold (\<lambda>f rx. flow_destroy rx f) (concat (rx_buckets rx)) rx)\<lparr>rx_buckets := []\<rparr>"

definition mqvpn_reorder_rx_on_packet ::
  "rx_alloc \<Rightarrow> mqvpn_reorder_rx \<Rightarrow> u8 list \<Rightarrow> u64 \<Rightarrow> mqvpn_reorder_rx" where
  "mqvpn_reorder_rx_on_packet al rx payload now_us =
     (case mqvpn_reorder_wire_decode payload of
        Some (Some (type, flags, seq)) \<Rightarrow>
          (let inner = drop MQVPN_REORDER_HDR_LEN payload;
               inner_len = length payload - MQVPN_REORDER_HDR_LEN
           in if type \<noteq> MQVPN_REORDER_TYPE_V1 then rx
              else if inner_len = 0 \<or> inner_len > 65535 then rx
              else if rc_max_wait_ms (rx_cfg rx) = 0 \<and> rc_rules (rx_cfg rx) = []
              then rx\<lparr>rx_delivered := rx_delivered rx @ [inner]\<rparr>
              else (case mqvpn_reorder_parse_5tuple inner of
                      Some (Some key) \<Rightarrow>
                        (if flow_wait_ms (rx_cfg rx) key = 0
                         then rx\<lparr>rx_delivered := rx_delivered rx @ [inner]\<rparr>
                         else (case flow_get_or_create al rx key of
                                 (rx, None) \<Rightarrow> rx
                               | (rx, Some f) \<Rightarrow>
                                   (let (rx, f) = on_reordered al rx f seq flags inner (of_nat inner_len) now_us
                                    in flow_put rx f)))
                    | _ \<Rightarrow> rx))
      | _ \<Rightarrow> rx)"

text \<open>The gap-timeout sweep and the idle sweep over one chain, and over all chains.\<close>

fun gap_sweep_chain ::
  "mqvpn_reorder_rx \<Rightarrow> u64 \<Rightarrow> mqvpn_reorder_flow list \<Rightarrow> mqvpn_reorder_rx \<times> mqvpn_reorder_flow list" where
  "gap_sweep_chain rx now_us [] = (rx, [])"
| "gap_sweep_chain rx now_us (f # fs) =
     (let (rx, f) =
            (if \<not> rf_gap_timer_active f then (rx, f)
             else if rf_gap_deadline_us f \<le> now_us then on_gap_timeout rx f now_us
             else if rf_gap_deadline_us f < rx_next_gap_us rx
             then (rx\<lparr>rx_next_gap_us := rf_gap_deadline_us f\<rparr>, f)
             else (rx, f));
          (rx, fs) = gap_sweep_chain rx now_us fs
      in (rx, f # fs))"

fun gap_sweep ::
  "mqvpn_reorder_rx \<Rightarrow> u64 \<Rightarrow> mqvpn_reorder_flow list list \<Rightarrow> mqvpn_reorder_rx \<times> mqvpn_reorder_flow list list" where
  "gap_sweep rx now_us [] = (rx, [])"
| "gap_sweep rx now_us (c # cs) =
     (let (rx, c) = gap_sweep_chain rx now_us c; (rx, cs) = gap_sweep rx now_us cs in (rx, c # cs))"

definition flow_is_idle :: "mqvpn_reorder_rx \<Rightarrow> u64 \<Rightarrow> mqvpn_reorder_flow \<Rightarrow> bool" where
  "flow_is_idle rx now_us f \<longleftrightarrow>
     now_us > rf_last_progress_us f \<and>
     now_us - rf_last_progress_us f > ucast (rc_ingress_idle_timeout_sec (rx_cfg rx)) * 1000000"

fun idle_sweep_chain ::
  "mqvpn_reorder_rx \<Rightarrow> u64 \<Rightarrow> mqvpn_reorder_flow list \<Rightarrow> mqvpn_reorder_rx \<times> mqvpn_reorder_flow list" where
  "idle_sweep_chain rx now_us [] = (rx, [])"
| "idle_sweep_chain rx now_us (f # fs) =
     (if flow_is_idle rx now_us f
      then (let rx = flow_destroy rx f
            in idle_sweep_chain (rx\<lparr>rx_n_flows := rx_n_flows rx - 1\<rparr>) now_us fs)
      else (let idle_at = rf_last_progress_us f +
                  ucast (rc_ingress_idle_timeout_sec (rx_cfg rx)) * 1000000 + 1;
                rx = (if idle_at < rx_next_idle_us rx then rx\<lparr>rx_next_idle_us := idle_at\<rparr> else rx);
                (rx, fs) = idle_sweep_chain rx now_us fs
            in (rx, f # fs)))"

fun idle_sweep ::
  "mqvpn_reorder_rx \<Rightarrow> u64 \<Rightarrow> mqvpn_reorder_flow list list \<Rightarrow> mqvpn_reorder_rx \<times> mqvpn_reorder_flow list list" where
  "idle_sweep rx now_us [] = (rx, [])"
| "idle_sweep rx now_us (c # cs) =
     (let (rx, c) = idle_sweep_chain rx now_us c; (rx, cs) = idle_sweep rx now_us cs in (rx, c # cs))"

definition tick_gaps :: "mqvpn_reorder_rx \<Rightarrow> u64 \<Rightarrow> mqvpn_reorder_rx" where
  "tick_gaps rx now_us =
     (let (rx', b) = gap_sweep (rx\<lparr>rx_next_gap_us := - 1\<rparr>) now_us (rx_buckets rx)
      in rx'\<lparr>rx_buckets := b\<rparr>)"

definition tick_idle :: "mqvpn_reorder_rx \<Rightarrow> u64 \<Rightarrow> mqvpn_reorder_rx" where
  "tick_idle rx now_us =
     (let (rx', b) = idle_sweep (rx\<lparr>rx_next_idle_us := - 1\<rparr>) now_us (rx_buckets rx)
      in rx'\<lparr>rx_buckets := b\<rparr>)"

definition mqvpn_reorder_rx_tick :: "mqvpn_reorder_rx \<Rightarrow> u64 \<Rightarrow> mqvpn_reorder_rx" where
  "mqvpn_reorder_rx_tick rx now_us =
     (if rx_n_flows rx = 0 then rx
      else (let rx = (if now_us \<ge> rx_next_gap_us rx then tick_gaps rx now_us else rx)
            in if now_us < rx_next_idle_us rx then rx else tick_idle rx now_us))"

definition mqvpn_reorder_rx_get_stats :: "mqvpn_reorder_rx \<Rightarrow> mqvpn_reorder_stats" where
  "mqvpn_reorder_rx_get_stats rx =
     fold (\<lambda>f out. mqvpn_reorder_stats_accumulate out (rf_stats f)) (concat (rx_buckets rx))
       (rx_evicted_stats rx)"

definition mqvpn_reorder_rx_set_force_no_demotion :: "mqvpn_reorder_rx \<Rightarrow> bool \<Rightarrow> mqvpn_reorder_rx" where
  "mqvpn_reorder_rx_set_force_no_demotion rx force =
     rx\<lparr>rx_cfg := (rx_cfg rx)\<lparr>rc_eval_force_no_demotion := force\<rparr>\<rparr>"

end
