(* ===== verification/Rx_Flow.thy ===== *)
theory Rx_Flow
  imports Reorder_Rx
begin

text \<open>
  The flow operations of the receive engine: ascending delivery (\<open>advances\<close>), the flow invariant the
  source states for operation boundaries, and that every operation keeps it together with the pool
  accounting.
\<close>


section \<open>Statistics\<close>

text \<open>Periods started and not yet ended.\<close>

definition gap_open :: "mqvpn_reorder_stats \<Rightarrow> u64" where
  "gap_open st = st_gap_count st - (st_gap_filled_count st + st_gap_timeout_count st +
     st_gap_overflow_count st + st_gap_demote_count st + st_gap_reset_count st)"

definition residence_stats :: "mqvpn_reorder_stats \<Rightarrow> u64 \<Rightarrow> u64 \<Rightarrow> mqvpn_reorder_stats" where
  "residence_stats st now_us enq_us =
     (let r = (if now_us > enq_us then now_us - enq_us else 0);
          i = lat_bucket r 0 reorder_lat_bound_us
      in st\<lparr>st_residence_bucket := (st_residence_bucket st)[i := st_residence_bucket st ! i + 1],
            st_residence_max_us := (if r > st_residence_max_us st then r else st_residence_max_us st)\<rparr>)"

lemma record_residence_eq:
  "record_residence f now_us enq_us = f\<lparr>rf_stats := residence_stats (rf_stats f) now_us enq_us\<rparr>"
  by (simp add: record_residence_def residence_stats_def Let_def)

lemma gap_open_updates [simp]:
  "gap_open (residence_stats st a b) = gap_open st"
  "gap_open (st_delivered_count_update g st) = gap_open st"
  "gap_open (st_too_late_drop_count_update g st) = gap_open st"
  "gap_open (st_too_far_ahead_drop_count_update g st) = gap_open st"
  "gap_open (st_duplicate_drop_count_update g st) = gap_open st"
  "gap_open (st_per_flow_limit_drop_count_update g st) = gap_open st"
  "gap_open (st_pool_drop_count_update g st) = gap_open st"
  "gap_open (st_reset_discard_count_update g st) = gap_open st"
  "gap_open (st_ack_demote_count_update g st) = gap_open st"
  "gap_open (st_gap_count_update (\<lambda>n. n + 1) st) = gap_open st + 1"
  "gap_open (st_gap_filled_count_update (\<lambda>n. n + 1) st) = gap_open st - 1"
  "gap_open (st_gap_timeout_count_update (\<lambda>n. n + 1) st) = gap_open st - 1"
  "gap_open (st_gap_overflow_count_update (\<lambda>n. n + 1) st) = gap_open st - 1"
  "gap_open (st_gap_demote_count_update (\<lambda>n. n + 1) st) = gap_open st - 1"
  "gap_open (st_gap_reset_count_update (\<lambda>n. n + 1) st) = gap_open st - 1"
  by (simp_all add: gap_open_def residence_stats_def Let_def algebra_simps)

lemma residence_bucket_length [simp]:
  "length (st_residence_bucket (residence_stats st a b)) = length (st_residence_bucket st)"
  by (simp add: residence_stats_def Let_def)

text \<open>The histogram index is in range.\<close>

lemma lat_bucket_less: "i < 12 \<Longrightarrow> lat_bucket r i bounds < 12"
  by (induction r i bounds rule: lat_bucket.induct) (auto simp: MQVPN_REORDER_LAT_BUCKETS_def)

lemma deliver_pkt_sel [simp]:
  "fst (deliver_pkt rx pkt f now_us enq_us) = rx\<lparr>rx_delivered := rx_delivered rx @ [pkt]\<rparr>"
  "snd (deliver_pkt rx pkt f now_us enq_us) = f\<lparr>rf_stats :=
     residence_stats (st_delivered_count_update (\<lambda>n. n + 1) (rf_stats f)) now_us enq_us\<rparr>"
  by (simp_all add: deliver_pkt_def record_residence_eq)

lemma deliver_pkt_pair:
  "deliver_pkt rx pkt f now_us enq_us =
     (rx\<lparr>rx_delivered := rx_delivered rx @ [pkt]\<rparr>,
      f\<lparr>rf_stats := residence_stats (st_delivered_count_update (\<lambda>n. n + 1) (rf_stats f)) now_us enq_us\<rparr>)"
  by (simp add: deliver_pkt_def record_residence_eq)


section \<open>Delivery in sequence order\<close>

definition flow_ring_ok :: "mqvpn_reorder_flow \<Rightarrow> bool" where
  "flow_ring_ok f \<longleftrightarrow>
     ring_wf (rf_buffer f) (rf_expected f) \<and>
     (\<forall>q. ring_contains (rf_buffer f) q \<longrightarrow> q < rf_rx_next f) \<and>
     (rf_expected f < rf_rx_next f \<longrightarrow> ring_contains (rf_buffer f) (rf_rx_next f - 1)) \<and>
     rf_expected f \<le> 2 ^ 48 \<and> rf_rx_next f \<le> 2 ^ 48"

text \<open>The packets held in \<open>[lo, hi)\<close>, in ascending order of their sequence numbers.\<close>

definition window_seqs :: "ring \<Rightarrow> u64 \<Rightarrow> u64 \<Rightarrow> u64 set" where
  "window_seqs r lo hi = {q. lo \<le> q \<and> q < hi \<and> ring_contains r q}"

definition ring_pkt :: "ring \<Rightarrow> u64 \<Rightarrow> u8 list" where
  "ring_pkt r q = fst (the (ring_abs r q))"

definition window_pkts :: "ring \<Rightarrow> u64 \<Rightarrow> u64 \<Rightarrow> u8 list list" where
  "window_pkts r lo hi = map (ring_pkt r) (sorted_list_of_set (window_seqs r lo hi))"

lemma window_seqs_split:
  assumes "lo \<le> mid" and "mid \<le> hi"
  shows "window_seqs r lo hi = window_seqs r lo mid \<union> window_seqs r mid hi"
  using assms by (auto simp: window_seqs_def)

lemma window_pkts_split:
  assumes "lo \<le> mid" and "mid \<le> hi"
  shows "window_pkts r lo hi = window_pkts r lo mid @ window_pkts r mid hi"
proof -
  have "sorted_list_of_set (window_seqs r lo mid \<union> window_seqs r mid hi) =
        sorted_list_of_set (window_seqs r lo mid) @ sorted_list_of_set (window_seqs r mid hi)"
    by (rule sorted_list_of_set_append) (auto simp: window_seqs_def)
  then show ?thesis by (simp add: window_pkts_def window_seqs_split [OF assms])
qed

lemma window_pkts_empty: "(\<And>q. lo \<le> q \<Longrightarrow> q < hi \<Longrightarrow> \<not> ring_contains r q) \<Longrightarrow> window_pkts r lo hi = []"
  by (simp add: window_pkts_def window_seqs_def)

lemma window_pkts_cong:
  assumes "\<And>q. lo \<le> q \<Longrightarrow> q < hi \<Longrightarrow> ring_abs r q = ring_abs r' q"
  shows "window_pkts r lo hi = window_pkts r' lo hi"
proof -
  have "window_seqs r lo hi = window_seqs r' lo hi"
    using assms by (auto simp: window_seqs_def ring_contains_abs)
  moreover have "ring_pkt r q = ring_pkt r' q" if "q \<in> window_seqs r' lo hi" for q
    using that assms by (simp add: window_seqs_def ring_pkt_def)
  ultimately show ?thesis by (simp add: window_pkts_def)
qed

text \<open>The fields the delivery loops leave alone.\<close>

definition flow_rest where
  "flow_rest f = (rf_key f, rf_initialized f, rf_gap_timer_active f, rf_gap_deadline_us f,
     rf_gap_armed_us f, rf_wait_ms f, rf_rx_next f, rf_reord f, rf_last_seen_us f,
     rf_last_progress_us f, rf_pass_through f, rf_classify_seen f, rf_classify_large f,
     rg_cap (rf_buffer f), length (st_residence_bucket (rf_stats f)), gap_open (rf_stats f))"

definition rx_rest where
  "rx_rest rx = (rx_cfg rx, rx_hash_seed rx, rx_buckets rx, rx_n_buckets rx, rx_n_flows rx,
     rx_next_idle_us rx, rx_evicted_stats rx)"

text \<open>
  Moving the window origin of a flow from \<open>rf_expected f\<close> to \<open>rf_expected f'\<close>: exactly the packets held
  in between are delivered, in ascending order, and leave the ring and the pool.
\<close>

definition advances ::
  "mqvpn_reorder_rx \<Rightarrow> mqvpn_reorder_flow \<Rightarrow> mqvpn_reorder_rx \<Rightarrow> mqvpn_reorder_flow \<Rightarrow> bool" where
  "advances rx f rx' f' \<longleftrightarrow>
     flow_rest f' = flow_rest f \<and> rx_rest rx' = rx_rest rx \<and> rx_next_gap_us rx' = rx_next_gap_us rx \<and>
     rf_expected f \<le> rf_expected f' \<and> flow_ring_ok f' \<and>
     ((\<forall>q. ring_abs (rf_buffer f) q = None) \<longrightarrow> rf_expected f' = rf_expected f) \<and>
     (\<forall>q. ring_abs (rf_buffer f') q = (if q < rf_expected f' then None else ring_abs (rf_buffer f) q)) \<and>
     rx_delivered rx' = rx_delivered rx @ window_pkts (rf_buffer f) (rf_expected f) (rf_expected f') \<and>
     unat (rg_bytes (rf_buffer f')) \<le> unat (rg_bytes (rf_buffer f)) \<and>
     unat (rg_bytes (rf_buffer f')) \<le> unat (rx_pool_bytes_used rx') \<and>
     unat (rx_pool_bytes_used rx') + unat (rg_bytes (rf_buffer f)) =
       unat (rx_pool_bytes_used rx) + unat (rg_bytes (rf_buffer f'))"

lemma advances_refl:
  assumes "flow_ring_ok f" and "unat (rg_bytes (rf_buffer f)) \<le> unat (rx_pool_bytes_used rx)"
  shows "advances rx f rx f"
proof -
  have "ring_abs (rf_buffer f) q = None" if "q < rf_expected f" for q
    using assms(1) that by (auto simp: flow_ring_ok_def intro: ring_abs_below)
  then show ?thesis using assms by (auto simp: advances_def window_pkts_empty)
qed

lemma advances_trans:
  assumes "advances rx f rx1 f1" and "advances rx1 f1 rx2 f2"
  shows "advances rx f rx2 f2"
proof -
  let ?e = "rf_expected f" and ?e1 = "rf_expected f1" and ?e2 = "rf_expected f2"
  have le: "?e \<le> ?e1" "?e1 \<le> ?e2" using assms by (simp_all add: advances_def)
  have "window_pkts (rf_buffer f1) ?e1 ?e2 = window_pkts (rf_buffer f) ?e1 ?e2"
    using assms(1) by (intro window_pkts_cong) (auto simp: advances_def)
  then have "rx_delivered rx2 = rx_delivered rx @ window_pkts (rf_buffer f) ?e ?e2"
    using assms le by (simp add: advances_def window_pkts_split [of ?e ?e1 ?e2])
  moreover have "ring_abs (rf_buffer f2) q = (if q < ?e2 then None else ring_abs (rf_buffer f) q)" for q
    using assms le by (auto simp: advances_def)
  ultimately show ?thesis
    using assms le by (auto simp: advances_def)
qed

lemma le_48_neq_max: "x \<le> 2 ^ 48 \<Longrightarrow> x \<noteq> - 1" for x :: u64
proof
  assume "x \<le> 2 ^ 48" "x = - 1"
  moreover have "\<not> (- 1 :: u64) \<le> 2 ^ 48" by code_simp
  ultimately show False by blast
qed

lemma flow_ring_okD:
  assumes "flow_ring_ok f"
  shows "ring_wf (rf_buffer f) (rf_expected f)" "rf_expected f \<noteq> - 1"
    "ring_contains (rf_buffer f) q \<Longrightarrow> q < rf_rx_next f" "rf_rx_next f \<le> 2 ^ 48" "rf_expected f \<le> 2 ^ 48"
  using assms le_48_neq_max by (auto simp: flow_ring_ok_def)

text \<open>Stepping over the packet at the origin.\<close>

lemma advances_step:
  assumes ok: "flow_ring_ok f" and pool: "unat (rg_bytes (rf_buffer f)) \<le> unat (rx_pool_bytes_used rx)"
    and rm: "ring_remove (rf_buffer f) (rf_expected f) = (Some (pkt, len, enq), r)"
    and st: "gap_open st = gap_open (rf_stats f)"
      "length (st_residence_bucket st) = length (st_residence_bucket (rf_stats f))"
  shows "advances rx f
    (pool_release (rx\<lparr>rx_delivered := rx_delivered rx @ [pkt]\<rparr>) len)
    (f\<lparr>rf_buffer := r, rf_stats := st, rf_expected := rf_expected f + 1\<rparr>)"
proof -
  let ?e = "rf_expected f" and ?b = "rf_buffer f"
  let ?f = "f\<lparr>rf_buffer := r, rf_stats := st, rf_expected := ?e + 1\<rparr>"
  note D = flow_ring_okD [OF ok]
  have "ring_abs ?b ?e = Some (pkt, len, enq)" using rb.remove_result [OF D(1), of ?e] rm by simp
  from ring_remove_present [OF D(1) this] rm
  have r: "ring_abs r = (ring_abs ?b)(?e := None)" "unat (rg_bytes ?b) = unat (rg_bytes r) + unat len"
    "rg_cap r = rg_cap ?b" by simp_all
  have inc: "?e \<le> ?e + 1" "unat (?e + 1) = unat ?e + 1" using D(2) by (simp_all add: le_inc unat_inc)
  have lt: "q < ?e + 1 \<longleftrightarrow> q \<le> ?e" for q using inc(2) by (auto simp: word_less_nat_alt word_le_nat_alt)
  have wf: "ring_wf r (?e + 1)" using rb.step_inv [OF D(1,2)] rm by simp
  have cont: "ring_contains ?b ?e" using \<open>ring_abs ?b ?e = _\<close> by (simp add: ring_contains_abs)
  have rest: "ring_contains r q \<longleftrightarrow> q \<noteq> ?e \<and> ring_contains ?b q" for q
    by (simp add: ring_contains_abs r(1))
  have nx: "?e < rf_rx_next f" using D(3) cont by blast
  have ok': "flow_ring_ok ?f"
  proof -
    have "?e + 1 \<le> 2 ^ 48" using nx D(4) inc(2) by (simp add: word_less_nat_alt word_le_nat_alt)
    moreover have "ring_contains r (rf_rx_next f - 1)" if "?e + 1 < rf_rx_next f"
    proof -
      have "rf_rx_next f - 1 \<noteq> ?e" using that by (metis diff_add_cancel order_less_irrefl)
      then show ?thesis using ok nx by (simp add: rest flow_ring_ok_def)
    qed
    ultimately show ?thesis using wf D(3,4) rest by (auto simp: flow_ring_ok_def)
  qed
  have "window_seqs ?b ?e (?e + 1) = {?e}" using cont by (auto simp: window_seqs_def lt)
  then have del: "window_pkts ?b ?e (?e + 1) = [pkt]"
    using \<open>ring_abs ?b ?e = _\<close> by (simp add: window_pkts_def ring_pkt_def)
  have "ring_abs ?b q = None" if "q < ?e" for q
    using D(1) that by (rule ring_abs_below)
  then have abs': "ring_abs r q = (if q < ?e + 1 then None else ring_abs ?b q)" for q
    by (auto simp: r(1) lt)
  have "ucast len \<le> rx_pool_bytes_used rx" using pool r(2) by (simp add: word_le_nat_alt)
  then have pr: "pool_release (rx\<lparr>rx_delivered := rx_delivered rx @ [pkt]\<rparr>) len =
      rx\<lparr>rx_delivered := rx_delivered rx @ [pkt], rx_pool_bytes_used := rx_pool_bytes_used rx - ucast len\<rparr>"
    and un: "unat (rx_pool_bytes_used rx - ucast len) = unat (rx_pool_bytes_used rx) - unat len"
    by (simp_all add: pool_release_def unat_sub_le)
  have "\<not> (\<forall>q. ring_abs ?b q = None)" using \<open>ring_abs ?b ?e = _\<close> by (metis option.distinct(1))
  then show ?thesis
    unfolding advances_def pr
    using st ok' inc(1) abs' r(2,3) del un pool by (simp add: flow_rest_def rx_rest_def del: not_all)
qed

lemma drain_loop_advances:
  assumes "flow_ring_ok f" and "unat (rg_bytes (rf_buffer f)) \<le> unat (rx_pool_bytes_used rx)"
    and "unat (rg_count (rf_buffer f)) \<le> n"
  shows "advances rx f (fst (drain_loop n rx f now_us)) (snd (drain_loop n rx f now_us)) \<and>
         \<not> ring_contains (rf_buffer (snd (drain_loop n rx f now_us))) (rf_expected (snd (drain_loop n rx f now_us)))"
  using assms
proof (induction n arbitrary: rx f)
  case 0
  then have "ring_empty (rf_buffer f)" by (simp add: ring_empty_def unat_eq_0)
  then show ?case
    using 0 rb.empty_abs [OF flow_ring_okD(1)] by (simp add: advances_refl ring_contains_abs)
next
  case (Suc n)
  note D = flow_ring_okD [OF Suc.prems(1)]
  show ?case
  proof (cases "ring_abs (rf_buffer f) (rf_expected f)")
    case None
    then show ?thesis
      using Suc.prems by (simp add: ring_remove_absent advances_refl ring_contains_abs)
  next
    case (Some v)
    obtain pkt len enq where v: "v = (pkt, len, enq)" by (cases v)
    obtain r where rm: "ring_remove (rf_buffer f) (rf_expected f) = (Some (pkt, len, enq), r)"
      using rb.remove_result [OF D(1), of "rf_expected f"] Some v by (metis prod.collapse)
    have cnt: "unat (rg_count r) \<le> n"
      using ring_remove_present [OF D(1) Some [unfolded v]] rm Suc.prems(3) by simp
    let ?st = "residence_stats (st_delivered_count_update (\<lambda>n. n + 1) (rf_stats f)) now_us enq"
    let ?rx = "pool_release (rx\<lparr>rx_delivered := rx_delivered rx @ [pkt]\<rparr>) len"
    let ?f = "f\<lparr>rf_buffer := r, rf_stats := ?st, rf_expected := rf_expected f + 1\<rparr>"
    have adv: "advances rx f ?rx ?f"
      by (rule advances_step [OF Suc.prems(1,2) rm]) simp_all
    have eq: "drain_loop (Suc n) rx f now_us = drain_loop n ?rx ?f now_us"
      by (simp add: rm deliver_pkt_pair Let_def)
    have "flow_ring_ok ?f" "unat (rg_bytes (rf_buffer ?f)) \<le> unat (rx_pool_bytes_used ?rx)"
      using adv by (simp_all add: advances_def)
    from Suc.IH [OF this] cnt advances_trans [OF adv] show ?thesis unfolding eq by simp
  qed
qed

end
