(* ===== verification/Rx_Ops.thy ===== *)
theory Rx_Ops
  imports Rx_Flow
begin

text \<open>
  What every operation of one flow of \<^verbatim>\<open>src/reorder_rx.c\<close> keeps: the flow invariant (the gap timer
  runs exactly while packets are buffered, the counters of gap periods balance, the buffer is a
  well-formed window), the accounting against the byte pool, and the delivery order.
\<close>

lemma ring_not_contains: "\<not> ring_contains r q \<Longrightarrow> ring_abs r q = None"
  by (simp only: ring_contains_abs simp_thms)

section \<open>The flow invariant\<close>

definition flow_mid0 :: "mqvpn_reorder_flow \<Rightarrow> bool" where
  "flow_mid0 f \<longleftrightarrow>
     flow_ring_ok f \<and>
     gap_open (rf_stats f) = of_bool (rf_gap_timer_active f) \<and>
     length (st_residence_bucket (rf_stats f)) = MQVPN_REORDER_LAT_BUCKETS \<and>
     (rf_gap_timer_active f \<longrightarrow> rf_reord f \<le> rf_rx_next f \<and>
        (rf_expected f < rf_reord f \<longrightarrow> ring_contains (rf_buffer f) (rf_reord f - 1))) \<and>
     (rf_initialized f \<or> ring_empty (rf_buffer f) \<and> rf_rx_next f = 0 \<and> rf_expected f = 0) \<and>
     (rf_pass_through f \<longrightarrow> ring_empty (rf_buffer f))"

definition flow_mid :: "mqvpn_reorder_flow \<Rightarrow> bool" where
  "flow_mid f \<longleftrightarrow> flow_mid0 f \<and> \<not> ring_contains (rf_buffer f) (rf_expected f)"

lemmas flow_mid_defs = flow_mid_def flow_mid0_def

text \<open>At operation boundaries the timer runs exactly while packets are buffered, towards its mark.\<close>

definition flow_inv :: "mqvpn_reorder_flow \<Rightarrow> bool" where
  "flow_inv f \<longleftrightarrow>
     flow_mid f \<and> (rf_gap_timer_active f \<longleftrightarrow> \<not> ring_empty (rf_buffer f)) \<and>
     (rf_gap_timer_active f \<longrightarrow> rf_expected f < rf_reord f)"

definition flow_base :: "mqvpn_reorder_rx \<Rightarrow> mqvpn_reorder_flow \<Rightarrow> bool" where
  "flow_base rx f \<longleftrightarrow>
     unat (rg_bytes (rf_buffer f)) \<le> unat (rx_pool_bytes_used rx) \<and>
     (rf_gap_timer_active f \<longrightarrow> rx_next_gap_us rx \<le> rf_gap_deadline_us f) \<and>
     rx_pool_bytes_used rx \<le> rc_global_max_buffer_bytes (rx_cfg rx) \<and>
     unat (rc_global_max_buffer_bytes (rx_cfg rx)) + 65536 \<le> 2 ^ 64"

definition flow_pre :: "mqvpn_reorder_rx \<Rightarrow> mqvpn_reorder_flow \<Rightarrow> bool" where
  "flow_pre rx f \<longleftrightarrow> flow_inv f \<and> flow_base rx f"

definition flow_frame ::
  "mqvpn_reorder_rx \<Rightarrow> mqvpn_reorder_flow \<Rightarrow> mqvpn_reorder_rx \<Rightarrow> mqvpn_reorder_flow \<Rightarrow> bool" where
  "flow_frame rx f rx' f' \<longleftrightarrow>
     rx_rest rx' = rx_rest rx \<and> rx_next_gap_us rx' \<le> rx_next_gap_us rx \<and>
     rf_key f' = rf_key f \<and> rf_wait_ms f' = rf_wait_ms f \<and>
     rg_cap (rf_buffer f') = rg_cap (rf_buffer f) \<and>
     unat (rx_pool_bytes_used rx') + unat (rg_bytes (rf_buffer f)) =
       unat (rx_pool_bytes_used rx) + unat (rg_bytes (rf_buffer f'))"

lemma flow_frame_refl [simp]: "flow_frame rx f rx f"
  by (simp add: flow_frame_def)

lemma flow_frame_trans:
  "flow_frame rx f rx1 f1 \<Longrightarrow> flow_frame rx1 f1 rx2 f2 \<Longrightarrow> flow_frame rx f rx2 f2"
  by (auto simp: flow_frame_def)

lemma advances_frame: "advances rx f rx' f' \<Longrightarrow> flow_frame rx f rx' f'"
  by (simp add: advances_def flow_frame_def flow_rest_def)

text \<open>Fields no invariant mentions.\<close>

lemma flow_field_updates [simp]:
  "flow_ring_ok (f\<lparr>rf_last_progress_us := t\<rparr>) = flow_ring_ok f"
  "flow_ring_ok (f\<lparr>rf_last_seen_us := t\<rparr>) = flow_ring_ok f"
  "flow_ring_ok (f\<lparr>rf_stats := st\<rparr>) = flow_ring_ok f"
  "flow_ring_ok (f\<lparr>rf_gap_timer_active := a\<rparr>) = flow_ring_ok f"
  "flow_ring_ok (f\<lparr>rf_gap_deadline_us := t\<rparr>) = flow_ring_ok f"
  "flow_ring_ok (f\<lparr>rf_gap_armed_us := t\<rparr>) = flow_ring_ok f"
  "flow_ring_ok (f\<lparr>rf_reord := q\<rparr>) = flow_ring_ok f"
  "flow_mid (f\<lparr>rf_last_progress_us := t\<rparr>) = flow_mid f"
  "flow_mid (f\<lparr>rf_last_seen_us := t\<rparr>) = flow_mid f"
  "flow_mid (f\<lparr>rf_classify_seen := n\<rparr>) = flow_mid f"
  "flow_mid (f\<lparr>rf_classify_large := n\<rparr>) = flow_mid f"
  "flow_inv (f\<lparr>rf_last_progress_us := t\<rparr>) = flow_inv f"
  "flow_inv (f\<lparr>rf_last_seen_us := t\<rparr>) = flow_inv f"
  "flow_inv (f\<lparr>rf_classify_seen := n\<rparr>) = flow_inv f"
  "flow_inv (f\<lparr>rf_classify_large := n\<rparr>) = flow_inv f"
  "flow_base rx (f\<lparr>rf_last_progress_us := t\<rparr>) = flow_base rx f"
  "flow_base rx (f\<lparr>rf_last_seen_us := t\<rparr>) = flow_base rx f"
  "flow_base rx (f\<lparr>rf_classify_seen := n\<rparr>) = flow_base rx f"
  "flow_base rx (f\<lparr>rf_classify_large := n\<rparr>) = flow_base rx f"
  "flow_base rx (f\<lparr>rf_stats := st\<rparr>) = flow_base rx f"
  "flow_base rx (f\<lparr>rf_expected := q\<rparr>) = flow_base rx f"
  "flow_base rx (f\<lparr>rf_initialized := a\<rparr>) = flow_base rx f"
  "flow_base rx (f\<lparr>rf_rx_next := q\<rparr>) = flow_base rx f"
  "flow_base rx (f\<lparr>rf_pass_through := a\<rparr>) = flow_base rx f"
  "flow_base (rx\<lparr>rx_delivered := ds\<rparr>) f = flow_base rx f"
  by (simp_all add: flow_ring_ok_def flow_mid_defs flow_inv_def flow_base_def)

lemma flow_frame_updates [simp]:
  "flow_frame rx f rx' (f'\<lparr>rf_last_progress_us := t\<rparr>) = flow_frame rx f rx' f'"
  "flow_frame rx f rx' (f'\<lparr>rf_stats := st\<rparr>) = flow_frame rx f rx' f'"
  "flow_frame rx f rx' (f'\<lparr>rf_expected := q\<rparr>) = flow_frame rx f rx' f'"
  "flow_frame rx f rx' (f'\<lparr>rf_gap_timer_active := a\<rparr>) = flow_frame rx f rx' f'"
  "flow_frame rx f rx' (f'\<lparr>rf_classify_seen := n\<rparr>) = flow_frame rx f rx' f'"
  "flow_frame rx f rx' (f'\<lparr>rf_classify_large := n\<rparr>) = flow_frame rx f rx' f'"
  "flow_frame rx f rx' (f'\<lparr>rf_initialized := a\<rparr>) = flow_frame rx f rx' f'"
  "flow_frame rx f rx' (f'\<lparr>rf_rx_next := q\<rparr>) = flow_frame rx f rx' f'"
  "flow_frame rx f rx' (f'\<lparr>rf_last_seen_us := t\<rparr>) = flow_frame rx f rx' f'"
  "flow_frame rx f rx' (f'\<lparr>rf_pass_through := a\<rparr>) = flow_frame rx f rx' f'"
  "flow_frame rx f (rx'\<lparr>rx_delivered := ds\<rparr>) f' = flow_frame rx f rx' f'"
  "flow_frame rx (f\<lparr>rf_last_seen_us := t\<rparr>) rx' f' = flow_frame rx f rx' f'"
  "flow_frame rx (f\<lparr>rf_expected := q\<rparr>) rx' f' = flow_frame rx f rx' f'"
  "flow_frame rx (f\<lparr>rf_stats := st\<rparr>) rx' f' = flow_frame rx f rx' f'"
  "flow_frame rx (f\<lparr>rf_last_progress_us := t\<rparr>) rx' f' = flow_frame rx f rx' f'"
  "flow_frame (rx\<lparr>rx_delivered := ds\<rparr>) f rx' f' = flow_frame rx f rx' f'"
  by (simp_all add: flow_frame_def rx_rest_def)

lemma flow_stats_update:
  assumes "gap_open st = gap_open (rf_stats f)"
    and "length (st_residence_bucket st) = length (st_residence_bucket (rf_stats f))"
  shows "flow_mid (f\<lparr>rf_stats := st\<rparr>) = flow_mid f" "flow_inv (f\<lparr>rf_stats := st\<rparr>) = flow_inv f"
  using assms by (simp_all add: flow_mid_defs flow_inv_def)

lemma advances_base: "advances rx f rx' f' \<Longrightarrow> flow_base rx f \<Longrightarrow> flow_base rx' f'"
  unfolding flow_base_def
proof (intro conjI)
  assume adv: "advances rx f rx' f'" and base: "unat (rg_bytes (rf_buffer f)) \<le> unat (rx_pool_bytes_used rx) \<and>
     (rf_gap_timer_active f \<longrightarrow> rx_next_gap_us rx \<le> rf_gap_deadline_us f) \<and>
     rx_pool_bytes_used rx \<le> rc_global_max_buffer_bytes (rx_cfg rx) \<and>
     unat (rc_global_max_buffer_bytes (rx_cfg rx)) + 65536 \<le> 2 ^ 64"
  have eqs: "rf_gap_timer_active f' = rf_gap_timer_active f" "rf_gap_deadline_us f' = rf_gap_deadline_us f"
    "rx_cfg rx' = rx_cfg rx" "rx_next_gap_us rx' = rx_next_gap_us rx"
    using adv by (simp_all add: advances_def flow_rest_def rx_rest_def)
  show "unat (rg_bytes (rf_buffer f')) \<le> unat (rx_pool_bytes_used rx')" using adv by (simp add: advances_def)
  show "rf_gap_timer_active f' \<longrightarrow> rx_next_gap_us rx' \<le> rf_gap_deadline_us f'" using base eqs by simp
  show "unat (rc_global_max_buffer_bytes (rx_cfg rx')) + 65536 \<le> 2 ^ 64" using base eqs by simp
  have "unat (rx_pool_bytes_used rx') \<le> unat (rx_pool_bytes_used rx)" using adv by (simp add: advances_def)
  then show "rx_pool_bytes_used rx' \<le> rc_global_max_buffer_bytes (rx_cfg rx')"
    using base eqs(3) by (simp add: word_le_nat_alt)
qed

lemma ring_contains_advances:
  assumes "advances rx f rx' f'"
  shows "ring_contains (rf_buffer f') q \<longleftrightarrow> rf_expected f' \<le> q \<and> ring_contains (rf_buffer f) q"
  using assms by (auto simp: advances_def ring_contains_abs)

lemma ring_empty_contains:
  assumes "ring_wf r e"
  shows "ring_empty r \<longleftrightarrow> (\<forall>q. \<not> ring_contains r q)"
  using ring_empty_abs [OF assms] by (auto simp: ring_contains_abs fun_eq_iff)

text \<open>
  Delivery order, for packets that carry their sequence number (\<open>tag\<close>): since the deliveries
  \<open>base\<close>, the flow has delivered strictly ascending numbers below its window origin, and holds
  every buffered packet under its own number.
\<close>

definition ord_inv :: "(u8 list \<Rightarrow> u64) \<Rightarrow> u8 list list \<Rightarrow> mqvpn_reorder_rx \<Rightarrow> mqvpn_reorder_flow \<Rightarrow> bool" where
  "ord_inv tag base rx f \<longleftrightarrow>
     (\<exists>ds. rx_delivered rx = base @ ds \<and> sorted_wrt (<) (map tag ds) \<and> (\<forall>d \<in> set ds. tag d < rf_expected f)) \<and>
     (\<forall>q p l t. ring_abs (rf_buffer f) q = Some (p, l, t) \<longrightarrow> tag p = q)"

lemma ord_inv_cong:
  "rx_delivered rx' = rx_delivered rx \<Longrightarrow> rf_expected f' = rf_expected f \<Longrightarrow> rf_buffer f' = rf_buffer f \<Longrightarrow>
   ord_inv tag base rx' f' = ord_inv tag base rx f"
  by (simp add: ord_inv_def)

lemma ord_inv_updates [simp]:
  "ord_inv tag base rx (f\<lparr>rf_last_progress_us := t\<rparr>) = ord_inv tag base rx f"
  "ord_inv tag base rx (f\<lparr>rf_last_seen_us := t\<rparr>) = ord_inv tag base rx f"
  "ord_inv tag base rx (f\<lparr>rf_stats := st\<rparr>) = ord_inv tag base rx f"
  "ord_inv tag base rx (f\<lparr>rf_classify_seen := n\<rparr>) = ord_inv tag base rx f"
  "ord_inv tag base rx (f\<lparr>rf_classify_large := n\<rparr>) = ord_inv tag base rx f"
  "ord_inv tag base rx (f\<lparr>rf_gap_timer_active := a\<rparr>) = ord_inv tag base rx f"
  "ord_inv tag base rx (f\<lparr>rf_pass_through := a\<rparr>) = ord_inv tag base rx f"
  "ord_inv tag base rx (f\<lparr>rf_initialized := a\<rparr>) = ord_inv tag base rx f"
  "ord_inv tag base rx (f\<lparr>rf_rx_next := q\<rparr>) = ord_inv tag base rx f"
  "ord_inv tag base (rx\<lparr>rx_pool_bytes_used := used\<rparr>) f = ord_inv tag base rx f"
  by (simp_all add: ord_inv_def)

lemma ord_advances:
  assumes adv: "advances rx f rx' f'" and o: "ord_inv tag base rx f"
  shows "ord_inv tag base rx' f'"
proof -
  let ?e = "rf_expected f" and ?e' = "rf_expected f'" and ?b = "rf_buffer f"
  obtain ds where ds: "rx_delivered rx = base @ ds" "sorted_wrt (<) (map tag ds)" "\<forall>d \<in> set ds. tag d < ?e"
    using o by (auto simp: ord_inv_def)
  let ?qs = "sorted_list_of_set (window_seqs ?b ?e ?e')"
  have tag: "tag (ring_pkt ?b q) = q" if "q \<in> window_seqs ?b ?e ?e'" for q
  proof -
    have "ring_abs ?b q \<noteq> None" using that by (simp add: window_seqs_def ring_contains_abs)
    then obtain p l t where "ring_abs ?b q = Some (p, l, t)" by (cases "ring_abs ?b q") auto
    then show ?thesis using o by (simp add: ord_inv_def ring_pkt_def)
  qed
  then have tags: "map tag (window_pkts ?b ?e ?e') = ?qs"
    unfolding window_pkts_def map_map by (intro map_idI) simp
  have rng: "?e \<le> q \<and> q < ?e'" if "q \<in> set ?qs" for q using that by (simp add: window_seqs_def)
  have le: "?e \<le> ?e'" using adv by (simp add: advances_def)
  have "sorted_wrt (<) (map tag (ds @ window_pkts ?b ?e ?e'))"
    using ds(2,3) rng by (auto simp: sorted_wrt_append tags intro: order_less_le_trans)
  moreover have "tag d < ?e'" if "d \<in> set (ds @ window_pkts ?b ?e ?e')" for d
  proof (cases "d \<in> set ds")
    case True
    then show ?thesis using ds(3) le by (auto intro: order_less_le_trans)
  next
    case False
    then have "tag d \<in> set ?qs" using that unfolding tags [symmetric] by auto
    then show ?thesis using rng by blast
  qed
  moreover have "rx_delivered rx' = base @ (ds @ window_pkts ?b ?e ?e')"
    using adv ds(1) by (simp add: advances_def)
  moreover have "tag p = q" if "ring_abs (rf_buffer f') q = Some (p, l, t)" for q p l t
    using adv o that by (auto simp: advances_def ord_inv_def split: if_splits)
  ultimately show ?thesis unfolding ord_inv_def by blast
qed

lemma ord_deliver:
  assumes o: "ord_inv tag base rx f" and lo: "rf_expected f \<le> tag pkt" and hi: "tag pkt < e"
    and d: "rx_delivered rx' = rx_delivered rx @ [pkt]" and f': "rf_expected f' = e" "rf_buffer f' = rf_buffer f"
  shows "ord_inv tag base rx' f'"
proof -
  obtain ds where ds: "rx_delivered rx = base @ ds" "sorted_wrt (<) (map tag ds)" "\<forall>d \<in> set ds. tag d < rf_expected f"
    using o by (auto simp: ord_inv_def)
  have "sorted_wrt (<) (map tag (ds @ [pkt]))"
    using ds(2,3) lo by (auto simp: sorted_wrt_append intro: order_less_le_trans)
  moreover have "\<forall>d \<in> set (ds @ [pkt]). tag d < e"
    using ds(3) lo hi by (auto intro: order_less_le_trans order_less_trans)
  moreover have "rx_delivered rx' = base @ (ds @ [pkt])" using d ds(1) by simp
  ultimately show ?thesis using o f' unfolding ord_inv_def by (metis (no_types, lifting))
qed

text \<open>From one middle state to the next along an advance.\<close>

lemma advances_mid:
  assumes adv: "advances rx f rx' f'" and mid: "flow_mid0 f" and nc: "\<not> ring_contains (rf_buffer f') (rf_expected f')"
  shows "flow_mid f'"
proof -
  have eqs: "rf_initialized f' = rf_initialized f" "rf_gap_timer_active f' = rf_gap_timer_active f"
    "rf_reord f' = rf_reord f" "rf_rx_next f' = rf_rx_next f" "rf_pass_through f' = rf_pass_through f"
    "gap_open (rf_stats f') = gap_open (rf_stats f)" "flow_ring_ok f'" "rf_expected f \<le> rf_expected f'"
    "length (st_residence_bucket (rf_stats f')) = length (st_residence_bucket (rf_stats f))"
    using adv by (simp_all add: advances_def flow_rest_def)
  have wf: "ring_wf (rf_buffer f) (rf_expected f)" "ring_wf (rf_buffer f') (rf_expected f')"
    using mid eqs(7) by (simp_all add: flow_mid_defs flow_ring_ok_def)
  have emp: "ring_empty (rf_buffer f) \<Longrightarrow> ring_empty (rf_buffer f')"
    using ring_empty_contains [OF wf(1)] ring_empty_contains [OF wf(2)] ring_contains_advances [OF adv] by blast
  have "ring_contains (rf_buffer f') (rf_reord f - 1)"
    if "rf_gap_timer_active f" "rf_expected f' < rf_reord f"
  proof -
    have "rf_expected f < rf_reord f" using that(2) eqs(8) by (rule order_le_less_trans [rotated])
    then have "ring_contains (rf_buffer f) (rf_reord f - 1)" using mid that by (simp add: flow_mid_defs)
    moreover have "rf_expected f' \<le> rf_reord f - 1"
      using that(2) by (rule le_pred_word)
    ultimately show ?thesis by (simp add: ring_contains_advances [OF adv])
  qed
  moreover have "rf_expected f' = rf_expected f" if "ring_empty (rf_buffer f)"
    using adv that ring_empty_abs [OF wf(1)] by (simp add: advances_def)
  ultimately show ?thesis using mid nc emp eqs by (auto simp: flow_mid_defs)
qed


section \<open>Settling the period\<close>

lemma period_start_frame:
  "flow_frame rx f (fst (period_start_if_needed rx f now_us)) (snd (period_start_if_needed rx f now_us))"
  by (auto simp: period_start_if_needed_def arm_gap_timer_def flow_frame_def rx_rest_def Let_def)

lemma period_start_base:
  "flow_base rx f \<Longrightarrow> flow_base (fst (period_start_if_needed rx f now_us)) (snd (period_start_if_needed rx f now_us))"
  by (auto simp: period_start_if_needed_def arm_gap_timer_def flow_base_def Let_def not_less)

lemma period_start_delivered [simp]:
  "rx_delivered (fst (period_start_if_needed rx f now_us)) = rx_delivered rx"
  "rf_expected (snd (period_start_if_needed rx f now_us)) = rf_expected f"
  "rf_buffer (snd (period_start_if_needed rx f now_us)) = rf_buffer f"
  "rf_pass_through (snd (period_start_if_needed rx f now_us)) = rf_pass_through f"
  "rf_initialized (snd (period_start_if_needed rx f now_us)) = rf_initialized f"
  by (auto simp: period_start_if_needed_def arm_gap_timer_def Let_def)

lemma period_start_inv:
  assumes mid: "flow_mid f"
    and run: "rf_gap_timer_active f \<Longrightarrow> \<not> ring_empty (rf_buffer f) \<and> rf_expected f < rf_reord f"
  shows "flow_inv (snd (period_start_if_needed rx f now_us))"
proof (cases "\<not> rf_gap_timer_active f \<and> \<not> ring_empty (rf_buffer f)")
  case False
  then show ?thesis using mid run by (auto simp: period_start_if_needed_def flow_inv_def)
next
  case True
  let ?f = "snd (period_start_if_needed rx f now_us)"
  have f: "rf_reord ?f = rf_rx_next f" "rf_rx_next ?f = rf_rx_next f" "rf_gap_timer_active ?f"
    "gap_open (rf_stats ?f) = gap_open (rf_stats f) + 1" "rf_initialized ?f = rf_initialized f"
    "st_residence_bucket (rf_stats ?f) = st_residence_bucket (rf_stats f)" "flow_ring_ok ?f = flow_ring_ok f"
    using True by (simp_all add: period_start_if_needed_def arm_gap_timer_def Let_def)
  have ok: "flow_ring_ok f" using mid by (simp add: flow_mid_defs)
  note D = flow_ring_okD [OF ok]
  obtain q where q: "ring_contains (rf_buffer f) q" using True ring_empty_contains [OF D(1)] by blast
  then have "rf_expected f \<le> q" using rb.window [OF D(1)] by (simp add: ring_contains_abs)
  also have "q < rf_rx_next f" using D(3) q .
  finally have lt: "rf_expected f < rf_rx_next f" .
  then have "ring_contains (rf_buffer f) (rf_rx_next f - 1)" using ok by (simp add: flow_ring_ok_def)
  then show ?thesis using mid True f lt by (simp add: flow_inv_def flow_mid_defs)
qed

lemma period_end_mid:
  assumes "flow_mid f" and "\<And>st. gap_open (bump st) = gap_open st - 1"
    and "\<And>st. st_residence_bucket (bump st) = st_residence_bucket st"
  shows "flow_mid (period_end_if_done f bump)"
  using assms by (auto simp: period_end_if_done_def flow_mid_defs stop_gap_timer_def)

lemma period_end_run:
  "rf_gap_timer_active (period_end_if_done f bump) \<Longrightarrow>
   \<not> ring_empty (rf_buffer f) \<and> rf_expected f < rf_reord f"
  by (auto simp: period_end_if_done_def stop_gap_timer_def split: if_splits)

lemma period_end_sel [simp]:
  "rf_buffer (period_end_if_done f bump) = rf_buffer f"
  "rf_expected (period_end_if_done f bump) = rf_expected f"
  "rf_reord (period_end_if_done f bump) = rf_reord f"
  "rf_key (period_end_if_done f bump) = rf_key f"
  "rf_wait_ms (period_end_if_done f bump) = rf_wait_ms f"
  "rf_pass_through (period_end_if_done f bump) = rf_pass_through f"
  "rf_initialized (period_end_if_done f bump) = rf_initialized f"
  by (simp_all add: period_end_if_done_def stop_gap_timer_def)

lemma period_end_base: "flow_base rx f \<Longrightarrow> flow_base rx (period_end_if_done f bump)"
  by (auto simp: period_end_if_done_def stop_gap_timer_def flow_base_def)

lemma settle:
  assumes "flow_mid f" and "flow_base rx f" and "\<And>st. gap_open (bump st) = gap_open st - 1"
    and "\<And>st. st_residence_bucket (bump st) = st_residence_bucket st"
  shows "flow_pre (fst (period_start_if_needed rx (period_end_if_done f bump) now_us))
                  (snd (period_start_if_needed rx (period_end_if_done f bump) now_us)) \<and>
         flow_frame rx f (fst (period_start_if_needed rx (period_end_if_done f bump) now_us))
                         (snd (period_start_if_needed rx (period_end_if_done f bump) now_us))"
proof -
  let ?f = "period_end_if_done f bump"
  have "flow_inv (snd (period_start_if_needed rx ?f now_us))"
    using period_end_run by (intro period_start_inv period_end_mid assms) auto
  moreover have "flow_frame rx f rx ?f" by (simp add: flow_frame_def)
  ultimately show ?thesis
    using flow_frame_trans period_start_frame period_start_base [OF period_end_base [OF assms(2)]]
    by (auto simp: flow_pre_def)
qed


section \<open>Operations\<close>

lemma drain_contiguous_advances:
  assumes "flow_ring_ok f" and "unat (rg_bytes (rf_buffer f)) \<le> unat (rx_pool_bytes_used rx)"
    and "drain_contiguous rx f now_us = (rx', f')"
  shows "advances rx f rx' f'" "\<not> ring_contains (rf_buffer f') (rf_expected f')"
  using drain_loop_advances [OF assms(1,2) order_refl, of now_us] assms(3)
  by (simp_all add: drain_contiguous_def)

text \<open>An advance past the lowest packet delivers it, so the ring shrinks.\<close>

lemma advances_count:
  assumes adv: "advances rx f rx' f'" and ok: "flow_ring_ok f"
    and q: "ring_contains (rf_buffer f) q" "q < rf_expected f'"
  shows "unat (rg_count (rf_buffer f')) < unat (rg_count (rf_buffer f))"
proof -
  have wf: "ring_wf (rf_buffer f) (rf_expected f)" "ring_wf (rf_buffer f') (rf_expected f')"
    using adv ok by (simp_all add: advances_def flow_ring_ok_def)
  have "q \<notin> {p. ring_contains (rf_buffer f') p}" "q \<in> {p. ring_contains (rf_buffer f) p}"
    using q by (simp_all add: ring_contains_advances [OF adv])
  moreover have "{p. ring_contains (rf_buffer f') p} \<subseteq> {p. ring_contains (rf_buffer f) p}"
    by (auto simp: ring_contains_advances [OF adv])
  ultimately have "{p. ring_contains (rf_buffer f') p} \<subset> {p. ring_contains (rf_buffer f) p}" by blast
  then show ?thesis
    by (simp add: ring_count_card [OF wf(1)] ring_count_card [OF wf(2)] psubset_card_mono)
qed

text \<open>Skipping the gap at the head and draining.\<close>

lemma skip_drain_advances:
  assumes ok: "flow_ring_ok f" and ne: "\<not> ring_empty (rf_buffer f)"
    and pool: "unat (rg_bytes (rf_buffer f)) \<le> unat (rx_pool_bytes_used rx)"
    and d: "drain_contiguous rx (f\<lparr>rf_expected := ring_lowest_seq (rf_buffer f) (rf_expected f)\<rparr>) now_us = (rx', f')"
  shows "advances rx f rx' f'" "\<not> ring_contains (rf_buffer f') (rf_expected f')"
    "unat (rg_count (rf_buffer f')) < unat (rg_count (rf_buffer f))"
proof -
  let ?low = "ring_lowest_seq (rf_buffer f) (rf_expected f)"
  let ?f = "f\<lparr>rf_expected := ?low\<rparr>"
  note D = flow_ring_okD [OF ok]
  note low = rb.skip_inv [OF D(1) ne]
  have nx: "?low < rf_rx_next f" using D(3) low(2) .
  have "?low \<le> 2 ^ 48" using nx D(4) by (meson order_le_less order_less_le_trans)
  then have okf: "flow_ring_ok ?f"
    using ok low nx D order_le_less_trans [OF low(3) nx] by (auto simp: flow_ring_ok_def)
  have least: "ring_abs (rf_buffer f) q = None" if "q < ?low" for q
    using low(1) that by (rule ring_abs_below)
  have "\<not> (\<forall>q. ring_abs (rf_buffer f) q = None)" using low(2) by (auto simp: ring_contains_abs)
  then have adv1: "advances rx f rx ?f"
    using okf low(3) pool least
    by (auto simp: advances_def flow_rest_def window_pkts_empty ring_contains_abs)
  have "unat (rg_bytes (rf_buffer ?f)) \<le> unat (rx_pool_bytes_used rx)" using pool by simp
  note dr = drain_contiguous_advances [OF okf this d]
  show adv: "advances rx f rx' f'" using adv1 dr(1) by (rule advances_trans)
  show nc: "\<not> ring_contains (rf_buffer f') (rf_expected f')" by (rule dr)
  have "rf_expected f' \<noteq> ?low"
    using nc low(2) ring_contains_advances [OF adv, of ?low] by auto
  moreover have "?low \<le> rf_expected f'" using dr(1) by (simp add: advances_def)
  ultimately show "unat (rg_count (rf_buffer f')) < unat (rg_count (rf_buffer f))"
    using advances_count [OF adv ok low(2)] by simp
qed


lemma timeout_loop_advances:
  assumes "flow_ring_ok f" and "unat (rg_bytes (rf_buffer f)) \<le> unat (rx_pool_bytes_used rx)"
    and "unat (rg_count (rf_buffer f)) \<le> n" and "timeout_loop n rx f now_us = (rx', f')"
    and "\<not> ring_contains (rf_buffer f) (rf_expected f)"
  shows "advances rx f rx' f' \<and> \<not> ring_contains (rf_buffer f') (rf_expected f') \<and>
         (ring_empty (rf_buffer f') \<or> rf_reord f' \<le> rf_expected f')"
  using assms
proof (induction n arbitrary: rx f)
  case 0
  then have "ring_empty (rf_buffer f)" by (simp add: ring_empty_def unat_eq_0)
  then show ?case using 0 by (simp add: advances_refl)
next
  case (Suc n)
  show ?case
  proof (cases "\<not> ring_empty (rf_buffer f) \<and> rf_expected f < rf_reord f")
    case False
    then have "rx' = rx \<and> f' = f"
      using Suc.prems(4) unfolding timeout_loop.simps if_not_P [OF False] by simp
    then show ?thesis using False Suc.prems by (auto simp: advances_refl not_less)
  next
    case True
    obtain rx1 f1 where d: "drain_contiguous rx
        (f\<lparr>rf_expected := ring_lowest_seq (rf_buffer f) (rf_expected f)\<rparr>) now_us = (rx1, f1)"
      by fastforce
    note sk = skip_drain_advances [OF Suc.prems(1) conjunct1 [OF True] Suc.prems(2) d]
    have "timeout_loop n rx1 f1 now_us = (rx', f')"
      using Suc.prems(4) True d by (simp add: Let_def)
    moreover have "flow_ring_ok f1" "unat (rg_bytes (rf_buffer f1)) \<le> unat (rx_pool_bytes_used rx1)"
      using sk(1) by (simp_all add: advances_def)
    moreover have "unat (rg_count (rf_buffer f1)) \<le> n" using sk(3) Suc.prems(3) by simp
    ultimately have "advances rx1 f1 rx' f' \<and> \<not> ring_contains (rf_buffer f') (rf_expected f') \<and>
         (ring_empty (rf_buffer f') \<or> rf_reord f' \<le> rf_expected f')"
      using sk(2) by (intro Suc.IH)
    then show ?thesis using advances_trans [OF sk(1)] by blast
  qed
qed

lemma demote_loop_advances:
  assumes "flow_ring_ok f" and "unat (rg_bytes (rf_buffer f)) \<le> unat (rx_pool_bytes_used rx)"
    and "unat (rg_count (rf_buffer f)) \<le> n" and "demote_loop n rx f now_us = (rx', f')"
  shows "advances rx f rx' f' \<and> ring_empty (rf_buffer f')"
  using assms
proof (induction n arbitrary: rx f)
  case 0
  then have "ring_empty (rf_buffer f)" by (simp add: ring_empty_def unat_eq_0)
  then show ?case using 0 by (simp add: advances_refl)
next
  case (Suc n)
  show ?case
  proof (cases "ring_empty (rf_buffer f)")
    case True
    then show ?thesis using Suc.prems by (auto simp: advances_refl)
  next
    case False
    obtain rx1 f1 where d: "drain_contiguous rx
        (f\<lparr>rf_expected := ring_lowest_seq (rf_buffer f) (rf_expected f)\<rparr>) now_us = (rx1, f1)"
      by fastforce
    note sk = skip_drain_advances [OF Suc.prems(1) False Suc.prems(2) d]
    have "demote_loop n rx1 f1 now_us = (rx', f')"
      using Suc.prems(4) False d by (simp add: Let_def)
    moreover have "flow_ring_ok f1" "unat (rg_bytes (rf_buffer f1)) \<le> unat (rx_pool_bytes_used rx1)"
      using sk(1) by (simp_all add: advances_def)
    moreover have "unat (rg_count (rf_buffer f1)) \<le> n" using sk(3) Suc.prems(3) by simp
    ultimately have "advances rx1 f1 rx' f' \<and> ring_empty (rf_buffer f')" by (intro Suc.IH)
    then show ?thesis using advances_trans [OF sk(1)] by blast
  qed
qed

lemma flow_preD:
  assumes "flow_pre rx f"
  shows "flow_inv f" "flow_base rx f" "flow_mid f" "flow_ring_ok f" "ring_wf (rf_buffer f) (rf_expected f)"
    "\<not> ring_contains (rf_buffer f) (rf_expected f)"
    "unat (rg_bytes (rf_buffer f)) \<le> unat (rx_pool_bytes_used rx)"
  using assms by (simp_all add: flow_pre_def flow_inv_def flow_mid_defs flow_ring_ok_def flow_base_def)

text \<open>What every operation does to a flow that satisfies its precondition.\<close>

definition flow_op ::
  "(u8 list \<Rightarrow> u64) set \<Rightarrow> mqvpn_reorder_rx \<Rightarrow> mqvpn_reorder_flow \<Rightarrow> mqvpn_reorder_rx \<times> mqvpn_reorder_flow \<Rightarrow> bool" where
  "flow_op T rx f r \<longleftrightarrow>
     flow_pre (fst r) (snd r) \<and> flow_frame rx f (fst r) (snd r) \<and>
     (\<forall>tag \<in> T. \<forall>base. ord_inv tag base rx f \<longrightarrow> ord_inv tag base (fst r) (snd r))"

lemma flow_op_trans: "flow_op T rx f (rx1, f1) \<Longrightarrow> flow_op T rx1 f1 r \<Longrightarrow> flow_op T rx f r"
  by (auto simp: flow_op_def intro: flow_frame_trans)

lemma flow_op_stats:
  assumes "flow_pre rx f" and "gap_open st = gap_open (rf_stats f)"
    and "st_residence_bucket st = st_residence_bucket (rf_stats f)"
  shows "flow_op T rx f (rx, f\<lparr>rf_stats := st\<rparr>)"
  using assms flow_stats_update(2) [of st f] by (simp add: flow_op_def flow_pre_def)

lemma flow_op_settle:
  assumes "advances rx f rx1 f1" and "flow_mid f1" and "flow_base rx1 f1"
    and "\<And>st. gap_open (bump st) = gap_open st - 1"
    and "\<And>st. st_residence_bucket (bump st) = st_residence_bucket st"
  shows "flow_op T rx f (period_start_if_needed rx1 (period_end_if_done (f1\<lparr>rf_last_progress_us := t\<rparr>) bump) now_us)"
proof -
  let ?f1 = "f1\<lparr>rf_last_progress_us := t\<rparr>"
  let ?r = "period_start_if_needed rx1 (period_end_if_done ?f1 bump) now_us"
  have "flow_pre (fst ?r) (snd ?r) \<and> flow_frame rx1 ?f1 (fst ?r) (snd ?r)"
    using assms by (intro settle) auto
  moreover have "flow_frame rx f rx1 ?f1" using advances_frame [OF assms(1)] by simp
  moreover have "ord_inv tag base (fst ?r) (snd ?r)" if "ord_inv tag base rx f" for tag base
    using ord_advances [OF assms(1) that] ord_inv_cong [of "fst ?r" rx1 "snd ?r" f1 tag base] by simp
  ultimately show ?thesis unfolding flow_op_def by (blast intro: flow_frame_trans)
qed

lemma overflow_flush_op:
  assumes "flow_pre rx f" and "\<not> ring_empty (rf_buffer f)"
  shows "flow_op T rx f (overflow_flush rx f now_us)"
    "rf_initialized (snd (overflow_flush rx f now_us)) = rf_initialized f"
    "rf_pass_through (snd (overflow_flush rx f now_us)) = rf_pass_through f"
proof -
  note P = flow_preD [OF assms(1)]
  let ?low = "ring_lowest_seq (rf_buffer f) (rf_expected f)"
  have "rf_expected f \<le> ?low" "ring_contains (rf_buffer f) ?low"
    using rb.skip_inv [OF P(5) assms(2)] by blast+
  then have "?low > rf_expected f" using P(6) by (metis order_le_less)
  moreover obtain rx1 f1 where d: "drain_contiguous rx (f\<lparr>rf_expected := ?low\<rparr>) now_us = (rx1, f1)"
    by fastforce
  ultimately have eq: "overflow_flush rx f now_us =
      period_start_if_needed rx1 (period_end_if_done (f1\<lparr>rf_last_progress_us := now_us\<rparr>) bump_gap_overflow) now_us"
    by (simp add: overflow_flush_def skip_to_lowest_and_drain_def Let_def)
  note sk = skip_drain_advances [OF P(4) assms(2) P(7) d]
  have "flow_mid f1" using sk(1) conjunct1 [OF P(3) [unfolded flow_mid_def]] sk(2) by (rule advances_mid)
  moreover have "flow_base rx1 f1" using sk(1) P(2) by (rule advances_base)
  ultimately show "flow_op T rx f (overflow_flush rx f now_us)"
    unfolding eq using sk(1) by (intro flow_op_settle) auto
  show "rf_initialized (snd (overflow_flush rx f now_us)) = rf_initialized f"
    "rf_pass_through (snd (overflow_flush rx f now_us)) = rf_pass_through f"
    using sk(1) by (simp_all add: eq advances_def flow_rest_def)
qed

lemma on_gap_timeout_op:
  assumes "flow_inv f" and "flow_base rx (f\<lparr>rf_gap_timer_active := False\<rparr>)" and "rf_gap_timer_active f"
  shows "flow_op T rx f (on_gap_timeout rx f now_us)"
    "rf_gap_timer_active (snd (on_gap_timeout rx f now_us)) \<longrightarrow>
     rf_gap_deadline_us (snd (on_gap_timeout rx f now_us)) = now_us + ucast (rf_wait_ms f) * 1000"
    "rf_pass_through (snd (on_gap_timeout rx f now_us)) = rf_pass_through f"
    "rx_delivered (fst (on_gap_timeout rx f now_us)) = rx_delivered rx @
       window_pkts (rf_buffer f) (rf_expected f) (rf_expected (snd (on_gap_timeout rx f now_us)))"
    "ring_empty (rf_buffer (snd (on_gap_timeout rx f now_us))) \<or>
       rf_reord f \<le> rf_expected (snd (on_gap_timeout rx f now_us))"
    "ring_abs (rf_buffer (snd (on_gap_timeout rx f now_us))) q =
       (if q < rf_expected (snd (on_gap_timeout rx f now_us)) then None else ring_abs (rf_buffer f) q)"
    "rx_next_gap_us (fst (on_gap_timeout rx f now_us)) = rx_next_gap_us rx \<or>
       rx_next_gap_us (fst (on_gap_timeout rx f now_us)) = now_us + ucast (rf_wait_ms f) * 1000"
proof -
  have P: "flow_mid f" "flow_ring_ok f" "\<not> ring_contains (rf_buffer f) (rf_expected f)"
      "unat (rg_bytes (rf_buffer f)) \<le> unat (rx_pool_bytes_used rx)"
    using assms(1,2) by (simp_all add: flow_inv_def flow_mid_defs flow_base_def)
  have ne: "\<not> ring_empty (rf_buffer f)" using assms(1,3) by (simp add: flow_inv_def)
  let ?f0 = "f\<lparr>rf_stats := st_gap_timeout_count_update (\<lambda>n. n + 1) (rf_stats f)\<rparr>"
  obtain rx1 f1 where t: "timeout_loop (unat (rg_count (rf_buffer f))) rx ?f0 now_us = (rx1, f1)" by fastforce
  have adv: "advances rx ?f0 rx1 f1 \<and> \<not> ring_contains (rf_buffer f1) (rf_expected f1) \<and>
         (ring_empty (rf_buffer f1) \<or> rf_reord f1 \<le> rf_expected f1)"
    using P(2,3,4) t by (intro timeout_loop_advances) auto
  let ?f2 = "stop_gap_timer (f1\<lparr>rf_last_progress_us := now_us\<rparr>)"
  have eq: "on_gap_timeout rx f now_us = period_start_if_needed rx1 ?f2 now_us"
    using ne t by (simp add: on_gap_timeout_def Let_def)
  have a0: "advances rx (?f0\<lparr>rf_gap_timer_active := False\<rparr>) rx1 (f1\<lparr>rf_gap_timer_active := False\<rparr>)"
    using adv by (auto simp: advances_def flow_rest_def)
  have mid: "flow_mid (?f2\<lparr>rf_gap_timer_active := False\<rparr>)"
  proof -
    have m0: "flow_mid0 (?f0\<lparr>rf_gap_timer_active := False\<rparr>)" using P(1) assms(3) by (simp add: flow_mid_defs)
    have "flow_mid (f1\<lparr>rf_gap_timer_active := False\<rparr>)"
      by (rule advances_mid [OF a0 m0]) (use adv in simp)
    then show ?thesis by (simp add: stop_gap_timer_def flow_mid_defs flow_ring_ok_def)
  qed
  have base: "flow_base rx1 ?f2"
    using advances_base [OF a0] assms(2) by (simp add: flow_base_def stop_gap_timer_def)
  have "flow_inv (snd (period_start_if_needed rx1 ?f2 now_us))"
    using mid by (intro period_start_inv) (auto simp: stop_gap_timer_def)
  moreover have "flow_frame rx f (fst (period_start_if_needed rx1 ?f2 now_us)) (snd (period_start_if_needed rx1 ?f2 now_us))"
    by (rule flow_frame_trans [OF _ period_start_frame])
      (use advances_frame [of rx ?f0 rx1 f1] adv in \<open>simp add: stop_gap_timer_def\<close>)
  moreover have "ord_inv tag base0 (fst (period_start_if_needed rx1 ?f2 now_us)) (snd (period_start_if_needed rx1 ?f2 now_us))"
    if "ord_inv tag base0 rx f" for tag base0
  proof -
    have "ord_inv tag base0 rx1 f1" by (rule ord_advances [OF conjunct1 [OF adv]]) (use that in simp)
    moreover have "ord_inv tag base0 (fst (period_start_if_needed rx1 ?f2 now_us)) (snd (period_start_if_needed rx1 ?f2 now_us)) =
        ord_inv tag base0 rx1 f1"
      by (rule ord_inv_cong) (simp_all add: stop_gap_timer_def)
    ultimately show ?thesis by simp
  qed
  ultimately show "flow_op T rx f (on_gap_timeout rx f now_us)"
    using period_start_base [OF base, of now_us] by (simp add: flow_op_def eq flow_pre_def)
  have w: "rf_wait_ms f1 = rf_wait_ms f" "rf_pass_through f1 = rf_pass_through f"
    using adv by (simp_all add: advances_def flow_rest_def)
  then show "rf_gap_timer_active (snd (on_gap_timeout rx f now_us)) \<longrightarrow>
     rf_gap_deadline_us (snd (on_gap_timeout rx f now_us)) = now_us + ucast (rf_wait_ms f) * 1000"
    by (simp add: eq period_start_if_needed_def arm_gap_timer_def stop_gap_timer_def Let_def)
  show "rf_pass_through (snd (on_gap_timeout rx f now_us)) = rf_pass_through f"
    using w by (simp add: eq stop_gap_timer_def)
  show "rx_delivered (fst (on_gap_timeout rx f now_us)) = rx_delivered rx @
       window_pkts (rf_buffer f) (rf_expected f) (rf_expected (snd (on_gap_timeout rx f now_us)))"
    "ring_empty (rf_buffer (snd (on_gap_timeout rx f now_us))) \<or>
       rf_reord f \<le> rf_expected (snd (on_gap_timeout rx f now_us))"
    "ring_abs (rf_buffer (snd (on_gap_timeout rx f now_us))) q =
       (if q < rf_expected (snd (on_gap_timeout rx f now_us)) then None else ring_abs (rf_buffer f) q)"
    using adv unfolding eq advances_def flow_rest_def by (auto simp: stop_gap_timer_def)
  have "rx_next_gap_us rx1 = rx_next_gap_us rx" using adv by (simp add: advances_def)
  then show "rx_next_gap_us (fst (on_gap_timeout rx f now_us)) = rx_next_gap_us rx \<or>
       rx_next_gap_us (fst (on_gap_timeout rx f now_us)) = now_us + ucast (rf_wait_ms f) * 1000"
    using w(1) by (auto simp: eq period_start_if_needed_def arm_gap_timer_def stop_gap_timer_def Let_def)
qed


lemma deliver_in_order_op:
  assumes "flow_pre rx f" and "rf_initialized f" and "\<not> rf_pass_through f" and "rf_expected f < 2 ^ 48"
    and "\<forall>tag \<in> T. tag pkt = rf_expected f"
  shows "flow_op T rx f (snd (deliver_in_order rx f pkt now_us))"
proof -
  note P = flow_preD [OF assms(1)]
  note D = flow_ring_okD [OF P(4)]
  let ?rx1 = "rx\<lparr>rx_delivered := rx_delivered rx @ [pkt]\<rparr>"
  let ?f1 = "f\<lparr>rf_stats := residence_stats (st_delivered_count_update (\<lambda>n. n + 1) (rf_stats f)) now_us now_us,
     rf_expected := rf_expected f + 1, rf_last_progress_us := now_us\<rparr>"
  have inc: "unat (rf_expected f + 1) = unat (rf_expected f) + 1" using D(2) by (rule unat_inc)
  have wf: "ring_wf (rf_buffer f) (rf_expected f + 1)"
  proof (rule rb.advance [OF D(1)])
    show "rf_expected f \<le> rf_expected f + 1" using D(2) by (rule le_inc)
    fix q assume q: "ring_abs (rf_buffer f) q \<noteq> None"
    then have "rf_expected f \<le> q" using D(1) by (intro rb.window)
    moreover have "q \<noteq> rf_expected f" using P(6) q by (auto simp: ring_contains_abs)
    ultimately show "rf_expected f + 1 \<le> q" using inc by (auto simp: word_le_nat_alt word_unat_eq_iff)
  qed
  have ok: "flow_ring_ok ?f1"
    using P(4) wf assms(4) inc by (auto simp: flow_ring_ok_def word_le_nat_alt word_less_nat_alt)
  obtain rx2 f2 where d: "drain_contiguous ?rx1 ?f1 now_us = (rx2, f2)" by fastforce
  have pool: "unat (rg_bytes (rf_buffer ?f1)) \<le> unat (rx_pool_bytes_used ?rx1)" using P(7) by simp
  note dr = drain_contiguous_advances [OF ok pool d]
  have "rf_expected f < rf_expected f + 1" using inc by (simp add: word_less_nat_alt)
  then have "flow_mid0 ?f1"
    using P(3) ok assms(2,3) by (auto simp: flow_mid_defs)
  then have mid: "flow_mid f2" using dr by (intro advances_mid)
  have base: "flow_base rx2 f2" using dr(1) P(2) by (elim advances_base) simp
  have eq: "snd (deliver_in_order rx f pkt now_us) =
      period_start_if_needed rx2 (period_end_if_done f2 bump_gap_filled) now_us"
    using d by (simp add: deliver_in_order_def deliver_pkt_pair Let_def split_beta)
  have "flow_op T ?rx1 ?f1 (snd (deliver_in_order rx f pkt now_us))"
    using flow_op_settle [OF dr(1) mid base, of bump_gap_filled T "rf_last_progress_us f2" now_us] unfolding eq by simp
  moreover have "ord_inv tag base0 ?rx1 ?f1" if "tag \<in> T" "ord_inv tag base0 rx f" for tag base0
    using that(2) by (rule ord_deliver) (use assms(5) that(1) \<open>rf_expected f < rf_expected f + 1\<close> in auto)
  ultimately show ?thesis by (auto simp: flow_op_def)
qed

lemma buffer_insert_committed_op:
  assumes pre: "flow_pre rx f" and init: "rf_initialized f" "\<not> rf_pass_through f"
    and q: "rf_expected f < seq" "seq < 2 ^ 48" "\<not> ring_far_ahead (rf_buffer f) seq (rf_expected f)"
      "\<not> ring_contains (rf_buffer f) seq"
    and room: "\<not> pool_would_exhaust rx len" and tag: "\<forall>tag \<in> T. tag pkt = seq"
  shows "flow_op T rx f (snd (buffer_insert_committed al rx f seq pkt len now_us))"
proof -
  note P = flow_preD [OF pre]
  note D = flow_ring_okD [OF P(4)]
  have drop: "flow_op T rx f (rx, f\<lparr>rf_stats := st_pool_drop_count_update (\<lambda>n. n + 1) (rf_stats f)\<rparr>)"
    using pre by (intro flow_op_stats) auto
  show ?thesis
  proof (cases "al_copy al")
    case False
    then show ?thesis using drop by (simp add: buffer_insert_committed_def Let_def)
  next
    case True
    show ?thesis
    proof (cases "ring_insert (al_slots al) (rf_buffer f) seq pkt len (rf_expected f) now_us")
      case None
      then show ?thesis using drop True by (simp add: buffer_insert_committed_def Let_def)
    next
      case (Some r)
      have ins: "ring_wf r (rf_expected f)" "ring_abs r = (ring_abs (rf_buffer f))(seq \<mapsto> (pkt, len, now_us))"
        "unat (rg_bytes r) = unat (rg_bytes (rf_buffer f)) + unat len" "rg_cap r = rg_cap (rf_buffer f)"
        using ring_insert_ok [OF D(1) less_imp_le [OF q(1)] q(3) ring_not_contains [OF q(4)] Some] by simp_all
      have cont: "ring_contains r x \<longleftrightarrow> x = seq \<or> ring_contains (rf_buffer f) x" for x
        by (simp add: ring_contains_abs ins(2))
      have sq: "unat (seq + 1) = unat seq + 1" using q(2) le_48_neq_max by (intro unat_inc) auto
      let ?nx = "if seq + 1 > rf_rx_next f then seq + 1 else rf_rx_next f"
      let ?rx = "rx\<lparr>rx_pool_bytes_used := rx_pool_bytes_used rx + ucast len\<rparr>"
      let ?f = "f\<lparr>rf_buffer := r, rf_last_progress_us := now_us, rf_rx_next := ?nx\<rparr>"
      have pl: "unat (rx_pool_bytes_used rx + ucast len) = unat (rx_pool_bytes_used rx) + unat len"
        "rx_pool_bytes_used rx + ucast len \<le> rc_global_max_buffer_bytes (rx_cfg rx)"
      proof -
        have "unat (rx_pool_bytes_used rx) + unat len < 2 ^ 64"
          using P(2) unat_u16_lt [of len] by (simp add: flow_base_def word_le_nat_alt)
        then show "unat (rx_pool_bytes_used rx + ucast len) = unat (rx_pool_bytes_used rx) + unat len"
          by (simp add: unat_word_ariths)
        show "rx_pool_bytes_used rx + ucast len \<le> rc_global_max_buffer_bytes (rx_cfg rx)"
          using room by (simp add: pool_would_exhaust_def not_less)
      qed
      have ok: "flow_ring_ok ?f"
      proof -
        have "x < ?nx" if "ring_contains r x" for x
          using that D(3) [of x] sq by (auto simp: cont word_less_nat_alt)
        moreover have "ring_contains r (?nx - 1)"
        proof (cases "seq + 1 > rf_rx_next f")
          case True
          then show ?thesis by (simp add: cont)
        next
          case False
          then have "seq < rf_rx_next f" using sq by (simp add: word_less_nat_alt)
          then have "rf_expected f < rf_rx_next f" using q(1) by simp
          then show ?thesis using False P(4) by (simp add: cont flow_ring_ok_def)
        qed
        moreover have "?nx \<le> 2 ^ 48" using D(4) q(2) sq by (simp add: word_le_nat_alt word_less_nat_alt)
        ultimately show ?thesis using ins(1) D(5) by (simp add: flow_ring_ok_def)
      qed
      have ne: "\<not> ring_empty r" using ring_empty_contains [OF ins(1)] cont by blast
      have mid: "flow_mid ?f"
      proof -
        have "\<not> ring_contains r (rf_expected f)" using P(6) q(1) by (simp add: cont)
        moreover have "rf_reord f \<le> ?nx" if "rf_reord f \<le> rf_rx_next f" using that by auto
        ultimately show ?thesis using P(3) ok init by (auto simp: flow_mid_defs cont)
      qed
      have base: "flow_base ?rx ?f" using P(2,7) pl ins(3) by (simp add: flow_base_def)
      have inv: "flow_inv (snd (period_start_if_needed ?rx ?f now_us))"
        using mid P(1) ne by (intro period_start_inv) (auto simp: flow_inv_def)
      have "flow_frame rx f ?rx ?f" using pl ins(3,4) by (simp add: flow_frame_def rx_rest_def)
      moreover have "ord_inv tag base0 (fst (period_start_if_needed ?rx ?f now_us)) (snd (period_start_if_needed ?rx ?f now_us))"
        if "tag \<in> T" "ord_inv tag base0 rx f" for tag base0
      proof -
        have "ord_inv tag base0 ?rx ?f" using that tag by (auto simp: ord_inv_def ins(2))
        moreover have "ord_inv tag base0 (fst (period_start_if_needed ?rx ?f now_us)) (snd (period_start_if_needed ?rx ?f now_us)) =
            ord_inv tag base0 ?rx ?f"
          by (rule ord_inv_cong) simp_all
        ultimately show ?thesis by simp
      qed
      ultimately have "flow_op T rx f (period_start_if_needed ?rx ?f now_us)"
        using inv period_start_base [OF base] period_start_frame flow_frame_trans
        unfolding flow_op_def flow_pre_def by blast
      moreover have "snd (buffer_insert_committed al rx f seq pkt len now_us) = period_start_if_needed ?rx ?f now_us"
        using True Some by (simp add: buffer_insert_committed_def Let_def split_beta)
      ultimately show ?thesis by simp
    qed
  qed
qed


lemma reclassify_after_flush_op:
  assumes pre: "flow_pre rx f" and init: "rf_initialized f" "\<not> rf_pass_through f" and seq: "seq < 2 ^ 48"
    and tag: "\<forall>tag \<in> T. tag pkt = seq" and r: "reclassify_after_flush rx f seq pkt now_us = (res, rx', f')"
  shows "flow_op T rx f (rx', f')"
    "res = REORDER_BUFFERED \<Longrightarrow>
       rx' = rx \<and> f' = f \<and> rf_expected f < seq \<and> \<not> ring_far_ahead (rf_buffer f) seq (rf_expected f) \<and>
       \<not> ring_contains (rf_buffer f) seq"
proof -
  have st: "flow_op T rx f (rx, f\<lparr>rf_stats := st\<rparr>)"
    if "gap_open st = gap_open (rf_stats f)" "st_residence_bucket st = st_residence_bucket (rf_stats f)" for st
    using pre that by (intro flow_op_stats)
  have "flow_op T rx f (snd (deliver_in_order rx f pkt now_us))" if "seq = rf_expected f"
    using deliver_in_order_op [OF pre init] seq tag that by simp
  moreover have "flow_op T rx f (rx, f)" using pre by (simp add: flow_op_def)
  ultimately show "flow_op T rx f (rx', f')"
    using r st by (auto simp: reclassify_after_flush_def split: if_splits)
  show "rx' = rx \<and> f' = f \<and> rf_expected f < seq \<and> \<not> ring_far_ahead (rf_buffer f) seq (rf_expected f) \<and>
       \<not> ring_contains (rf_buffer f) seq" if "res = REORDER_BUFFERED"
    using r that by (auto simp: reclassify_after_flush_def deliver_in_order_def Let_def split_beta
        split: if_splits)
qed

lemma admit_pool_op:
  assumes pre: "flow_pre rx f" and init: "rf_initialized f" "\<not> rf_pass_through f"
    and q: "rf_expected f < seq" "seq < 2 ^ 48" "\<not> ring_far_ahead (rf_buffer f) seq (rf_expected f)"
      "\<not> ring_contains (rf_buffer f) seq" and tag: "\<forall>tag \<in> T. tag pkt = seq"
  shows "flow_op T rx f (snd (admit_pool al rx f seq pkt len now_us))"
proof (cases "pool_would_exhaust rx len")
  case False
  then show ?thesis using buffer_insert_committed_op [OF pre init q _ tag] by (simp add: admit_pool_def)
next
  case full: True
  show ?thesis
  proof (cases "ring_empty (rf_buffer f)")
    case True
    have "flow_op T rx f (rx, f\<lparr>rf_stats := st_pool_drop_count_update (\<lambda>n. n + 1) (rf_stats f)\<rparr>)"
      using pre by (intro flow_op_stats) auto
    then show ?thesis using full True by (simp add: admit_pool_def)
  next
    case False
    obtain rx1 f1 where o: "overflow_flush rx f now_us = (rx1, f1)" by fastforce
    note fl = overflow_flush_op [OF pre False, where now_us = now_us, unfolded o, simplified]
    obtain res rx2 f2 where r: "reclassify_after_flush rx1 f1 seq pkt now_us = (res, rx2, f2)"
      by (cases "reclassify_after_flush rx1 f1 seq pkt now_us")
    have pre1: "flow_pre rx1 f1" using fl(1) by (simp add: flow_op_def)
    have init1: "rf_initialized f1" "\<not> rf_pass_through f1" using fl(2,3) init by simp_all
    note rc = reclassify_after_flush_op [OF pre1 init1 q(2) tag r]
    have "flow_op T rx1 f1 (snd (admit_pool al rx f seq pkt len now_us))"
    proof (cases "res = REORDER_BUFFERED")
      case False
      then show ?thesis using full \<open>\<not> ring_empty _\<close> o r rc(1) by (simp add: admit_pool_def)
    next
      case True
      note b = rc(2) [OF True]
      have "flow_op T rx1 f1 (rx1, f1\<lparr>rf_stats := st_pool_drop_count_update (\<lambda>n. n + 1) (rf_stats f1)\<rparr>)"
        using pre1 by (intro flow_op_stats) auto
      then show ?thesis
        using full \<open>\<not> ring_empty _\<close> o r b True
          buffer_insert_committed_op [OF pre1 init1 _ q(2) _ _ _ tag, where len = len and al = al and now_us = now_us]
        by (simp add: admit_pool_def)
    qed
    with fl(1) show ?thesis by (rule flow_op_trans)
  qed
qed

lemma buffer_admit_op:
  assumes pre: "flow_pre rx f" and init: "rf_initialized f" "\<not> rf_pass_through f"
    and q: "rf_expected f < seq" "seq < 2 ^ 48" "\<not> ring_far_ahead (rf_buffer f) seq (rf_expected f)"
    and tag: "\<forall>tag \<in> T. tag pkt = seq"
  shows "flow_op T rx f (snd (buffer_admit al rx f seq pkt len now_us))"
proof -
  have st: "flow_op T rx f (rx, f\<lparr>rf_stats := st\<rparr>)"
    if "gap_open st = gap_open (rf_stats f)" "st_residence_bucket st = st_residence_bucket (rf_stats f)" for st
    using pre that by (intro flow_op_stats)
  show ?thesis
  proof (cases "\<not> ring_contains (rf_buffer f) seq \<and> would_exceed_per_flow_limits rx f len \<and> \<not> ring_empty (rf_buffer f)")
    case False
    then show ?thesis
      using st admit_pool_op [OF pre init q _ tag] by (auto simp: buffer_admit_def)
  next
    case True
    obtain rx1 f1 where o: "overflow_flush rx f now_us = (rx1, f1)" by fastforce
    note fl = overflow_flush_op [OF pre conjunct2 [OF conjunct2 [OF True]], where now_us = now_us, unfolded o, simplified]
    obtain res rx2 f2 where r: "reclassify_after_flush rx1 f1 seq pkt now_us = (res, rx2, f2)"
      by (cases "reclassify_after_flush rx1 f1 seq pkt now_us")
    have pre1: "flow_pre rx1 f1" using fl(1) by (simp add: flow_op_def)
    have init1: "rf_initialized f1" "\<not> rf_pass_through f1" using fl(2,3) init by simp_all
    note rc = reclassify_after_flush_op [OF pre1 init1 q(2) tag r]
    have "flow_op T rx1 f1 (snd (buffer_admit al rx f seq pkt len now_us))"
    proof (cases "res = REORDER_BUFFERED")
      case False
      then show ?thesis using True o r rc(1) by (simp add: buffer_admit_def)
    next
      case buffered: True
      then show ?thesis
        using True o r rc(2) [OF buffered] admit_pool_op [OF pre1 init1 _ q(2) _ _ tag, where al = al and len = len and now_us = now_us]
        by (simp add: buffer_admit_def)
    qed
    with fl(1) show ?thesis by (rule flow_op_trans)
  qed
qed

lemma ring_wf_empty_any:
  assumes "ring_wf r e" and "ring_empty r"
  shows "ring_wf r e'"
proof (cases "rg_slots r")
  case None
  then show ?thesis using assms(1) by (simp add: ring_wf_def)
next
  case (Some ss)
  have "filter slot_used ss = []" using assms Some by (simp add: ring_wf_def ring_empty_def)
  then have "\<not> slot_used (ss ! i)" if "i < length ss" for i
    using that by (metis filter_empty_conv nth_mem)
  then show ?thesis using assms(1) Some by (simp add: ring_wf_def)
qed

text \<open>A first packet: the window starts right behind it.\<close>

lemma first_packet_inv:
  assumes "flow_mid f" and "ring_empty (rf_buffer f)" and "rf_rx_next f = 0" and "\<not> rf_gap_timer_active f"
    and "seq < 2 ^ 48" and "gap_open st = gap_open (rf_stats f)"
    and "length (st_residence_bucket st) = length (st_residence_bucket (rf_stats f))"
  shows "flow_inv (f\<lparr>rf_initialized := True, rf_stats := st, rf_expected := seq + 1, rf_last_progress_us := t\<rparr>)"
proof -
  have ok: "flow_ring_ok f" using assms(1) by (simp add: flow_mid_defs)
  have wf: "ring_wf (rf_buffer f) (seq + 1)"
    using flow_ring_okD(1) [OF ok] assms(2) by (rule ring_wf_empty_any)
  have "unat (seq + 1) = unat seq + 1" using assms(5) le_48_neq_max by (intro unat_inc) auto
  then have "seq + 1 \<le> 2 ^ 48" using assms(5) by (simp add: word_le_nat_alt word_less_nat_alt)
  moreover have "\<not> ring_contains (rf_buffer f) q" for q
    using ring_empty_contains [OF wf] assms(2) by blast
  ultimately show ?thesis
    using assms wf by (simp add: flow_inv_def flow_mid_defs flow_ring_ok_def)
qed

lemma process_reorder_packet_op:
  assumes pre: "flow_pre rx f" and "\<not> rf_pass_through f" and "seq < 2 ^ 48"
    and tag: "\<forall>tag \<in> T. tag pkt = seq"
  shows "flow_op T rx f (snd (process_reorder_packet al rx f seq pkt len now_us))"
proof (cases "rf_initialized f")
  case False
  note P = flow_preD [OF pre]
  have e0: "rf_expected f = 0" using False P(3) by (simp add: flow_mid_defs)
  have "seq \<noteq> - 1" using assms(3) le_48_neq_max by auto
  then have seq: "seq < seq + 1" by (simp add: word_less_nat_alt unat_inc)
  have "ring_empty (rf_buffer f)" "rf_rx_next f = 0" using False P(3) by (simp_all add: flow_mid_defs)
  moreover from this have "\<not> rf_gap_timer_active f" using P(1) by (simp add: flow_inv_def)
  ultimately have "flow_inv (f\<lparr>rf_initialized := True,
      rf_stats := residence_stats (st_delivered_count_update (\<lambda>n. n + 1) (rf_stats f)) now_us now_us,
      rf_expected := seq + 1, rf_last_progress_us := now_us\<rparr>)"
    using P(3) assms(3) by (intro first_packet_inv) auto
  moreover have "ord_inv tag base0 (rx\<lparr>rx_delivered := rx_delivered rx @ [pkt]\<rparr>)
      (f\<lparr>rf_initialized := True, rf_stats := residence_stats (st_delivered_count_update (\<lambda>n. n + 1) (rf_stats f)) now_us now_us,
        rf_expected := seq + 1\<rparr>)"
    if "tag \<in> T" "ord_inv tag base0 rx f" for tag base0
    using that(2) by (rule ord_deliver) (use tag that(1) seq e0 in auto)
  ultimately show ?thesis
    using False P(2) by (simp add: process_reorder_packet_def deliver_pkt_pair flow_op_def flow_pre_def Let_def)
next
  case True
  have st: "flow_op T rx f (rx, f\<lparr>rf_stats := st\<rparr>)"
    if "gap_open st = gap_open (rf_stats f)" "st_residence_bucket st = st_residence_bucket (rf_stats f)" for st
    using pre that by (intro flow_op_stats)
  show ?thesis
    using True st deliver_in_order_op [OF pre True assms(2)] buffer_admit_op [OF pre True assms(2) _ _ _ tag] assms(3) tag
    by (auto simp: process_reorder_packet_def)
qed


section \<open>Reset, demotion and dispatch\<close>

lemma release_fold:
  fixes ss :: "ring_slot list"
  defines "step \<equiv> \<lambda>s rx. if rs_pkt s \<noteq> None then pool_release rx (rs_len s) else rx"
  assumes "sum_list (map (unat \<circ> rs_len) (filter slot_used ss)) \<le> unat (rx_pool_bytes_used rx)"
  shows "unat (rx_pool_bytes_used (fold step ss rx)) =
           unat (rx_pool_bytes_used rx) - sum_list (map (unat \<circ> rs_len) (filter slot_used ss)) \<and>
         (\<exists>p. fold step ss rx = rx\<lparr>rx_pool_bytes_used := p\<rparr>)"
  using assms(2)
proof (induction ss arbitrary: rx)
  case Nil
  show ?case by (auto intro: exI [of _ "rx_pool_bytes_used rx"])
next
  case (Cons s ss)
  show ?case
  proof (cases "slot_used s")
    case False
    then show ?thesis using Cons by (simp add: step_def slot_used_def)
  next
    case True
    let ?rx = "rx\<lparr>rx_pool_bytes_used := rx_pool_bytes_used rx - ucast (rs_len s)\<rparr>"
    have le: "ucast (rs_len s) \<le> rx_pool_bytes_used rx"
      using Cons.prems True by (simp add: word_le_nat_alt)
    then have st: "step s rx = ?rx" using True by (simp add: step_def slot_used_def pool_release_def)
    have un: "unat (rx_pool_bytes_used ?rx) = unat (rx_pool_bytes_used rx) - unat (rs_len s)"
      using le by (simp add: unat_sub_le)
    have "unat (rx_pool_bytes_used (fold step ss ?rx)) =
           unat (rx_pool_bytes_used ?rx) - sum_list (map (unat \<circ> rs_len) (filter slot_used ss)) \<and>
         (\<exists>p. fold step ss ?rx = ?rx\<lparr>rx_pool_bytes_used := p\<rparr>)"
      using Cons.prems True un by (intro Cons.IH) simp
    then show ?thesis using True un by (auto simp: st comp_def)
  qed
qed

lemma release_slots_pool:
  assumes "ring_wf r e" and "unat (rg_bytes r) \<le> unat (rx_pool_bytes_used rx)"
  shows "unat (rx_pool_bytes_used (release_slots rx r)) = unat (rx_pool_bytes_used rx) - unat (rg_bytes r)"
    "\<exists>p. release_slots rx r = rx\<lparr>rx_pool_bytes_used := p\<rparr>"
proof -
  have "unat (rx_pool_bytes_used (release_slots rx r)) = unat (rx_pool_bytes_used rx) - unat (rg_bytes r) \<and>
        (\<exists>p. release_slots rx r = rx\<lparr>rx_pool_bytes_used := p\<rparr>)"
  proof (cases "rg_slots r")
    case None
    then show ?thesis
      using assms(1) by (auto simp: release_slots_def ring_wf_def intro: exI [of _ "rx_pool_bytes_used rx"])
  next
    case (Some ss)
    have "unat (rg_bytes r) = sum_list (map (unat \<circ> rs_len) (filter slot_used ss))"
      using assms(1) Some by (simp add: ring_wf_def)
    then show ?thesis using release_fold [of ss rx] assms(2) Some by (simp add: release_slots_def)
  qed
  then show "unat (rx_pool_bytes_used (release_slots rx r)) = unat (rx_pool_bytes_used rx) - unat (rg_bytes r)"
    "\<exists>p. release_slots rx r = rx\<lparr>rx_pool_bytes_used := p\<rparr>" by blast+
qed

lemma ring_free_sel [simp]:
  "ring_empty (ring_free r)" "rg_bytes (ring_free r) = 0" "rg_cap (ring_free r) = rg_cap r"
  "\<not> ring_contains (ring_free r) q"
  by (simp_all add: ring_free_def ring_empty_def ring_contains_def)

lemma reset_reorder_flow_mid:
  assumes pre: "flow_pre rx f" and r: "reset_reorder_flow rx f = (rx', f')"
  shows "flow_mid f'" "ring_empty (rf_buffer f')" "rf_rx_next f' = 0" "\<not> rf_gap_timer_active f'"
    "flow_base rx' f'" "flow_frame rx f rx' f'" "rx_delivered rx' = rx_delivered rx"
proof -
  note P = flow_preD [OF pre]
  note rel = release_slots_pool [OF P(5,7)]
  obtain p where p: "release_slots rx (rf_buffer f) = rx\<lparr>rx_pool_bytes_used := p\<rparr>" using rel(2) by blast
  have wf: "ring_wf (ring_free (rf_buffer f)) (rf_expected f)" using P(5) by (rule ring_wf_free)
  have rx': "rx' = rx\<lparr>rx_pool_bytes_used := p\<rparr>"
    using r p by (auto simp: reset_reorder_flow_def discard_buffer_for_reset_def Let_def)
  have go: "gap_open (rf_stats f) = of_bool (rf_gap_timer_active f)" using P(3) by (simp add: flow_mid_defs)
  have f': "rf_buffer f' = ring_free (rf_buffer f)" "rf_rx_next f' = 0" "\<not> rf_gap_timer_active f'"
    "rf_expected f' = rf_expected f" "rf_initialized f' = rf_initialized f" "\<not> rf_pass_through f'" "rf_key f' = rf_key f" "rf_wait_ms f' = rf_wait_ms f"
    "gap_open (rf_stats f') = 0" "st_residence_bucket (rf_stats f') = st_residence_bucket (rf_stats f)"
    using r go by (auto simp: reset_reorder_flow_def discard_buffer_for_reset_def stop_gap_timer_def Let_def split: if_splits)
  have "flow_ring_ok f'" using wf f' flow_ring_okD(5) [OF P(4)] by (simp add: flow_ring_ok_def)
  then show "flow_mid f'" using f' P(3) by (auto simp: flow_mid_defs)
  show "ring_empty (rf_buffer f')" "rf_rx_next f' = 0" "\<not> rf_gap_timer_active f'" using f' by simp_all
  have pl: "unat p = unat (rx_pool_bytes_used rx) - unat (rg_bytes (rf_buffer f))" using rel(1) p by simp
  then have "p \<le> rx_pool_bytes_used rx" by (simp add: word_le_nat_alt)
  then show "flow_base rx' f'" using P(2) f' rx' by (auto simp: flow_base_def)
  show "flow_frame rx f rx' f'" using f' rx' pl P(7) by (simp add: flow_frame_def rx_rest_def)
  show "rx_delivered rx' = rx_delivered rx" using rx' by simp
qed

lemma flush_buffer_for_demote_op:
  assumes pre: "flow_pre rx f" and d: "flush_buffer_for_demote rx f now_us = (rx', f')"
  shows "flow_op T rx f (rx', f'\<lparr>rf_pass_through := True\<rparr>)"
    "rx_delivered rx' = rx_delivered rx @ window_pkts (rf_buffer f) (rf_expected f) (rf_expected f')"
    "window_seqs (rf_buffer f) (rf_expected f) (rf_expected f') = {q. ring_contains (rf_buffer f) q}"
proof -
  note P = flow_preD [OF pre]
  let ?st = "if rf_gap_timer_active f then st_gap_demote_count_update (\<lambda>n. n + 1) (rf_stats f) else rf_stats f"
  let ?f0 = "f\<lparr>rf_stats := ?st\<rparr>"
  have f0: "(if rf_gap_timer_active f then f\<lparr>rf_stats := st_gap_demote_count_update (\<lambda>n. n + 1) (rf_stats f)\<rparr> else f) = ?f0"
    by simp
  obtain rx1 f1 where l: "demote_loop (unat (rg_count (rf_buffer f))) rx ?f0 now_us = (rx1, f1)" by fastforce
  have adv: "advances rx ?f0 rx1 f1" and emp: "ring_empty (rf_buffer f1)"
    using demote_loop_advances [of ?f0 rx "unat (rg_count (rf_buffer f))" now_us rx1 f1] P(4,7) l by auto
  have rx': "rx' = rx1"
    and f': "f' = f1\<lparr>rf_last_progress_us := now_us, rf_gap_timer_active := False, rf_buffer := ring_free (rf_buffer f1)\<rparr>"
    using d l by (simp_all add: flush_buffer_for_demote_def f0 stop_gap_timer_def Let_def)
  have go: "gap_open ?st = 0" using P(3) by (simp add: flow_mid_defs)
  have ok1: "flow_ring_ok f1" using adv by (simp add: advances_def)
  note D1 = flow_ring_okD [OF ok1]
  have none: "\<not> ring_contains (rf_buffer f1) q" for q using ring_empty_contains [OF D1(1)] emp by blast
  have wf: "ring_wf (ring_free (rf_buffer f1)) (rf_expected f1)" using D1(1) by (rule ring_wf_free)
  have nx: "\<not> rf_expected f1 < rf_rx_next f1" using ok1 none by (auto simp: flow_ring_ok_def)
  have rest: "rf_initialized f1 = rf_initialized f" "gap_open (rf_stats f1) = 0" "rf_key f1 = rf_key f"
    "length (st_residence_bucket (rf_stats f1)) = MQVPN_REORDER_LAT_BUCKETS" "rf_rx_next f1 = rf_rx_next f"
    "rf_wait_ms f1 = rf_wait_ms f" "rg_cap (rf_buffer f1) = rg_cap (rf_buffer f)"
    using adv go P(3) by (simp_all add: advances_def flow_rest_def flow_mid_defs split: if_splits)
  have "rf_expected f1 = rf_expected f" if "ring_empty (rf_buffer f)"
    using adv that ring_empty_abs [OF P(5)] by (simp add: advances_def)
  then have inv: "flow_inv (f'\<lparr>rf_pass_through := True\<rparr>)"
    using wf nx rest D1(4,5) P(3)
    by (auto simp: f' flow_inv_def flow_mid_defs flow_ring_ok_def)
  have bytes: "rg_bytes (rf_buffer f1) = 0"
    using emp ring_bytes_bound [OF D1(1)] by (simp add: ring_empty_def unat_eq_0)
  have base: "flow_base rx1 f1" using advances_base [OF adv] P(2) by simp
  then have "flow_base rx' (f'\<lparr>rf_pass_through := True\<rparr>)" by (auto simp: flow_base_def f' rx')
  moreover have "flow_frame rx f rx' (f'\<lparr>rf_pass_through := True\<rparr>)"
    using advances_frame [OF adv] bytes by (simp add: f' rx' flow_frame_def)
  moreover have "ord_inv tag base0 rx' (f'\<lparr>rf_pass_through := True\<rparr>)" if "ord_inv tag base0 rx f" for tag base0
  proof -
    have "ord_inv tag base0 rx1 f1" by (rule ord_advances [OF adv]) (use that in simp)
    then show ?thesis by (simp add: ord_inv_def f' rx')
  qed
  ultimately show "flow_op T rx f (rx', f'\<lparr>rf_pass_through := True\<rparr>)"
    using inv by (simp add: flow_op_def flow_pre_def)
  show "rx_delivered rx' = rx_delivered rx @ window_pkts (rf_buffer f) (rf_expected f) (rf_expected f')"
    using adv by (simp add: advances_def f' rx')
  show "window_seqs (rf_buffer f) (rf_expected f) (rf_expected f') = {q. ring_contains (rf_buffer f) q}"
    using none ring_contains_advances [OF adv] rb.window [OF P(5)]
    by (auto simp: window_seqs_def f' ring_contains_abs not_le [symmetric])
qed

lemma classify_update_flow:
  assumes "classify_update rx f pkt len = (c, f')"
  shows "f' = f\<lparr>rf_classify_seen := rf_classify_seen f', rf_classify_large := rf_classify_large f'\<rparr>"
  using assms unfolding classify_update_def Let_def by (auto split: if_splits)

lemma on_reordered_op:
  assumes pre: "flow_pre rx f" and seq: "seq < 2 ^ 48"
    and tag: "\<forall>tag \<in> T. tag pkt = seq \<and> \<not> reset_honored rx f flags now_us \<and> \<not> rf_pass_through f"
  shows "flow_op T rx f (on_reordered al rx f seq flags pkt len now_us)"
proof -
  let ?f = "f\<lparr>rf_last_seen_us := now_us\<rparr>"
  have pre': "flow_pre rx ?f" using pre by (simp add: flow_pre_def)
  have [simp]: "reset_honored rx ?f flags now_us = reset_honored rx f flags now_us"
    by (simp add: reset_honored_def)
  have "flow_op T rx ?f (on_reordered al rx f seq flags pkt len now_us)"
  proof (cases "reset_honored rx f flags now_us")
    case True
    obtain rx1 f1 where r: "reset_reorder_flow rx ?f = (rx1, f1)" by fastforce
    note m = reset_reorder_flow_mid [OF pre' r]
    let ?st = "residence_stats (st_delivered_count_update (\<lambda>n. n + 1) (rf_stats f1)) now_us now_us"
    have eq: "on_reordered al rx f seq flags pkt len now_us = (rx1\<lparr>rx_delivered := rx_delivered rx1 @ [pkt]\<rparr>,
       f1\<lparr>rf_initialized := True, rf_stats := ?st, rf_expected := seq + 1, rf_last_progress_us := now_us\<rparr>)"
      using True r by (simp add: on_reordered_def deliver_pkt_pair Let_def)
    have "flow_inv (f1\<lparr>rf_initialized := True, rf_stats := ?st, rf_expected := seq + 1, rf_last_progress_us := now_us\<rparr>)"
      using m seq by (intro first_packet_inv) auto
    moreover have "T = {}" using tag True by blast
    ultimately show ?thesis using m(5,6) by (simp add: eq flow_op_def flow_pre_def)
  next
    case noreset: False
    show ?thesis
    proof (cases "rf_pass_through f")
      case True
      have "flow_inv (?f\<lparr>rf_stats := residence_stats (st_delivered_count_update (\<lambda>n. n + 1) (rf_stats f)) now_us now_us\<rparr>)"
        using flow_preD(1) [OF pre] flow_stats_update(2) by simp
      moreover have "T = {}" using tag True by blast
      ultimately show ?thesis
        using noreset True flow_preD(2) [OF pre]
        by (simp add: on_reordered_def deliver_pkt_pair flow_op_def flow_pre_def Let_def)
    next
      case False
      obtain res rx1 f1 where pr: "process_reorder_packet al rx ?f seq pkt len now_us = (res, rx1, f1)"
        by (cases "process_reorder_packet al rx ?f seq pkt len now_us")
      have op1: "flow_op T rx ?f (rx1, f1)"
        using process_reorder_packet_op [OF pre' _ seq, of T pkt al len now_us] False pr tag by simp
      obtain c f2 where c: "classify_update rx1 f1 pkt len = (c, f2)" by fastforce
      obtain a b where f2: "f2 = f1\<lparr>rf_classify_seen := a, rf_classify_large := b\<rparr>"
        using classify_update_flow [OF c] by blast
      have op2: "flow_op T rx1 f1 (rx1, f2)" using op1 by (simp add: f2 flow_op_def flow_pre_def)
      have eq: "on_reordered al rx f seq flags pkt len now_us =
          (if res = REORDER_DELIVERED \<or> res = REORDER_BUFFERED \<or> res = REORDER_DROPPED_LATE
           then (case c of CLASSIFY_DEMOTED \<Rightarrow>
                   (let (rx, f) = flush_buffer_for_demote rx1 f2 now_us
                    in (rx, f\<lparr>rf_pass_through := True,
                              rf_stats := st_ack_demote_count_update (\<lambda>n. n + 1) (rf_stats f)\<rparr>))
                 | CLASSIFY_UNCHANGED \<Rightarrow> (rx1, f2))
           else (rx1, f1))"
        using noreset False pr c by (simp add: on_reordered_def Let_def split: classify_result.split)
      obtain rx3 f3 where fl: "flush_buffer_for_demote rx1 f2 now_us = (rx3, f3)" by fastforce
      have "flow_op T rx1 f2 (rx3, f3\<lparr>rf_pass_through := True\<rparr>)"
        using op2 fl by (intro flush_buffer_for_demote_op) (auto simp: flow_op_def)
      then have "flow_op T rx1 f2 (rx3, f3\<lparr>rf_pass_through := True,
            rf_stats := st_ack_demote_count_update (\<lambda>n. n + 1) (rf_stats f3)\<rparr>)"
        using flow_stats_update(2) [of "st_ack_demote_count_update (\<lambda>n. n + 1) (rf_stats f3)" "f3\<lparr>rf_pass_through := True\<rparr>"]
        by (simp add: flow_op_def flow_pre_def)
      then show ?thesis
        using flow_op_trans [OF op1] flow_op_trans [OF op2] op1 op2
        by (auto simp: eq fl split: classify_result.split)
    qed
  qed
  then show ?thesis by (simp add: flow_op_def)
qed

end
