(* ===== verification/Rx_Engine.thy ===== *)
theory Rx_Engine
  imports Rx_Ops Flow_Table
begin

text \<open>
  The receive engine of \<^verbatim>\<open>src/reorder_rx.c\<close> as a whole: the hash table of flows, creation and
  eviction, the packet entry and the periodic sweeps keep one invariant, and what that gives for
  every run of the engine.
\<close>

section \<open>The flow table of the engine\<close>

definition rx_chain :: "u64 \<Rightarrow> mqvpn_flow_key \<Rightarrow> nat" where
  "rx_chain seed key = unat (ucast (mqvpn_flow_key_hash key seed AND 1023) :: u32)"

lemma rx_chain_less: "rx_chain seed key < 1024"
proof -
  have "mqvpn_flow_key_hash key seed AND 1023 \<le> 1023" by (rule word_and_le1)
  then have "unat (mqvpn_flow_key_hash key seed AND 1023) \<le> 1023" by (simp add: word_le_nat_alt)
  moreover have "rx_chain seed key \<le> unat (mqvpn_flow_key_hash key seed AND 1023)"
    by (simp add: rx_chain_def unsigned_ucast_eq unsigned_take_bit_eq)
  ultimately show ?thesis by simp
qed

interpretation rt: flow_table rf_key "rx_chain seed" 1024 for seed
  by unfold_locales (rule rx_chain_less)

lemma rx_idx_chain: "rx_n_buckets rx = 1024 \<Longrightarrow> rx_idx rx = rx_chain (rx_hash_seed rx)"
  by (simp add: rx_idx_def rx_chain_def fun_eq_iff)


section \<open>The engine invariant\<close>

text \<open>
  Over the flows \<open>fs\<close> of an engine: each satisfies its invariant and was created for a class that
  waits, and the byte pool is exactly what they buffer, within the configured limit.
\<close>

definition rx_core :: "mqvpn_reorder_rx \<Rightarrow> mqvpn_reorder_flow list \<Rightarrow> bool" where
  "rx_core rx fs \<longleftrightarrow>
     (\<forall>f \<in> set fs. flow_inv f \<and> rf_wait_ms f \<noteq> 0) \<and>
     unat (rx_pool_bytes_used rx) = sum_list (map (\<lambda>f. unat (rg_bytes (rf_buffer f))) fs) \<and>
     rx_pool_bytes_used rx \<le> rc_global_max_buffer_bytes (rx_cfg rx) \<and>
     unat (rc_global_max_buffer_bytes (rx_cfg rx)) + 65536 \<le> 2 ^ 64"

text \<open>No gap timer of a flow expires before the time the engine next looks at them.\<close>

definition rx_armed :: "mqvpn_reorder_rx \<Rightarrow> mqvpn_reorder_flow set \<Rightarrow> bool" where
  "rx_armed rx F \<longleftrightarrow> (\<forall>f \<in> F. rf_gap_timer_active f \<longrightarrow> rx_next_gap_us rx \<le> rf_gap_deadline_us f)"

definition rx_inv :: "mqvpn_reorder_rx \<Rightarrow> bool" where
  "rx_inv rx \<longleftrightarrow>
     rx_n_buckets rx = 1024 \<and>
     table_wf rf_key (rx_chain (rx_hash_seed rx)) 1024 (rx_buckets rx) \<and>
     rx_core rx (concat (rx_buckets rx)) \<and> rx_armed rx (set (concat (rx_buckets rx))) \<and>
     rx_n_flows rx = of_nat (length (concat (rx_buckets rx))) \<and>
     (0 < rc_max_flows (rx_cfg rx) \<longrightarrow>
        length (concat (rx_buckets rx)) \<le> unat (rc_max_flows (rx_cfg rx))) \<and>
     (\<forall>key. is_pow2 (unat (flow_cap (rx_cfg rx) key)))"

lemma rx_core_member:
  assumes "rx_core rx fs" and "f \<in> set fs"
  shows "flow_inv f" "rf_wait_ms f \<noteq> 0" "flow_base rx (f\<lparr>rf_gap_timer_active := False\<rparr>)"
    "unat (rg_bytes (rf_buffer f)) \<le> unat (rx_pool_bytes_used rx)"
proof -
  show "flow_inv f" "rf_wait_ms f \<noteq> 0" using assms by (simp_all add: rx_core_def)
  show "unat (rg_bytes (rf_buffer f)) \<le> unat (rx_pool_bytes_used rx)"
    using assms by (auto simp: rx_core_def intro: member_le_sum_list)
  then show "flow_base rx (f\<lparr>rf_gap_timer_active := False\<rparr>)"
    using assms(1) by (simp add: flow_base_def rx_core_def)
qed

lemma rx_core_pre:
  assumes "rx_core rx fs" and "f \<in> set fs" and "rx_armed rx (set fs)"
  shows "flow_pre rx f"
  using rx_core_member [OF assms(1,2)] assms(2,3) by (simp add: flow_pre_def flow_base_def rx_armed_def)

text \<open>Replacing a flow by the outcome of an operation on it.\<close>

lemma rx_core_replace:
  assumes core: "rx_core rx fs" and op: "flow_op T rx f (rx', f')" and f: "f \<in> set fs"
    and set: "set fs' \<subseteq> insert f' (set fs)"
    and sum: "sum_list (map (\<lambda>f. unat (rg_bytes (rf_buffer f))) fs') + unat (rg_bytes (rf_buffer f)) =
      sum_list (map (\<lambda>f. unat (rg_bytes (rf_buffer f))) fs) + unat (rg_bytes (rf_buffer f'))"
  shows "rx_core rx' fs'"
proof -
  have fr: "rf_wait_ms f' = rf_wait_ms f" "rx_cfg rx' = rx_cfg rx" "flow_inv f'" "flow_base rx' f'"
    "unat (rx_pool_bytes_used rx') + unat (rg_bytes (rf_buffer f)) =
       unat (rx_pool_bytes_used rx) + unat (rg_bytes (rf_buffer f'))"
    using op by (simp_all add: flow_op_def flow_frame_def flow_pre_def rx_rest_def)
  have "flow_inv g \<and> rf_wait_ms g \<noteq> 0" if "g \<in> set fs'" for g
    using that set fr(1,3) core f by (cases "g = f'") (auto simp: rx_core_def)
  then show ?thesis using core fr sum by (simp add: rx_core_def flow_base_def)
qed

lemma rx_armed_mono: "rx_armed rx F \<Longrightarrow> rx_next_gap_us rx' \<le> rx_next_gap_us rx \<Longrightarrow> rx_armed rx' F"
  by (auto simp: rx_armed_def intro: order_trans)

lemma rx_armed_subset: "rx_armed rx F \<Longrightarrow> G \<subseteq> F \<Longrightarrow> rx_armed rx G"
  by (auto simp: rx_armed_def)

lemma rx_core_updates [simp]:
  "rx_core (rx\<lparr>rx_buckets := b\<rparr>) fs = rx_core rx fs"
  "rx_core (rx\<lparr>rx_next_gap_us := t\<rparr>) fs = rx_core rx fs"
  "rx_core (rx\<lparr>rx_next_idle_us := t\<rparr>) fs = rx_core rx fs"
  "rx_core (rx\<lparr>rx_n_flows := n\<rparr>) fs = rx_core rx fs"
  "rx_core (rx\<lparr>rx_delivered := ds\<rparr>) fs = rx_core rx fs"
  "rx_core (rx\<lparr>rx_evicted_stats := st\<rparr>) fs = rx_core rx fs"
  "rx_armed (rx\<lparr>rx_buckets := b\<rparr>) F = rx_armed rx F"
  "rx_armed (rx\<lparr>rx_next_idle_us := t\<rparr>) F = rx_armed rx F"
  "rx_armed (rx\<lparr>rx_n_flows := n\<rparr>) F = rx_armed rx F"
  "rx_armed (rx\<lparr>rx_delivered := ds\<rparr>) F = rx_armed rx F"
  "rx_armed (rx\<lparr>rx_evicted_stats := st\<rparr>) F = rx_armed rx F"
  "rx_armed (rx\<lparr>rx_pool_bytes_used := u\<rparr>) F = rx_armed rx F"
  by (simp_all add: rx_core_def rx_armed_def)

lemma flow_op_armed: "flow_op T rx f (rx', f') \<Longrightarrow> rx_armed rx' {f'}"
  by (simp add: flow_op_def flow_pre_def flow_base_def rx_armed_def)

lemma flow_put_inv:
  assumes inv: "rx_inv rx" and f: "f \<in> set (concat (rx_buckets rx))" and op: "flow_op T rx f (rx', f')"
  shows "rx_inv (flow_put rx' f')"
proof -
  let ?b = "rx_buckets rx" and ?c = "rx_chain (rx_hash_seed rx)"
  let ?b' = "table_map ?c (rf_key f') (chain_put rf_key f') ?b"
  have fr: "rf_key f' = rf_key f" "rx_rest rx' = rx_rest rx" "rx_next_gap_us rx' \<le> rx_next_gap_us rx"
    using op by (simp_all add: flow_op_def flow_frame_def)
  then have rest: "rx_cfg rx' = rx_cfg rx" "rx_hash_seed rx' = rx_hash_seed rx" "rx_buckets rx' = ?b"
    "rx_n_buckets rx' = rx_n_buckets rx" "rx_n_flows rx' = rx_n_flows rx"
    by (simp_all add: rx_rest_def)
  have I: "rx_n_buckets rx = 1024" "table_wf rf_key ?c 1024 ?b" "rx_core rx (concat ?b)" "rx_armed rx (set (concat ?b))"
    using inv by (simp_all add: rx_inv_def)
  have put: "flow_put rx' f' = rx'\<lparr>rx_buckets := ?b'\<rparr>"
    using rest I(1) by (simp add: flow_put_def rx_idx_chain)
  have set: "set (concat ?b') \<subseteq> insert f' (set (concat ?b))" using rt.set_put [OF I(2), of f'] by blast
  note sum = rt.sum_put [OF I(2) f, of f']
  have len: "length (concat ?b') = length (concat ?b)"
    using sum [OF fr(1) [symmetric], of "\<lambda>_. 1"] unfolding sum_list_triv length_map by simp
  have "rx_core rx' (concat ?b')"
    by (rule rx_core_replace [OF I(3) op f set]) (rule sum [OF fr(1) [symmetric]])
  then have "rx_core (flow_put rx' f') (concat ?b')" by (simp add: put)
  moreover have "rx_armed (flow_put rx' f') (set (concat ?b'))"
  proof -
    have "rx_armed rx' (insert f' (set (concat ?b)))"
      using rx_armed_mono [OF I(4) fr(3)] flow_op_armed [OF op] by (simp add: rx_armed_def)
    then show ?thesis using rx_armed_subset set by (simp add: put)
  qed
  moreover have "table_wf rf_key ?c 1024 ?b'" using I(2) by (rule rt.wf_put)
  ultimately show ?thesis using inv rest len by (simp add: rx_inv_def put)
qed


section \<open>Sweeps\<close>

text \<open>A clock far enough from its wrap-around for every 32-bit wait in milliseconds.\<close>

definition clock_ok :: "u64 \<Rightarrow> bool" where
  "clock_ok now_us \<longleftrightarrow> unat now_us + 1000 * 2 ^ 32 \<le> 2 ^ 64"

lemma clock_ok_less:
  assumes "clock_ok now_us" and "w \<noteq> 0"
  shows "now_us < now_us + ucast (w :: u32) * 1000"
proof -
  have w: "unat w < 2 ^ 32" using unat_u32_lt [of w] by simp
  have "unat (ucast w * 1000 :: u64) = unat w * 1000"
    using w by (subst unat_mult_lem [THEN iffD1]) (simp_all add: unat_ucast_32_64)
  moreover from this have "unat (now_us + ucast w * 1000) = unat now_us + unat w * 1000"
    using w assms(1) by (subst unat_add_lem [THEN iffD1]) (simp_all add: clock_ok_def)
  moreover have "0 < unat w" using assms(2) by (simp add: unat_gt_0)
  ultimately show ?thesis by (simp add: word_less_nat_alt)
qed

lemma gap_sweep_chain_step:
  assumes core: "rx_core rx (xs @ f # ys)"
    and s: "(if \<not> rf_gap_timer_active f then (rx, f)
             else if rf_gap_deadline_us f \<le> now_us then on_gap_timeout rx f now_us
             else if rf_gap_deadline_us f < rx_next_gap_us rx
             then (rx\<lparr>rx_next_gap_us := rf_gap_deadline_us f\<rparr>, f)
             else (rx, f)) = (rx', f')"
  shows "rx_core rx' (xs @ f' # ys) \<and> rx_armed rx' {f'} \<and> rx_next_gap_us rx' \<le> rx_next_gap_us rx \<and>
    rx_rest rx' = rx_rest rx \<and> rf_key f' = rf_key f \<and>
    (clock_ok now_us \<longrightarrow> rf_gap_timer_active f' \<longrightarrow> now_us < rf_gap_deadline_us f') \<and>
    (clock_ok now_us \<longrightarrow> now_us < rx_next_gap_us rx \<longrightarrow> now_us < rx_next_gap_us rx')"
proof (cases "rf_gap_timer_active f \<and> rf_gap_deadline_us f \<le> now_us")
  case False
  then show ?thesis using s core by (auto simp: rx_armed_def rx_rest_def split: if_splits)
next
  case True
  note m = rx_core_member [OF core, of f, simplified]
  have r: "on_gap_timeout rx f now_us = (rx', f')" using s True by simp
  note op = on_gap_timeout_op [OF m(1,3) conjunct1 [OF True], where now_us = now_us, unfolded r, simplified]
  have "rx_core rx' (xs @ f' # ys)" by (rule rx_core_replace [OF core op(1) [of "{}"]]) auto
  then show ?thesis
    using op(2,7) flow_op_armed [OF op(1) [of "{}"]] op(1) [of "{}"] clock_ok_less m(2)
    by (auto simp: flow_op_def flow_frame_def)
qed

lemma gap_sweep_chain_spec:
  assumes "rx_core rx (xs @ c @ ys)" and "gap_sweep_chain rx now_us c = (rx', c')"
  shows "rx_core rx' (xs @ c' @ ys) \<and> rx_armed rx' (set c') \<and> rx_next_gap_us rx' \<le> rx_next_gap_us rx \<and>
    rx_rest rx' = rx_rest rx \<and> map rf_key c' = map rf_key c \<and>
    (clock_ok now_us \<longrightarrow> (\<forall>f \<in> set c'. rf_gap_timer_active f \<longrightarrow> now_us < rf_gap_deadline_us f)) \<and>
    (clock_ok now_us \<longrightarrow> now_us < rx_next_gap_us rx \<longrightarrow> now_us < rx_next_gap_us rx')"
  using assms
proof (induction c arbitrary: rx xs c')
  case Nil
  then show ?case by (simp add: rx_armed_def)
next
  case (Cons f c)
  obtain rx1 f1 where s: "(if \<not> rf_gap_timer_active f then (rx, f)
             else if rf_gap_deadline_us f \<le> now_us then on_gap_timeout rx f now_us
             else if rf_gap_deadline_us f < rx_next_gap_us rx
             then (rx\<lparr>rx_next_gap_us := rf_gap_deadline_us f\<rparr>, f)
             else (rx, f)) = (rx1, f1)"
    by (metis surj_pair)
  obtain c2 where c2: "gap_sweep_chain rx1 now_us c = (rx', c2)" "c' = f1 # c2"
    using Cons.prems(2) by (simp add: s split: prod.splits)
  have "rx_core rx (xs @ f # (c @ ys))" using Cons.prems(1) by simp
  note st = gap_sweep_chain_step [OF this s]
  then have "rx_core rx1 ((xs @ [f1]) @ c @ ys)" by simp
  note ih = Cons.IH [OF this c2(1)]
  have "rx_armed rx' {f1}" using ih st by (auto intro: rx_armed_mono)
  then have "rx_armed rx' (set c')" using ih c2(2) by (simp add: rx_armed_def)
  then show ?case using ih st c2(2) by (auto intro: order_trans)
qed

lemma gap_sweep_spec:
  assumes "rx_core rx (xs @ concat b)" and "gap_sweep rx now_us b = (rx', b')"
  shows "rx_core rx' (xs @ concat b') \<and> rx_armed rx' (set (concat b')) \<and> rx_next_gap_us rx' \<le> rx_next_gap_us rx \<and>
    rx_rest rx' = rx_rest rx \<and> map (map rf_key) b' = map (map rf_key) b \<and>
    (clock_ok now_us \<longrightarrow> (\<forall>f \<in> set (concat b'). rf_gap_timer_active f \<longrightarrow> now_us < rf_gap_deadline_us f)) \<and>
    (clock_ok now_us \<longrightarrow> now_us < rx_next_gap_us rx \<longrightarrow> now_us < rx_next_gap_us rx')"
  using assms
proof (induction b arbitrary: rx xs b')
  case Nil
  then show ?case by (simp add: rx_armed_def)
next
  case (Cons c b)
  obtain rx1 c1 where s: "gap_sweep_chain rx now_us c = (rx1, c1)" by fastforce
  obtain b2 where b2: "gap_sweep rx1 now_us b = (rx', b2)" "b' = c1 # b2"
    using Cons.prems(2) by (simp add: s split: prod.splits)
  have "rx_core rx (xs @ c @ concat b)" using Cons.prems(1) by simp
  note st = gap_sweep_chain_spec [OF this s]
  then have "rx_core rx1 ((xs @ c1) @ concat b)" by simp
  note ih = Cons.IH [OF this b2(1)]
  have "rx_armed rx' (set c1)" using ih st by (auto intro: rx_armed_mono)
  then have "rx_armed rx' (set (concat b'))" using ih b2(2) by (auto simp: rx_armed_def)
  then show ?case using ih st b2(2) by (auto intro: order_trans)
qed


lemma table_wf_keys:
  assumes "table_wf key idx n b" and "map (map key) b' = map (map key) b"
  shows "table_wf key idx n b'"
proof -
  have l: "length b' = length b" using assms(2) by (rule map_eq_imp_length_eq)
  have k: "map key (b' ! i) = map key (b ! i)" if "i < length b" for i
    using arg_cong [OF assms(2), of "\<lambda>x. x ! i"] that l by simp
  have "list_all (\<lambda>f. idx (key f) = i) c = list_all (\<lambda>k. idx k = i) (map key c)" for i c
    by (simp add: list_all_iff)
  then show ?thesis using assms(1) l k by (simp add: table_wf_def)
qed

lemma tick_gaps_inv:
  assumes "rx_inv rx"
  shows "rx_inv (tick_gaps rx now_us)"
    "clock_ok now_us \<Longrightarrow> f \<in> set (concat (rx_buckets (tick_gaps rx now_us))) \<Longrightarrow>
     rf_gap_timer_active f \<Longrightarrow> now_us < rf_gap_deadline_us f"
    "clock_ok now_us \<Longrightarrow> now_us < rx_next_gap_us (tick_gaps rx now_us)"
proof -
  obtain rx' b where s: "gap_sweep (rx\<lparr>rx_next_gap_us := - 1\<rparr>) now_us (rx_buckets rx) = (rx', b)"
    by fastforce
  have "rx_core (rx\<lparr>rx_next_gap_us := - 1\<rparr>) ([] @ concat (rx_buckets rx))" using assms by (simp add: rx_inv_def)
  note sp = gap_sweep_spec [OF this s]
  have k: "map (map rf_key) b = map (map rf_key) (rx_buckets rx)" using sp by blast
  have "map length b = map length (rx_buckets rx)"
    using arg_cong [OF k, of "map length"] unfolding map_map comp_def length_map .
  then have len: "length (concat b) = length (concat (rx_buckets rx))" by (simp only: length_concat)
  have core: "rx_core rx' (concat b)" and armed: "rx_armed rx' (set (concat b))"
    and rest: "rx_rest rx' = rx_rest (rx\<lparr>rx_next_gap_us := - 1\<rparr>)"
    and due: "clock_ok now_us \<longrightarrow> (\<forall>f \<in> set (concat b). rf_gap_timer_active f \<longrightarrow> now_us < rf_gap_deadline_us f)"
    using sp unfolding append_Nil by blast+
  have t: "tick_gaps rx now_us = rx'\<lparr>rx_buckets := b\<rparr>" by (simp add: tick_gaps_def s)
  have "table_wf rf_key (rx_chain (rx_hash_seed rx)) 1024 (rx_buckets rx)" using assms by (simp only: rx_inv_def)
  then have wf: "table_wf rf_key (rx_chain (rx_hash_seed rx)) 1024 b" using k by (rule table_wf_keys)
  have I: "rx_n_buckets rx = 1024" "rx_n_flows rx = of_nat (length (concat (rx_buckets rx)))"
    "0 < rc_max_flows (rx_cfg rx) \<longrightarrow> length (concat (rx_buckets rx)) \<le> unat (rc_max_flows (rx_cfg rx))"
    "\<forall>key. is_pow2 (unat (flow_cap (rx_cfg rx) key))"
    using assms unfolding rx_inv_def by blast+
  have eqs: "rx_cfg rx' = rx_cfg rx" "rx_hash_seed rx' = rx_hash_seed rx" "rx_n_buckets rx' = rx_n_buckets rx"
    "rx_n_flows rx' = rx_n_flows rx" using rest by (simp_all add: rx_rest_def)
  show "rx_inv (tick_gaps rx now_us)"
    using core armed wf I len unfolding rx_inv_def t by (simp add: eqs del: length_concat)
  show "now_us < rf_gap_deadline_us f"
    if "clock_ok now_us" "f \<in> set (concat (rx_buckets (tick_gaps rx now_us)))" "rf_gap_timer_active f"
    using due that unfolding t by auto
  show "now_us < rx_next_gap_us (tick_gaps rx now_us)" if c: "clock_ok now_us"
  proof -
    have "now_us < - 1" using clock_ok_less [OF c, of 1] word_order.extremum by (rule order_less_le_trans) simp
    then show ?thesis using sp c unfolding t by simp
  qed
qed

lemma flow_destroy_core:
  assumes "rx_core rx fs" and "f \<in> set fs" and "set fs' \<subseteq> set fs"
    and "sum_list (map (\<lambda>f. unat (rg_bytes (rf_buffer f))) fs') + unat (rg_bytes (rf_buffer f)) =
         sum_list (map (\<lambda>f. unat (rg_bytes (rf_buffer f))) fs)"
  shows "rx_core (flow_destroy rx f) fs'"
    "\<exists>p. flow_destroy rx f = rx\<lparr>rx_evicted_stats := mqvpn_reorder_stats_accumulate (rx_evicted_stats rx) (rf_stats f),
        rx_pool_bytes_used := p\<rparr>"
proof -
  note m = rx_core_member [OF assms(1,2)]
  let ?rx = "rx\<lparr>rx_evicted_stats := mqvpn_reorder_stats_accumulate (rx_evicted_stats rx) (rf_stats f)\<rparr>"
  have wf: "ring_wf (rf_buffer f) (rf_expected f)"
    using m(1) by (simp add: flow_inv_def flow_mid_defs flow_ring_ok_def)
  have "unat (rg_bytes (rf_buffer f)) \<le> unat (rx_pool_bytes_used ?rx)" using m(4) by simp
  note rel = release_slots_pool [OF wf this]
  then obtain p where p: "flow_destroy rx f = ?rx\<lparr>rx_pool_bytes_used := p\<rparr>" by (auto simp: flow_destroy_def)
  then show "\<exists>p. flow_destroy rx f = ?rx\<lparr>rx_pool_bytes_used := p\<rparr>" ..
  have u: "unat p = unat (rx_pool_bytes_used rx) - unat (rg_bytes (rf_buffer f))"
    using rel(1) p by (simp add: flow_destroy_def)
  then have "p \<le> rx_pool_bytes_used rx" by (simp add: word_le_nat_alt)
  then show "rx_core (flow_destroy rx f) fs'"
    using assms u by (auto simp: rx_core_def p)
qed


lemma idle_sweep_chain_spec:
  assumes "rx_core rx (xs @ c @ ys)" and "rx_armed rx (set (xs @ c @ ys))"
    and "idle_sweep_chain rx now_us c = (rx', c')"
  shows "rx_core rx' (xs @ c' @ ys) \<and> rx_next_gap_us rx' = rx_next_gap_us rx \<and>
    c' = filter (\<lambda>f. \<not> flow_is_idle rx now_us f) c \<and>
    rx_n_flows rx' + of_nat (length c) = rx_n_flows rx + of_nat (length c') \<and>
    rx_cfg rx' = rx_cfg rx \<and> rx_hash_seed rx' = rx_hash_seed rx \<and> rx_n_buckets rx' = rx_n_buckets rx"
  using assms
proof (induction c arbitrary: rx xs c')
  case (Cons f c)
  show ?case
  proof (cases "flow_is_idle rx now_us f")
    case True
    let ?rx = "flow_destroy rx f"
    note d = flow_destroy_core [OF Cons.prems(1), of f "xs @ c @ ys", simplified]
    have core: "rx_core ?rx (xs @ c @ ys)" by (rule d(1)) auto
    obtain p where p: "?rx = rx\<lparr>rx_evicted_stats := mqvpn_reorder_stats_accumulate (rx_evicted_stats rx) (rf_stats f),
        rx_pool_bytes_used := p\<rparr>" using d(2) by auto
    let ?rx1 = "?rx\<lparr>rx_n_flows := rx_n_flows ?rx - 1\<rparr>"
    have "idle_sweep_chain ?rx1 now_us c = (rx', c')" using True Cons.prems(3) by (simp add: Let_def)
    moreover have "rx_armed ?rx1 (set (xs @ c @ ys))" using Cons.prems(2) by (simp add: p rx_armed_def)
    moreover have "rx_core ?rx1 (xs @ c @ ys)" using core by simp
    ultimately have ih: "rx_core rx' (xs @ c' @ ys) \<and> rx_next_gap_us rx' = rx_next_gap_us ?rx1 \<and>
      c' = filter (\<lambda>f. \<not> flow_is_idle ?rx1 now_us f) c \<and>
      rx_n_flows rx' + of_nat (length c) = rx_n_flows ?rx1 + of_nat (length c') \<and>
      rx_cfg rx' = rx_cfg ?rx1 \<and> rx_hash_seed rx' = rx_hash_seed ?rx1 \<and> rx_n_buckets rx' = rx_n_buckets ?rx1"
      by (intro Cons.IH)
    have "flow_is_idle ?rx1 now_us = flow_is_idle rx now_us" by (simp add: p flow_is_idle_def fun_eq_iff)
    note ih' = ih [unfolded this]
    have "rx_n_flows rx' + of_nat (length (f # c)) = rx_n_flows rx + of_nat (length c')"
    proof -
      have 1: "rx_n_flows rx' + of_nat (length c) = rx_n_flows ?rx1 + of_nat (length c')" using ih' by blast
      have "rx_n_flows rx' + of_nat (length (f # c)) = (rx_n_flows rx' + of_nat (length c)) + 1" by simp
      then show ?thesis unfolding 1 by (simp add: p)
    qed
    moreover have "rx_next_gap_us ?rx1 = rx_next_gap_us rx" "rx_cfg ?rx1 = rx_cfg rx"
      "rx_hash_seed ?rx1 = rx_hash_seed rx" "rx_n_buckets ?rx1 = rx_n_buckets rx" by (simp_all add: p)
    ultimately show ?thesis using ih' True by (elim conjE) simp
  next
    case False
    let ?at = "rf_last_progress_us f + ucast (rc_ingress_idle_timeout_sec (rx_cfg rx)) * 1000000 + 1"
    let ?rx1 = "if ?at < rx_next_idle_us rx then rx\<lparr>rx_next_idle_us := ?at\<rparr> else rx"
    obtain c2 where c2: "idle_sweep_chain ?rx1 now_us c = (rx', c2)" "c' = f # c2"
      using False Cons.prems(3) by (simp add: Let_def split: prod.splits)
    have eq: "rx_next_gap_us ?rx1 = rx_next_gap_us rx" "rx_cfg ?rx1 = rx_cfg rx" "rx_n_flows ?rx1 = rx_n_flows rx"
      "rx_hash_seed ?rx1 = rx_hash_seed rx" "rx_n_buckets ?rx1 = rx_n_buckets rx" by simp_all
    have "rx_core ?rx1 ((xs @ [f]) @ c @ ys)" "rx_armed ?rx1 (set ((xs @ [f]) @ c @ ys))"
      using Cons.prems(1,2) by simp_all
    note ih = Cons.IH [OF this c2(1), unfolded eq]
    have "flow_is_idle ?rx1 now_us = flow_is_idle rx now_us" by (simp add: flow_is_idle_def fun_eq_iff)
    then show ?thesis using ih False c2(2) by (elim conjE) simp
  qed
qed simp

lemma idle_sweep_spec:
  assumes "rx_core rx (xs @ concat b)" and "rx_armed rx (set (xs @ concat b))"
    and "idle_sweep rx now_us b = (rx', b')"
  shows "rx_core rx' (xs @ concat b') \<and> rx_next_gap_us rx' = rx_next_gap_us rx \<and>
    b' = map (filter (\<lambda>f. \<not> flow_is_idle rx now_us f)) b \<and>
    rx_n_flows rx' + of_nat (length (concat b)) = rx_n_flows rx + of_nat (length (concat b')) \<and>
    rx_cfg rx' = rx_cfg rx \<and> rx_hash_seed rx' = rx_hash_seed rx \<and> rx_n_buckets rx' = rx_n_buckets rx"
  using assms
proof (induction b arbitrary: rx xs b')
  case (Cons c b)
  obtain rx1 c1 where s: "idle_sweep_chain rx now_us c = (rx1, c1)" by fastforce
  obtain b2 where b2: "idle_sweep rx1 now_us b = (rx', b2)" "b' = c1 # b2"
    using Cons.prems(3) by (simp add: s split: prod.splits)
  have "rx_core rx (xs @ c @ concat b)" "rx_armed rx (set (xs @ c @ concat b))" using Cons.prems(1,2) by simp_all
  note st = idle_sweep_chain_spec [OF this s]
  have "rx_core rx1 (xs @ c1 @ concat b)" using st by blast
  then have "rx_core rx1 ((xs @ c1) @ concat b)" by simp
  moreover have "rx_armed rx1 (set ((xs @ c1) @ concat b))"
    using Cons.prems(2) st by (auto simp: rx_armed_def)
  ultimately have ih: "rx_core rx' ((xs @ c1) @ concat b2) \<and> rx_next_gap_us rx' = rx_next_gap_us rx1 \<and>
    b2 = map (filter (\<lambda>f. \<not> flow_is_idle rx1 now_us f)) b \<and>
    rx_n_flows rx' + of_nat (length (concat b)) = rx_n_flows rx1 + of_nat (length (concat b2)) \<and>
    rx_cfg rx' = rx_cfg rx1 \<and> rx_hash_seed rx' = rx_hash_seed rx1 \<and> rx_n_buckets rx' = rx_n_buckets rx1"
    using b2(1) by (intro Cons.IH)
  have "flow_is_idle rx1 now_us = flow_is_idle rx now_us" using st by (simp add: flow_is_idle_def fun_eq_iff)
  moreover have "rx_n_flows rx' + of_nat (length (concat (c # b))) = rx_n_flows rx + of_nat (length (concat b'))"
  proof -
    have 1: "rx_n_flows rx' + of_nat (length (concat b)) = rx_n_flows rx1 + of_nat (length (concat b2))" using ih by blast
    have 2: "rx_n_flows rx1 + of_nat (length c) = rx_n_flows rx + of_nat (length c1)" using st by blast
    have "rx_n_flows rx' + of_nat (length (concat (c # b))) =
        (rx_n_flows rx' + of_nat (length (concat b))) + of_nat (length c)" by simp
    also have "\<dots> = (rx_n_flows rx1 + of_nat (length c)) + of_nat (length (concat b2))" by (simp only: 1 add_ac)
    also have "\<dots> = rx_n_flows rx + of_nat (length (concat b'))" by (simp add: 2 b2(2) add_ac)
    finally show ?thesis .
  qed
  ultimately show ?case using ih st b2(2) by (elim conjE) simp
qed simp

lemma table_wf_filter:
  assumes "table_wf key idx n b"
  shows "table_wf key idx n (map (filter P) b)"
  using assms by (auto simp: table_wf_def list_all_iff distinct_map_filter)

lemma rx_invD:
  assumes "rx_inv rx"
  shows "rx_n_buckets rx = 1024" "table_wf rf_key (rx_chain (rx_hash_seed rx)) 1024 (rx_buckets rx)"
    "rx_core rx (concat (rx_buckets rx))" "rx_armed rx (set (concat (rx_buckets rx)))"
    "rx_n_flows rx = of_nat (length (concat (rx_buckets rx)))"
    "0 < rc_max_flows (rx_cfg rx) \<longrightarrow> length (concat (rx_buckets rx)) \<le> unat (rc_max_flows (rx_cfg rx))"
    "is_pow2 (unat (flow_cap (rx_cfg rx) key))"
  using assms unfolding rx_inv_def by blast+

lemma rx_inv_frame:
  assumes "rx_inv rx" and "rx_cfg rx' = rx_cfg rx" "rx_hash_seed rx' = rx_hash_seed rx" "rx_n_buckets rx' = rx_n_buckets rx"
    and "table_wf rf_key (rx_chain (rx_hash_seed rx)) 1024 (rx_buckets rx')"
    and "rx_core rx' (concat (rx_buckets rx'))" and "rx_armed rx' (set (concat (rx_buckets rx')))"
    and "rx_n_flows rx' = of_nat (length (concat (rx_buckets rx')))"
    and "0 < rc_max_flows (rx_cfg rx) \<longrightarrow> length (concat (rx_buckets rx')) \<le> unat (rc_max_flows (rx_cfg rx))"
  shows "rx_inv rx'"
  using assms unfolding rx_inv_def by simp

lemma tick_idle_inv:
  assumes "rx_inv rx"
  shows "rx_inv (tick_idle rx now_us)"
    "rx_buckets (tick_idle rx now_us) = map (filter (\<lambda>f. \<not> flow_is_idle rx now_us f)) (rx_buckets rx)"
proof -
  let ?rx = "rx\<lparr>rx_next_idle_us := - 1\<rparr>" and ?b = "map (filter (\<lambda>f. \<not> flow_is_idle rx now_us f)) (rx_buckets rx)"
  note I = rx_invD [OF assms]
  obtain rx' b where s: "idle_sweep ?rx now_us (rx_buckets rx) = (rx', b)" by fastforce
  have "rx_core ?rx ([] @ concat (rx_buckets rx))" "rx_armed ?rx (set ([] @ concat (rx_buckets rx)))"
    unfolding append_Nil rx_core_updates by (fact I)+
  note sp = idle_sweep_spec [OF this s, unfolded append_Nil]
  have "flow_is_idle ?rx now_us = flow_is_idle rx now_us" by (simp add: flow_is_idle_def fun_eq_iff)
  note idle = this
  have "b = map (filter (\<lambda>f. \<not> flow_is_idle ?rx now_us f)) (rx_buckets rx)" using sp by blast
  then have b: "b = ?b" unfolding idle .
  have t: "tick_idle rx now_us = rx'\<lparr>rx_buckets := b\<rparr>" by (simp add: tick_idle_def s)
  then show "rx_buckets (tick_idle rx now_us) = ?b" by (simp add: b)
  have fl: "concat b = filter (\<lambda>f. \<not> flow_is_idle rx now_us f) (concat (rx_buckets rx))"
    unfolding b by (rule filter_concat [symmetric])
  have n: "rx_n_flows rx' + of_nat (length (concat (rx_buckets rx))) = rx_n_flows ?rx + of_nat (length (concat b))"
    using sp by blast
  show "rx_inv (tick_idle rx now_us)"
  proof (rule rx_inv_frame [OF assms])
    show "rx_cfg (tick_idle rx now_us) = rx_cfg rx" "rx_hash_seed (tick_idle rx now_us) = rx_hash_seed rx"
      "rx_n_buckets (tick_idle rx now_us) = rx_n_buckets rx" using sp by (simp_all add: t)
    show "table_wf rf_key (rx_chain (rx_hash_seed rx)) 1024 (rx_buckets (tick_idle rx now_us))"
      using table_wf_filter [OF I(2)] by (simp add: t b)
    have "rx_core rx' (concat b)" using sp by blast
    then show "rx_core (tick_idle rx now_us) (concat (rx_buckets (tick_idle rx now_us)))" by (simp add: t)
    have "rx_armed rx (set (concat b))" by (rule rx_armed_subset [OF I(4)]) (auto simp: fl)
    moreover have "rx_next_gap_us rx' = rx_next_gap_us rx" using sp by simp
    ultimately show "rx_armed (tick_idle rx now_us) (set (concat (rx_buckets (tick_idle rx now_us))))"
      unfolding t by (simp add: rx_armed_def)
    show "rx_n_flows (tick_idle rx now_us) = of_nat (length (concat (rx_buckets (tick_idle rx now_us))))"
      using n I(5) unfolding t by simp
    have "length (concat b) \<le> length (concat (rx_buckets rx))" unfolding fl by (rule length_filter_le)
    then show "0 < rc_max_flows (rx_cfg rx) \<longrightarrow>
        length (concat (rx_buckets (tick_idle rx now_us))) \<le> unat (rc_max_flows (rx_cfg rx))"
      using I(6) unfolding t by auto
  qed
qed

lemma mqvpn_reorder_rx_tick_inv:
  assumes "rx_inv rx"
  shows "rx_inv (mqvpn_reorder_rx_tick rx now_us)"
  using assms tick_gaps_inv(1) tick_idle_inv(1) by (simp add: mqvpn_reorder_rx_tick_def Let_def)


section \<open>Eviction and creation\<close>

text \<open>The scan finds a flow of least progress whenever there is one.\<close>

lemma lru_scan_spec:
  "(lru_scan fs oldest victim = victim \<and> (\<forall>f \<in> set fs. oldest < rf_last_progress_us f)) \<or>
   (\<exists>f \<in> set fs. lru_scan fs oldest victim = Some f \<and> rf_last_progress_us f \<le> oldest \<and>
      (\<forall>g \<in> set fs. rf_last_progress_us f \<le> rf_last_progress_us g))"
proof (induction fs arbitrary: oldest victim)
  case (Cons f fs)
  show ?case
  proof (cases "rf_last_progress_us f \<le> oldest")
    case True
    from Cons.IH [of "rf_last_progress_us f" "Some f"] show ?thesis
      using True by (auto intro: order_trans)
  next
    case False
    from Cons.IH [of oldest victim] show ?thesis using False by (auto intro: order_trans)
  qed
qed simp

lemma lru_scan_None: "lru_scan fs (- 1) None = None \<longleftrightarrow> fs = []"
proof
  assume "lru_scan fs (- 1) None = None"
  then have "\<forall>f \<in> set fs. - 1 < rf_last_progress_us f" using lru_scan_spec [of fs "- 1" None] by auto
  then show "fs = []" by (cases fs) (auto simp: not_less [symmetric])
qed simp

lemma lru_scan_Some:
  assumes "lru_scan fs (- 1) None = Some v"
  shows "v \<in> set fs" "g \<in> set fs \<Longrightarrow> rf_last_progress_us v \<le> rf_last_progress_us g"
  using assms lru_scan_spec [of fs "- 1" None] by auto

lemma evict_lru_flow_inv:
  assumes inv: "rx_inv rx" and v: "lru_scan (concat (rx_buckets rx)) (- 1) None = Some v"
  shows "rx_inv (evict_lru_flow rx)" (is ?inv)
    "length (concat (rx_buckets (evict_lru_flow rx))) + 1 = length (concat (rx_buckets rx))" (is ?len)
    "set (concat (rx_buckets (evict_lru_flow rx))) \<subseteq> set (concat (rx_buckets rx))" (is ?sub)
    "rx_cfg (evict_lru_flow rx) = rx_cfg rx" (is ?cfg)
    "rx_hash_seed (evict_lru_flow rx) = rx_hash_seed rx" (is ?seed)
    "rx_delivered (evict_lru_flow rx) = rx_delivered rx" (is ?del)
    "rx_evicted_stats (evict_lru_flow rx) = mqvpn_reorder_stats_accumulate (rx_evicted_stats rx) (rf_stats v)" (is ?st)
    "g \<in> set (concat (rx_buckets rx)) \<Longrightarrow> g \<noteq> v \<Longrightarrow> g \<in> set (concat (rx_buckets (evict_lru_flow rx)))"
proof -
  note I = rx_invD [OF inv] and m = lru_scan_Some(1) [OF v]
  let ?c = "rx_chain (rx_hash_seed rx)" let ?b = "table_map ?c (rf_key v) (chain_unlink rf_key (rf_key v)) (rx_buckets rx)"
  let ?rx = "rx\<lparr>rx_buckets := ?b\<rparr>"
  have sub: "set (concat ?b) \<subseteq> set (concat (rx_buckets rx))" by (rule rt.set_unlink)
  note sum = rt.sum_unlink [OF I(2) m]
  have len: "length (concat ?b) + 1 = length (concat (rx_buckets rx))"
    using sum [of "\<lambda>_. 1"] unfolding sum_list_triv length_map by simp
  have "rx_core ?rx (concat (rx_buckets rx))" using I(3) by simp
  note d = flow_destroy_core [OF this m sub sum]
  obtain p where p: "flow_destroy ?rx v = ?rx\<lparr>rx_evicted_stats := mqvpn_reorder_stats_accumulate (rx_evicted_stats ?rx) (rf_stats v),
        rx_pool_bytes_used := p\<rparr>" using d(2) by blast
  have ev: "evict_lru_flow rx = (flow_destroy ?rx v)\<lparr>rx_n_flows := rx_n_flows rx - 1\<rparr>"
    by (simp add: evict_lru_flow_def v Let_def rx_idx_chain [OF I(1)] p)
  have b: "rx_buckets (evict_lru_flow rx) = ?b" by (simp add: ev p)
  show ?len ?sub using len sub unfolding b by simp_all
  show "g \<in> set (concat (rx_buckets (evict_lru_flow rx)))" if g: "g \<in> set (concat (rx_buckets rx))" "g \<noteq> v"
    unfolding b using I(2) g(1) by (rule rt.unlink_keeps) (use rt.key_inj [OF I(2) g(1) m] g(2) in blast)
  show eqs: ?cfg ?seed ?del ?st by (simp_all add: ev p)
  show ?inv
  proof (rule rx_inv_frame [OF inv])
    show ?cfg ?seed by (fact eqs)+
    show "rx_n_buckets (evict_lru_flow rx) = rx_n_buckets rx" by (simp add: ev p)
    show "table_wf rf_key ?c 1024 (rx_buckets (evict_lru_flow rx))" unfolding b by (rule rt.wf_unlink [OF I(2)])
    show "rx_core (evict_lru_flow rx) (concat (rx_buckets (evict_lru_flow rx)))"
      using d(1) unfolding b unfolding ev by simp
    have "rx_armed rx (set (concat ?b))" by (rule rx_armed_subset [OF I(4) sub])
    then show "rx_armed (evict_lru_flow rx) (set (concat (rx_buckets (evict_lru_flow rx))))"
      unfolding b by (simp add: ev p)
    show "rx_n_flows (evict_lru_flow rx) = of_nat (length (concat (rx_buckets (evict_lru_flow rx))))"
      using I(5) unfolding b len [symmetric] by (simp add: ev)
    show "0 < rc_max_flows (rx_cfg rx) \<longrightarrow> length (concat (rx_buckets (evict_lru_flow rx))) \<le> unat (rc_max_flows (rx_cfg rx))"
      using I(6) unfolding b len [symmetric] by auto
  qed
qed

lemma flow_new_inv: "is_pow2 (unat (flow_cap cfg key)) \<Longrightarrow> flow_inv (flow_new cfg key)"
  using ring_wf_init [of "flow_cap cfg key" 0]
  by (simp add: flow_inv_def flow_mid_defs flow_ring_ok_def flow_new_def ring_init_def ring_empty_def
      ring_contains_def gap_open_def stats_zero_def)

text \<open>Room for one more flow is made before it is created.\<close>

definition make_room :: "mqvpn_reorder_rx \<Rightarrow> mqvpn_reorder_rx" where
  "make_room rx = (if rc_max_flows (rx_cfg rx) > 0 \<and> rx_n_flows rx \<ge> rc_max_flows (rx_cfg rx)
     then evict_lru_flow rx else rx)"

lemma rx_n_flows_exact:
  assumes "rx_inv rx" and "0 < rc_max_flows (rx_cfg rx)"
  shows "unat (rx_n_flows rx) = length (concat (rx_buckets rx))"
proof -
  note I = rx_invD [OF assms(1)]
  have "length (concat (rx_buckets rx)) < 2 ^ 32"
    using I(6) assms(2) unat_u32_lt [of "rc_max_flows (rx_cfg rx)"] by simp
  then show ?thesis unfolding I(5) by (simp add: take_bit_nat_eq_self unsigned_of_nat)
qed

lemma make_room_inv:
  assumes inv: "rx_inv rx"
  shows "rx_inv (make_room rx)" "rx_cfg (make_room rx) = rx_cfg rx" "rx_hash_seed (make_room rx) = rx_hash_seed rx"
    "set (concat (rx_buckets (make_room rx))) \<subseteq> set (concat (rx_buckets rx))"
    "rx_delivered (make_room rx) = rx_delivered rx"
    "0 < rc_max_flows (rx_cfg rx) \<Longrightarrow> length (concat (rx_buckets (make_room rx))) + 1 \<le> unat (rc_max_flows (rx_cfg rx))"
proof -
  note I = rx_invD [OF inv]
  let ?n = "length (concat (rx_buckets rx))" and ?max = "rc_max_flows (rx_cfg rx)"
  note n = rx_n_flows_exact [OF inv]
  have "rx_inv (make_room rx) \<and> rx_cfg (make_room rx) = rx_cfg rx \<and> rx_hash_seed (make_room rx) = rx_hash_seed rx \<and>
    set (concat (rx_buckets (make_room rx))) \<subseteq> set (concat (rx_buckets rx)) \<and>
    rx_delivered (make_room rx) = rx_delivered rx \<and>
    (0 < ?max \<longrightarrow> length (concat (rx_buckets (make_room rx))) + 1 \<le> unat ?max)"
  proof (cases "?max > 0 \<and> rx_n_flows rx \<ge> ?max")
    case False
    then have "make_room rx = rx" unfolding make_room_def by (rule if_not_P)
    moreover have "?n + 1 \<le> unat ?max" if "0 < ?max"
      using False that n by (simp add: word_le_nat_alt)
    ultimately show ?thesis using inv by simp
  next
    case True
    have "concat (rx_buckets rx) \<noteq> []"
    proof
      assume "concat (rx_buckets rx) = []"
      then have "rx_n_flows rx = of_nat (length ([] :: mqvpn_reorder_flow list))" using I(5) by (simp only:)
      then show False using True by auto
    qed
    then obtain v where v: "lru_scan (concat (rx_buckets rx)) (- 1) None = Some v"
      using lru_scan_None by (cases "lru_scan (concat (rx_buckets rx)) (- 1) None") auto
    have "make_room rx = evict_lru_flow rx" unfolding make_room_def by (rule if_P) (fact True)
    then show ?thesis using evict_lru_flow_inv [OF inv v] I(6) by auto
  qed
  then show "rx_inv (make_room rx)" "rx_cfg (make_room rx) = rx_cfg rx" "rx_hash_seed (make_room rx) = rx_hash_seed rx"
    "set (concat (rx_buckets (make_room rx))) \<subseteq> set (concat (rx_buckets rx))"
    "rx_delivered (make_room rx) = rx_delivered rx"
    "0 < ?max \<Longrightarrow> length (concat (rx_buckets (make_room rx))) + 1 \<le> unat ?max"
    by blast+
qed


lemma flow_get_or_create_inv:
  assumes inv: "rx_inv rx" and w: "flow_wait_ms (rx_cfg rx) key \<noteq> 0"
    and g: "flow_get_or_create al rx key = (rx', r)"
  shows "rx_inv rx'" "r = Some f \<Longrightarrow> f \<in> set (concat (rx_buckets rx')) \<and> rf_key f = key"
    "rx_delivered rx' = rx_delivered rx" "rx_cfg rx' = rx_cfg rx"
proof -
  note I = rx_invD [OF inv]
  have "rx_inv rx' \<and> (r = Some f \<longrightarrow> f \<in> set (concat (rx_buckets rx')) \<and> rf_key f = key) \<and>
    rx_delivered rx' = rx_delivered rx \<and> rx_cfg rx' = rx_cfg rx"
  proof (cases "flow_lookup rx key")
    case (Some f0)
    then have "chain_lookup rf_key (rx_buckets rx ! rx_chain (rx_hash_seed rx) key) key = Some f0"
      by (simp add: flow_lookup_def rx_idx_chain [OF I(1)])
    from rt.lookup_member [OF I(2) this] show ?thesis
      using g Some inv by (auto simp: flow_get_or_create_def)
  next
    case None
    note M = make_room_inv [OF inv] and J = rx_invD [OF make_room_inv(1) [OF inv]]
    let ?rx = "make_room rx"
    show ?thesis
    proof (cases "al_flow al")
      case False
      then have "rx' = ?rx \<and> r = None"
        using g None by (simp add: flow_get_or_create_def make_room_def [symmetric] Let_def)
      then show ?thesis using M by simp
    next
      case True
      let ?f = "flow_new (rx_cfg rx) key" let ?c = "rx_chain (rx_hash_seed rx)"
      let ?b = "table_map ?c key ((#) ?f) (rx_buckets ?rx)"
      have eq: "rx' = ?rx\<lparr>rx_buckets := ?b, rx_n_flows := rx_n_flows ?rx + 1, rx_next_idle_us := 0\<rparr>" "r = Some ?f"
        using g None True M(2)
        by (simp_all add: flow_get_or_create_def make_room_def [symmetric] Let_def rx_idx_chain [OF J(1)] M(3))
      have k: "rf_key ?f = key" by (simp add: flow_new_def)
      have "f \<notin> set (concat (rx_buckets rx))" if "rf_key f = key" for f
        using rt.lookup_complete [OF I(2), of f] None that by (auto simp: flow_lookup_def rx_idx_chain [OF I(1)])
      then have fresh: "f \<notin> set (concat (rx_buckets ?rx))" if "rf_key f = key" for f using that M(4) by blast
      have none: "chain_lookup rf_key (rx_buckets ?rx ! ?c (rf_key ?f)) (rf_key ?f) = None"
      proof (rule ccontr)
        assume "\<not> ?thesis"
        then obtain g where "chain_lookup rf_key (rx_buckets ?rx ! ?c key) key = Some g" by (auto simp: k)
        from rt.lookup_member [OF J(2) [unfolded M(3)] this] show False using fresh by blast
      qed
      have sub: "set (concat ?b) \<subseteq> insert ?f (set (concat (rx_buckets ?rx)))"
        using rt.set_push [of "rx_hash_seed rx" ?f] by (simp only: k)
      note sum = rt.sum_push [OF J(2) [unfolded M(3)], of _ ?f, unfolded k]
      have len: "length (concat ?b) = length (concat (rx_buckets ?rx)) + 1"
        using sum [of "\<lambda>_. 1"] unfolding sum_list_triv length_map by simp
      have "?f \<in> set (concat ?b)"
      proof -
        have "?c key < length (rx_buckets ?rx)" using J(2) rx_chain_less by (simp add: table_wf_def M(3))
        then have "?f # rx_buckets ?rx ! ?c key \<in> set ?b" by (simp add: table_map_def set_update_memI)
        then show ?thesis by force
      qed
      moreover have "rx_inv rx'"
      proof (rule rx_inv_frame [OF M(1)])
        show "rx_cfg rx' = rx_cfg ?rx" "rx_hash_seed rx' = rx_hash_seed ?rx" "rx_n_buckets rx' = rx_n_buckets ?rx"
          by (simp_all add: eq)
        show "table_wf rf_key (rx_chain (rx_hash_seed ?rx)) 1024 (rx_buckets rx')"
          using rt.wf_push [OF J(2) [unfolded M(3)] none] by (simp add: eq M(3) k)
        have "flow_inv ?f" using I(7) by (rule flow_new_inv)
        moreover have "rf_wait_ms ?f \<noteq> 0" "rg_bytes (rf_buffer ?f) = 0" "\<not> rf_gap_timer_active ?f"
          using w by (simp_all add: flow_new_def ring_init_def)
        ultimately have f: "flow_inv ?f" "rf_wait_ms ?f \<noteq> 0" "rg_bytes (rf_buffer ?f) = 0" "\<not> rf_gap_timer_active ?f" .
        have "rx_core ?rx (concat ?b)"
          using J(3) f sub sum [of "\<lambda>f. unat (rg_bytes (rf_buffer f))"] unfolding rx_core_def by (auto simp: subset_iff)
        then show "rx_core rx' (concat (rx_buckets rx'))" by (simp add: eq)
        have "rx_armed ?rx (insert ?f (set (concat (rx_buckets ?rx))))" using J(4) f(4) by (simp add: rx_armed_def)
        then have "rx_armed ?rx (set (concat ?b))" using sub by (rule rx_armed_subset)
        then show "rx_armed rx' (set (concat (rx_buckets rx')))" by (simp add: eq)
        show "rx_n_flows rx' = of_nat (length (concat (rx_buckets rx')))"
          using J(5) len by (simp add: eq)
        show "0 < rc_max_flows (rx_cfg ?rx) \<longrightarrow> length (concat (rx_buckets rx')) \<le> unat (rc_max_flows (rx_cfg ?rx))"
          using M(6) len by (simp add: eq M(2))
      qed
      ultimately show ?thesis using eq(2) k M(2,5) by (auto simp: eq(1))
    qed
  qed
  then show "rx_inv rx'" "r = Some f \<Longrightarrow> f \<in> set (concat (rx_buckets rx')) \<and> rf_key f = key"
    "rx_delivered rx' = rx_delivered rx" "rx_cfg rx' = rx_cfg rx" by blast+
qed


section \<open>Packets, ticks and runs\<close>

lemma decode_seq_bound:
  assumes "mqvpn_reorder_wire_decode payload = Some (Some (t, fl, seq))"
  shows "seq < 2 ^ 48"
proof -
  obtain b2 b3 b4 b5 b6 b7 :: u8 where seq: "seq =
      push_bit 40 (ucast b2) OR push_bit 32 (ucast b3) OR push_bit 24 (ucast b4) OR
      push_bit 16 (ucast b5) OR push_bit 8 (ucast b6) OR ucast b7"
    using assms by (auto simp: mqvpn_reorder_wire_decode_def split: if_splits Option.bind_splits)
  have "\<not> bit seq n" if "48 \<le> n" for n
    using that by (auto simp: seq bit_simps dest: bit_imp_le_length)
  then have "bit seq n \<Longrightarrow> n < 48" for n using not_le by blast
  then have "take_bit 48 seq = seq" by (intro bit_eqI) (auto simp: bit_simps)
  then have "unat (take_bit 48 seq) = unat seq" by simp
  then have "take_bit 48 (unat seq) = unat seq" by (simp add: unsigned_take_bit_eq)
  then have "unat seq < 2 ^ 48" by (metis take_bit_nat_less_exp)
  then show ?thesis by (simp add: word_less_nat_alt)
qed

lemma on_packet_cases:
  "mqvpn_reorder_rx_on_packet al rx payload now_us = rx \<or>
   mqvpn_reorder_rx_on_packet al rx payload now_us =
     rx\<lparr>rx_delivered := rx_delivered rx @ [drop MQVPN_REORDER_HDR_LEN payload]\<rparr> \<or>
   (\<exists>t fl seq key rx1 r. mqvpn_reorder_wire_decode payload = Some (Some (t, fl, seq)) \<and>
      flow_wait_ms (rx_cfg rx) key \<noteq> 0 \<and> flow_get_or_create al rx key = (rx1, r) \<and>
      mqvpn_reorder_rx_on_packet al rx payload now_us =
        (case r of None \<Rightarrow> rx1
         | Some f \<Rightarrow> (let (rx2, f') = on_reordered al rx1 f seq fl (drop MQVPN_REORDER_HDR_LEN payload)
                          (of_nat (length payload - MQVPN_REORDER_HDR_LEN)) now_us
                     in flow_put rx2 f')))"
proof (cases "\<exists>t fl seq. mqvpn_reorder_wire_decode payload = Some (Some (t, fl, seq))")
  case False
  then have "mqvpn_reorder_rx_on_packet al rx payload now_us = rx"
    by (auto simp: mqvpn_reorder_rx_on_packet_def split: option.split)
  then show ?thesis by blast
next
  case True
  then obtain t fl seq where d: "mqvpn_reorder_wire_decode payload = Some (Some (t, fl, seq))" by blast
  let ?inner = "drop MQVPN_REORDER_HDR_LEN payload" and ?len = "length payload - MQVPN_REORDER_HDR_LEN"
  show ?thesis
  proof (cases "t \<noteq> MQVPN_REORDER_TYPE_V1 \<or> ?len = 0 \<or> ?len > 65535 \<or>
      rc_max_wait_ms (rx_cfg rx) = 0 \<and> rc_rules (rx_cfg rx) = [] \<or>
      \<not> (\<exists>key. mqvpn_reorder_parse_5tuple ?inner = Some (Some key))")
    case True
    then have "mqvpn_reorder_rx_on_packet al rx payload now_us = rx \<or>
        mqvpn_reorder_rx_on_packet al rx payload now_us = rx\<lparr>rx_delivered := rx_delivered rx @ [?inner]\<rparr>"
      by (auto simp: mqvpn_reorder_rx_on_packet_def d Let_def split: option.split)
    then show ?thesis by blast
  next
    case False
    then obtain key where key: "mqvpn_reorder_parse_5tuple ?inner = Some (Some key)" by blast
    obtain rx1 r where g: "flow_get_or_create al rx key = (rx1, r)" by fastforce
    have eq: "mqvpn_reorder_rx_on_packet al rx payload now_us =
        (if flow_wait_ms (rx_cfg rx) key = 0 then rx\<lparr>rx_delivered := rx_delivered rx @ [?inner]\<rparr>
         else case r of None \<Rightarrow> rx1
         | Some f \<Rightarrow> (let (rx2, f') = on_reordered al rx1 f seq fl ?inner (of_nat ?len) now_us in flow_put rx2 f'))"
      using False by (auto simp: mqvpn_reorder_rx_on_packet_def d key g Let_def split: option.split)
    show ?thesis
    proof (cases "flow_wait_ms (rx_cfg rx) key = 0")
      case True
      then show ?thesis using eq by simp
    next
      case False
      then show ?thesis using eq d g by auto
    qed
  qed
qed

lemma mqvpn_reorder_rx_on_packet_inv:
  assumes inv: "rx_inv rx"
  shows "rx_inv (mqvpn_reorder_rx_on_packet al rx payload now_us)"
  using on_packet_cases [of al rx payload now_us]
proof (elim disjE exE conjE)
  assume "mqvpn_reorder_rx_on_packet al rx payload now_us = rx"
  then show ?thesis using inv by simp
next
  assume eq: "mqvpn_reorder_rx_on_packet al rx payload now_us =
     rx\<lparr>rx_delivered := rx_delivered rx @ [drop MQVPN_REORDER_HDR_LEN payload]\<rparr>"
  show ?thesis unfolding eq using rx_invD [OF inv] by (intro rx_inv_frame [OF inv]) simp_all
next
  fix t fl seq key rx1 r
  assume d: "mqvpn_reorder_wire_decode payload = Some (Some (t, fl, seq))"
    and w: "flow_wait_ms (rx_cfg rx) key \<noteq> 0" and g: "flow_get_or_create al rx key = (rx1, r)"
    and eq: "mqvpn_reorder_rx_on_packet al rx payload now_us =
        (case r of None \<Rightarrow> rx1
         | Some f \<Rightarrow> (let (rx2, f') = on_reordered al rx1 f seq fl (drop MQVPN_REORDER_HDR_LEN payload)
                          (of_nat (length payload - MQVPN_REORDER_HDR_LEN)) now_us
                     in flow_put rx2 f'))"
  note G = flow_get_or_create_inv [OF inv w g]
  show ?thesis
  proof (cases r)
    case None
    then show ?thesis using eq G(1) by simp
  next
    case (Some f)
    then have f: "f \<in> set (concat (rx_buckets rx1))" using G(2) by blast
    note J = rx_invD [OF G(1)]
    have "flow_pre rx1 f" using J(3) f J(4) by (rule rx_core_pre)
    then have "flow_op {} rx1 f (on_reordered al rx1 f seq fl (drop MQVPN_REORDER_HDR_LEN payload)
        (of_nat (length payload - MQVPN_REORDER_HDR_LEN)) now_us)"
      using decode_seq_bound [OF d] by (intro on_reordered_op) auto
    moreover obtain rx2 f2 where o: "on_reordered al rx1 f seq fl (drop MQVPN_REORDER_HDR_LEN payload)
        (of_nat (length payload - MQVPN_REORDER_HDR_LEN)) now_us = (rx2, f2)" by fastforce
    ultimately have "rx_inv (flow_put rx2 f2)" using flow_put_inv [OF G(1) f] by simp
    then show ?thesis unfolding eq Some by (simp add: o)
  qed
qed

lemma flow_cap_finalize:
  assumes "mqvpn_reorder_config_validate cfg"
  shows "is_pow2 (unat (flow_cap (mqvpn_reorder_config_finalize cfg) key))"
proof -
  have "mqvpn_reorder_cap_is_valid (flow_cap (mqvpn_reorder_config_finalize cfg) key)"
    using assms finalize_rule_cap_valid unfolding flow_cap_def match_rule_finalize
    by (cases "mqvpn_reorder_match_rule cfg key")
      (simp_all add: mqvpn_reorder_config_validate_def mqvpn_reorder_config_finalize_def)
  then show ?thesis by (simp add: mqvpn_reorder_cap_is_valid_iff is_pow2_def)
qed

lemma mqvpn_reorder_rx_new_inv:
  assumes n: "mqvpn_reorder_rx_new ok1 ok2 cfg seed = Some rx"
    and max: "unat (rc_global_max_buffer_bytes cfg) + 65536 \<le> 2 ^ 64"
  shows "rx_inv rx"
proof -
  have v: "mqvpn_reorder_config_validate cfg"
    and rx: "rx = \<lparr>rx_cfg = mqvpn_reorder_config_finalize cfg, rx_hash_seed = seed,
                 rx_delivered = [], rx_buckets = replicate (unat MQVPN_RX_BUCKETS) [],
                 rx_n_buckets = MQVPN_RX_BUCKETS, rx_n_flows = 0, rx_next_gap_us = 0,
                 rx_next_idle_us = 0, rx_pool_bytes_used = 0, rx_evicted_stats = stats_zero\<rparr>"
    using n by (simp_all add: mqvpn_reorder_rx_new_def split: if_splits)
  have c: "concat (replicate k []) = []" for k by (induction k) simp_all
  have "rc_global_max_buffer_bytes (mqvpn_reorder_config_finalize cfg) = rc_global_max_buffer_bytes cfg"
    by (simp add: mqvpn_reorder_config_finalize_def)
  then show ?thesis
    using max flow_cap_finalize [OF v]
    by (simp add: rx_inv_def rx_core_def rx_armed_def table_wf_def rx c MQVPN_RX_BUCKETS_def del: concat_replicate_trivial)
qed

lemma set_force_no_demotion_inv:
  assumes inv: "rx_inv rx"
  shows "rx_inv (mqvpn_reorder_rx_set_force_no_demotion rx force)"
proof -
  let ?cfg = "(rx_cfg rx)\<lparr>rc_eval_force_no_demotion := force\<rparr>"
  have "flow_cap ?cfg key = flow_cap (rx_cfg rx) key" for key
    unfolding flow_cap_def mqvpn_reorder_match_rule_def by (simp split: option.split)
  then show ?thesis
    using inv by (simp add: rx_inv_def rx_core_def rx_armed_def mqvpn_reorder_rx_set_force_no_demotion_def)
qed

end
