(* ===== verification/Rx_Props.thy ===== *)
theory Rx_Props
  imports Rx_Engine
begin

text \<open>
  What the receive side of the reorder shim (\<^verbatim>\<open>src/reorder_rx.c\<close>) guarantees, over runs of one flow
  and of the whole engine, with concrete runs that meet the hypotheses.
\<close>

section \<open>One flow\<close>

datatype flow_event =
    Flow_Packet rx_alloc u64 u8 "u8 list" u16 u64
  | Flow_Gap u64

fun flow_step :: "mqvpn_reorder_rx \<times> mqvpn_reorder_flow \<Rightarrow> flow_event \<Rightarrow> mqvpn_reorder_rx \<times> mqvpn_reorder_flow" where
  "flow_step (rx, f) (Flow_Packet al seq flags pkt len now_us) = on_reordered al rx f seq flags pkt len now_us"
| "flow_step (rx, f) (Flow_Gap now_us) = (if rf_gap_timer_active f then on_gap_timeout rx f now_us else (rx, f))"

text \<open>Within an epoch every packet carries its sequence number and no reset is honoured.\<close>

fun epoch_event :: "(u8 list \<Rightarrow> u64) \<Rightarrow> mqvpn_reorder_rx \<times> mqvpn_reorder_flow \<Rightarrow> flow_event \<Rightarrow> bool" where
  "epoch_event tag (rx, f) (Flow_Packet al seq flags pkt len now_us) \<longleftrightarrow>
     seq < 2 ^ 48 \<and> tag pkt = seq \<and> \<not> reset_honored rx f flags now_us"
| "epoch_event tag (rx, f) (Flow_Gap now_us) \<longleftrightarrow> True"

definition epoch_inv :: "(u8 list \<Rightarrow> u64) \<Rightarrow> u8 list list \<Rightarrow> mqvpn_reorder_rx \<times> mqvpn_reorder_flow \<Rightarrow> bool" where
  "epoch_inv tag base s \<longleftrightarrow> flow_pre (fst s) (snd s) \<and> (rf_pass_through (snd s) \<or> ord_inv tag base (fst s) (snd s))"

lemma on_reordered_pass_through:
  assumes "rf_pass_through f" and "\<not> reset_honored rx f flags now_us"
  shows "rf_pass_through (snd (on_reordered al rx f seq flags pkt len now_us))"
proof -
  have "\<not> reset_honored rx (f\<lparr>rf_last_seen_us := now_us\<rparr>) flags now_us"
    using assms(2) by (simp add: reset_honored_def)
  then show ?thesis using assms(1) by (simp add: on_reordered_def deliver_pkt_pair Let_def)
qed

lemma flow_preD_gap: "flow_pre rx f \<Longrightarrow> flow_base rx (f\<lparr>rf_gap_timer_active := False\<rparr>)"
  by (simp add: flow_pre_def flow_base_def)

lemma epoch_inv_step:
  assumes inv: "epoch_inv tag base s" and ok: "epoch_event tag s x"
  shows "epoch_inv tag base (flow_step s x)"
proof (cases x)
  case (Flow_Packet al seq flags pkt len now_us)
  obtain rx f where s: "s = (rx, f)" by fastforce
  have pre: "flow_pre rx f" and ev: "seq < 2 ^ 48" "tag pkt = seq" "\<not> reset_honored rx f flags now_us"
    using inv ok by (simp_all add: s Flow_Packet epoch_inv_def)
  let ?T = "if rf_pass_through f then {} else {tag}"
  have op: "flow_op ?T rx f (on_reordered al rx f seq flags pkt len now_us)"
    using pre ev(1) by (rule on_reordered_op) (use ev in simp)
  show ?thesis
  proof (cases "rf_pass_through f")
    case True
    then show ?thesis
      using on_reordered_pass_through [OF True ev(3)] op
      by (simp add: s Flow_Packet epoch_inv_def flow_op_def)
  next
    case False
    then show ?thesis using op inv by (simp add: s Flow_Packet epoch_inv_def flow_op_def)
  qed
next
  case (Flow_Gap now_us)
  obtain rx f where s: "s = (rx, f)" by fastforce
  have pre: "flow_pre rx f" using inv by (simp add: s epoch_inv_def)
  show ?thesis
  proof (cases "rf_gap_timer_active f")
    case False
    then show ?thesis using inv by (simp add: s Flow_Gap)
  next
    case True
    note op = on_gap_timeout_op [OF flow_preD(1) [OF pre] flow_preD_gap [OF pre] True, where now_us = now_us]
    have "flow_op {tag} rx f (on_gap_timeout rx f now_us)" by (rule op(1))
    then show ?thesis using inv op(3) True by (auto simp: s Flow_Gap epoch_inv_def flow_op_def)
  qed
qed

interpretation ep: machine flow_step "epoch_event tag" "epoch_inv tag base" for tag base
  by unfold_locales (rule epoch_inv_step)

text \<open>The packet that opens an epoch: the first of a fresh flow, or one whose reset is honoured.\<close>

lemma epoch_opens:
  assumes pre: "flow_pre rx f" and seq: "seq < 2 ^ 48" and tag: "tag pkt = seq"
    and new: "reset_honored rx f flags now_us \<or> \<not> rf_initialized f"
  shows "epoch_inv tag (rx_delivered rx) (flow_step (rx, f) (Flow_Packet al seq flags pkt len now_us))"
proof (cases "reset_honored rx f flags now_us")
  case False
  have "ring_empty (rf_buffer f)" using False new flow_preD(3) [OF pre] by (simp add: flow_mid_defs)
  then have "ord_inv tag (rx_delivered rx) rx f"
    using ring_empty_abs [OF flow_preD(5) [OF pre]] by (simp add: ord_inv_def)
  then have "epoch_inv tag (rx_delivered rx) (rx, f)" using pre by (simp add: epoch_inv_def)
  then show ?thesis by (rule ep.step_inv) (use False seq tag in simp)
next
  case True
  let ?f = "f\<lparr>rf_last_seen_us := now_us\<rparr>"
  have op: "flow_op {} rx f (on_reordered al rx f seq flags pkt len now_us)"
    using pre seq by (intro on_reordered_op) auto
  have h: "reset_honored rx ?f flags now_us" using True by (simp add: reset_honored_def)
  have pre': "flow_pre rx ?f" using pre by (simp add: flow_pre_def)
  obtain rx1 f1 where r: "reset_reorder_flow rx ?f = (rx1, f1)" by fastforce
  note m = reset_reorder_flow_mid [OF pre' r]
  have "ring_abs (rf_buffer f1) q = None" for q
    using m(1,2) ring_empty_abs [of "rf_buffer f1" "rf_expected f1"]
    by (simp add: flow_mid_defs flow_ring_ok_def)
  moreover have "seq \<noteq> - 1" using seq le_48_neq_max by auto
  then have "seq < seq + 1" by (simp add: word_less_nat_alt unat_inc)
  ultimately have "ord_inv tag (rx_delivered rx) (fst (on_reordered al rx f seq flags pkt len now_us))
      (snd (on_reordered al rx f seq flags pkt len now_us))"
    using m(7) tag h r by (simp add: on_reordered_def deliver_pkt_pair ord_inv_def Let_def)
  then show ?thesis using op by (simp add: epoch_inv_def flow_op_def)
qed

text \<open>
  C1: Within an epoch of a flow the receive engine restores the order: for any interleaving of
  packets (reordered, duplicated, late, too far ahead, dropped for want of memory) and gap
  timeouts after the packet that opens the epoch, the packets it delivers carry strictly
  increasing sequence numbers, unless the flow has been demoted to pass-through.
\<close>

theorem reorder_delivers_in_order:
  assumes "flow_pre rx f" and "reset_honored rx f flags now_us \<or> \<not> rf_initialized f"
    and "seq < 2 ^ 48" and "tag pkt = seq"
    and "run_ok flow_step (epoch_event tag) (flow_step (rx, f) (Flow_Packet al seq flags pkt len now_us)) xs"
    and "run flow_step (rx, f) (Flow_Packet al seq flags pkt len now_us # xs) = (rx', f')"
  shows "rf_pass_through f' \<or>
    (\<exists>ds. rx_delivered rx' = rx_delivered rx @ ds \<and> sorted_wrt (<) (map tag ds))"
proof -
  let ?s = "flow_step (rx, f) (Flow_Packet al seq flags pkt len now_us)"
  have "epoch_inv tag (rx_delivered rx) ?s" using assms(1-4) by (intro epoch_opens) auto
  from ep.run_inv [OF this assms(5)] have "epoch_inv tag (rx_delivered rx) (rx', f')" using assms(6) by simp
  then show ?thesis by (auto simp: epoch_inv_def ord_inv_def)
qed


text \<open>A concrete engine with the default configuration, and a fresh flow in it.\<close>

definition example_key :: mqvpn_flow_key where
  "example_key = \<lparr>fk_ip_version = 4, fk_proto = 17, fk_src_port = 4000, fk_dst_port = 4433,
     fk_src_ip = [10, 0, 0, 2], fk_dst_ip = [10, 0, 0, 1]\<rparr>"

definition example_rx :: mqvpn_reorder_rx where
  "example_rx = the (mqvpn_reorder_rx_new True True mqvpn_reorder_config_default 7)"

definition example_flow :: mqvpn_reorder_flow where
  "example_flow = flow_new (rx_cfg example_rx) example_key"

definition example_tag :: "u8 list \<Rightarrow> u64" where
  "example_tag pkt = (case pkt of [] \<Rightarrow> 0 | b # _ \<Rightarrow> ucast b)"

definition example_alloc :: rx_alloc where
  "example_alloc = \<lparr>al_flow = True, al_copy = True, al_slots = True\<rparr>"

definition example_packet :: "u8 \<Rightarrow> u64 \<Rightarrow> flow_event" where
  "example_packet b now_us = Flow_Packet example_alloc (ucast b) 0 [b] 1 now_us"

text \<open>Packet 3 arrives before 2, 2 once more, then 6 waits for its timeout.\<close>

definition example_events :: "flow_event list" where
  "example_events = [example_packet 3 2000, example_packet 2 3000, example_packet 2 4000, example_packet 6 5000,
     Flow_Gap 40000]"

lemma example_rx_new: "mqvpn_reorder_rx_new True True mqvpn_reorder_config_default 7 = Some example_rx"
  by (simp add: example_rx_def mqvpn_reorder_rx_new_def mqvpn_reorder_config_validate_def
      mqvpn_reorder_config_default_def mqvpn_reorder_cap_is_valid_def)

lemma example_rx_inv: "rx_inv example_rx"
  using example_rx_new by (rule mqvpn_reorder_rx_new_inv) (simp add: mqvpn_reorder_config_default_def)

lemma example_flow_pre: "flow_pre example_rx example_flow"
proof -
  have "flow_inv example_flow"
    unfolding example_flow_def by (intro flow_new_inv rx_invD(7) example_rx_inv)
  moreover have "rg_bytes (rf_buffer example_flow) = 0" "\<not> rf_gap_timer_active example_flow"
    by (simp_all add: example_flow_def flow_new_def ring_init_def)
  ultimately show ?thesis
    using rx_invD(3) [OF example_rx_inv] by (simp add: flow_pre_def flow_base_def rx_core_def)
qed

theorem reorder_delivers_in_order_witness:
  "run_ok flow_step (epoch_event example_tag) (flow_step (example_rx, example_flow) (example_packet 1 1000)) example_events \<and>
   (\<exists>rx' f'. run flow_step (example_rx, example_flow) (example_packet 1 1000 # example_events) = (rx', f') \<and>
      (rf_pass_through f' \<or>
       (\<exists>ds. rx_delivered rx' = rx_delivered example_rx @ ds \<and> sorted_wrt (<) (map example_tag ds))))"
proof -
  obtain rx' f' where r: "run flow_step (example_rx, example_flow) (example_packet 1 1000 # example_events) = (rx', f')"
    by fastforce
  have ok: "run_ok flow_step (epoch_event example_tag)
      (flow_step (example_rx, example_flow) (example_packet 1 1000)) example_events" by code_simp
  have "\<not> rf_initialized example_flow" by (simp add: example_flow_def flow_new_def)
  then show ?thesis
    using reorder_delivers_in_order [OF example_flow_pre, of 0 1000 1 example_tag "[1]" example_alloc 1 example_events rx' f']
      ok r by (simp add: example_packet_def example_tag_def)
qed


text \<open>Draining delivers one unbroken run; the timeout's last pass starts at an origin below the mark.\<close>

lemma drain_loop_run:
  assumes "flow_ring_ok f" and "unat (rg_bytes (rf_buffer f)) \<le> unat (rx_pool_bytes_used rx)"
    and "rf_expected f \<le> q" and "q < rf_expected (snd (drain_loop n rx f now_us))"
  shows "ring_contains (rf_buffer f) q"
  using assms
proof (induction n arbitrary: rx f)
  case (Suc n)
  note D = flow_ring_okD [OF Suc.prems(1)]
  show ?case
  proof (cases "ring_abs (rf_buffer f) (rf_expected f)")
    case None
    then show ?thesis using Suc.prems(3,4) by (simp add: ring_remove_absent)
  next
    case (Some v)
    obtain pkt len enq where v: "v = (pkt, len, enq)" by (cases v)
    obtain r where rm: "ring_remove (rf_buffer f) (rf_expected f) = (Some (pkt, len, enq), r)"
      using rb.remove_result [OF D(1), of "rf_expected f"] Some v by (metis prod.collapse)
    let ?st = "residence_stats (st_delivered_count_update (\<lambda>n. n + 1) (rf_stats f)) now_us enq"
    let ?rx = "pool_release (rx\<lparr>rx_delivered := rx_delivered rx @ [pkt]\<rparr>) len"
    let ?f = "f\<lparr>rf_buffer := r, rf_stats := ?st, rf_expected := rf_expected f + 1\<rparr>"
    have adv: "advances rx f ?rx ?f"
      by (rule advances_step [OF Suc.prems(1,2) rm]) simp_all
    have eq: "drain_loop (Suc n) rx f now_us = drain_loop n ?rx ?f now_us"
      by (simp add: rm deliver_pkt_pair Let_def)
    show ?thesis
    proof (cases "q = rf_expected f")
      case True
      then show ?thesis using Some by (simp add: ring_contains_abs)
    next
      case False
      then have "rf_expected ?f \<le> q" using Suc.prems(3) unat_inc [OF D(2)]
        by (simp add: word_le_nat_alt word_unat_eq_iff)
      moreover have "flow_ring_ok ?f" "unat (rg_bytes (rf_buffer ?f)) \<le> unat (rx_pool_bytes_used ?rx)"
        using adv by (simp_all add: advances_def)
      ultimately have "ring_contains (rf_buffer ?f) q" using Suc.prems(4) unfolding eq by (intro Suc.IH)
      then show ?thesis using ring_contains_advances [OF adv, of q] by blast
    qed
  qed
qed simp

lemma timeout_loop_run:
  assumes "flow_ring_ok f" and "unat (rg_bytes (rf_buffer f)) \<le> unat (rx_pool_bytes_used rx)"
    and "unat (rg_count (rf_buffer f)) \<le> n" and "timeout_loop n rx f now_us = (rx', f')"
    and "\<not> ring_empty (rf_buffer f)" and "rf_expected f < rf_reord f"
  shows "\<exists>e lo. rf_expected f \<le> e \<and> e < rf_reord f \<and> e \<le> lo \<and> lo < rf_expected f' \<and>
    (\<forall>q. e \<le> q \<and> q < lo \<longrightarrow> \<not> ring_contains (rf_buffer f) q) \<and>
    (\<forall>q. lo \<le> q \<and> q < rf_expected f' \<longrightarrow> ring_contains (rf_buffer f) q)"
  using assms
proof (induction n arbitrary: rx f)
  case 0
  then show ?case by (simp add: ring_empty_def unat_eq_0)
next
  case (Suc n)
  let ?low = "ring_lowest_seq (rf_buffer f) (rf_expected f)"
  note D = flow_ring_okD [OF Suc.prems(1)]
  note low = rb.skip_inv [OF D(1) Suc.prems(5)]
  obtain rx1 f1 where d: "drain_contiguous rx (f\<lparr>rf_expected := ?low\<rparr>) now_us = (rx1, f1)" by fastforce
  note sk = skip_drain_advances [OF Suc.prems(1,5,2) d]
  have r: "timeout_loop n rx1 f1 now_us = (rx', f')" using Suc.prems(4,5,6) d by (simp add: Let_def)
  have ok1: "flow_ring_ok f1" "unat (rg_bytes (rf_buffer f1)) \<le> unat (rx_pool_bytes_used rx1)"
    "rf_expected f \<le> rf_expected f1" "rf_reord f1 = rf_reord f"
    using sk(1) by (simp_all add: advances_def flow_rest_def)
  have n1: "unat (rg_count (rf_buffer f1)) \<le> n" using sk(3) Suc.prems(3) by simp
  show ?case
  proof (cases "\<not> ring_empty (rf_buffer f1) \<and> rf_expected f1 < rf_reord f1")
    case True
    from Suc.IH [OF ok1(1,2) n1 r conjunct1 [OF True] conjunct2 [OF True]]
    obtain e lo where e: "rf_expected f1 \<le> e" "e < rf_reord f1" "e \<le> lo" "lo < rf_expected f'"
      "\<And>q. e \<le> q \<Longrightarrow> q < lo \<Longrightarrow> \<not> ring_contains (rf_buffer f1) q"
      "\<And>q. lo \<le> q \<Longrightarrow> q < rf_expected f' \<Longrightarrow> ring_contains (rf_buffer f1) q" by blast
    have c: "ring_contains (rf_buffer f1) q = ring_contains (rf_buffer f) q" if "e \<le> q" for q
      using order_trans [OF e(1) that] by (simp add: ring_contains_advances [OF sk(1)] not_less)
    have c': "ring_contains (rf_buffer f1) q = ring_contains (rf_buffer f) q" if "lo \<le> q" for q
      using c order_trans [OF e(3) that] by blast
    show ?thesis
      using e c c' ok1(4) order_trans [OF ok1(3) e(1)] by (intro exI [of _ e] exI [of _ lo]) simp
  next
    case False
    then have f': "f' = f1" using r by (cases n) (auto split: if_splits)
    let ?f = "f\<lparr>rf_expected := ?low\<rparr>"
    have nx: "?low < rf_rx_next f" using D(3) low(2) .
    have "?low \<le> 2 ^ 48" using nx D(4) by (meson order_le_less order_less_le_trans)
    then have okf: "flow_ring_ok ?f"
      using Suc.prems(1) low nx D order_le_less_trans [OF low(3) nx] by (auto simp: flow_ring_ok_def)
    have run: "ring_contains (rf_buffer f) q" if "?low \<le> q" "q < rf_expected f1" for q
      using drain_loop_run [OF okf, of rx q "unat (rg_count (rf_buffer f))" now_us] that d Suc.prems(2) by (simp add: drain_contiguous_def)
    have "?low < rf_expected f1"
    proof (rule ccontr)
      assume "\<not> ?low < rf_expected f1"
      then have "ring_contains (rf_buffer f1) ?low" using low(2) by (simp add: ring_contains_advances [OF sk(1)])
      moreover have "?low \<le> rf_expected f1"
        using drain_contiguous_advances(1) [OF okf _ d] Suc.prems(2) by (simp add: advances_def)
      ultimately show False using sk(2) \<open>\<not> ?low < rf_expected f1\<close> by simp
    qed
    moreover have "\<not> ring_contains (rf_buffer f) q" if "q < ?low" for q
      using ring_abs_below [OF low(1) that] by (simp add: ring_contains_abs)
    ultimately show ?thesis
      using Suc.prems(6) low(3) run f' by (intro exI [of _ "rf_expected f"] exI [of _ ?low]) simp
  qed
qed

lemma on_gap_timeout_run:
  assumes "flow_pre rx f" and "rf_gap_timer_active f" and "on_gap_timeout rx f now_us = (rx', f')"
  shows "\<exists>e lo. rf_expected f \<le> e \<and> e < rf_reord f \<and> e \<le> lo \<and> lo < rf_expected f' \<and>
    (\<forall>q. e \<le> q \<and> q < lo \<longrightarrow> \<not> ring_contains (rf_buffer f) q) \<and>
    (\<forall>q. lo \<le> q \<and> q < rf_expected f' \<longrightarrow> ring_contains (rf_buffer f) q)"
proof -
  have i: "flow_inv f" "unat (rg_bytes (rf_buffer f)) \<le> unat (rx_pool_bytes_used rx)"
    using assms(1) by (simp_all add: flow_pre_def flow_base_def)
  have P: "flow_ring_ok f" "\<not> ring_empty (rf_buffer f)" "rf_expected f < rf_reord f"
    using i(1) assms(2) by (simp_all add: flow_inv_def flow_mid_defs)
  let ?f0 = "f\<lparr>rf_stats := st_gap_timeout_count_update (\<lambda>n. n + 1) (rf_stats f)\<rparr>"
  obtain rx1 f1 where t: "timeout_loop (unat (rg_count (rf_buffer f))) rx ?f0 now_us = (rx1, f1)" by fastforce
  have "f' = snd (period_start_if_needed rx1 (stop_gap_timer (f1\<lparr>rf_last_progress_us := now_us\<rparr>)) now_us)"
    using assms(3) P(2) t by (simp add: on_gap_timeout_def Let_def)
  then have e: "rf_expected f' = rf_expected f1" by (simp add: stop_gap_timer_def)
  have "flow_ring_ok ?f0" using P(1) by (simp add: flow_ring_ok_def)
  from timeout_loop_run [OF this _ _ t] i(2) P(2,3) show ?thesis by (simp add: e)
qed

text \<open>
  C25: A gap timeout gives up on the holes below its mark and on nothing else. The new window origin is
  the first sequence number at or above the mark \<open>reord\<close> that is not buffered; exactly the
  buffered packets below it are delivered, in ascending order, the others stay buffered, the bytes
  of the delivered ones return to the pool, and the flow invariant holds again.
\<close>

theorem on_gap_timeout_flushes_to_mark:
  assumes "flow_pre rx f" and "rf_gap_timer_active f" and "on_gap_timeout rx f now_us = (rx', f')"
  shows "rx_delivered rx' = rx_delivered rx @ window_pkts (rf_buffer f) (rf_expected f) (rf_expected f') \<and>
    (\<forall>q. ring_abs (rf_buffer f') q = (if q < rf_expected f' then None else ring_abs (rf_buffer f) q)) \<and>
    rf_reord f \<le> rf_expected f' \<and> \<not> ring_contains (rf_buffer f) (rf_expected f') \<and>
    (\<forall>q. rf_reord f \<le> q \<and> q < rf_expected f' \<longrightarrow> ring_contains (rf_buffer f) q) \<and>
    unat (rx_pool_bytes_used rx') + unat (rg_bytes (rf_buffer f)) =
      unat (rx_pool_bytes_used rx) + unat (rg_bytes (rf_buffer f')) \<and> flow_pre rx' f'"
proof -
  note op = on_gap_timeout_op [OF flow_preD(1) [OF assms(1)] flow_preD_gap [OF assms(1)] assms(2), where now_us = now_us, unfolded assms(3) fst_conv snd_conv]
  have pre: "flow_pre rx' f'" using op(1) [of "{}"] by (simp add: flow_op_def)
  then have "\<not> ring_contains (rf_buffer f') (rf_expected f')" by (simp add: flow_pre_def flow_inv_def flow_mid_defs)
  then have "\<not> ring_contains (rf_buffer f) (rf_expected f')" using op(6) by (simp add: ring_contains_abs)
  moreover from on_gap_timeout_run [OF assms] obtain e lo where e: "rf_expected f \<le> e" "e < rf_reord f"
    "\<And>q. e \<le> q \<Longrightarrow> q < lo \<Longrightarrow> \<not> ring_contains (rf_buffer f) q"
    "\<And>q. lo \<le> q \<Longrightarrow> q < rf_expected f' \<Longrightarrow> ring_contains (rf_buffer f) q" by blast
  have m: "ring_contains (rf_buffer f) (rf_reord f - 1)"
    using assms(1,2) by (simp add: flow_pre_def flow_inv_def flow_mid_defs)
  have "rf_reord f \<noteq> 0" using e(2) by auto
  then have u: "unat (rf_reord f) = unat (rf_reord f - 1) + 1" by (simp add: unat_minus_one unat_gt_0 Suc_le_eq)
  then have "e \<le> rf_reord f - 1" "rf_reord f - 1 < rf_reord f"
    using e(2) unfolding word_le_nat_alt word_less_nat_alt by linarith+
  with e(3) [of "rf_reord f - 1"] m have lo: "lo \<le> rf_reord f" by (meson not_le order_le_less order_less_le_trans)
  have "rf_reord f \<le> rf_expected f'"
  proof (rule ccontr)
    assume n: "\<not> rf_reord f \<le> rf_expected f'"
    then have "rf_expected f' \<le> rf_reord f - 1" using u unfolding word_le_nat_alt by linarith
    then have "ring_contains (rf_buffer f') (rf_reord f - 1)" using op(6) m by (simp add: ring_contains_abs)
    moreover have "ring_empty (rf_buffer f')" using op(5) n by blast
    moreover have "ring_wf (rf_buffer f') (rf_expected f')"
      using pre by (simp add: flow_pre_def flow_inv_def flow_mid_defs flow_ring_ok_def)
    ultimately show False using ring_empty_contains by blast
  qed
  ultimately show ?thesis using op(1) [of "{}"] op(4,6) e(4) order_trans [OF lo] by (simp add: flow_op_def flow_frame_def)
qed

definition example_gap :: "mqvpn_reorder_rx \<times> mqvpn_reorder_flow" where
  "example_gap = run flow_step (example_rx, example_flow) [example_packet 1 1000, example_packet 3 2000, example_packet 6 5000]"

lemma example_gap_pre: "flow_pre (fst example_gap) (snd example_gap)"
proof -
  let ?s = "flow_step (example_rx, example_flow) (example_packet 1 1000)"
  have ok: "run_ok flow_step (epoch_event example_tag) ?s [example_packet 3 2000, example_packet 6 5000]" by code_simp
  have "epoch_inv example_tag (rx_delivered example_rx) ?s"
    unfolding example_packet_def using example_flow_pre
    by (rule epoch_opens) (simp_all add: example_tag_def example_flow_def flow_new_def)
  from ep.run_inv [OF this ok] show ?thesis by (simp add: epoch_inv_def example_gap_def)
qed

theorem on_gap_timeout_flushes_to_mark_witness:
  "rf_gap_timer_active (snd example_gap) \<and>
   (let (rx', f') = on_gap_timeout (fst example_gap) (snd example_gap) 40000
    in rx_delivered rx' = rx_delivered (fst example_gap) @
         window_pkts (rf_buffer (snd example_gap)) (rf_expected (snd example_gap)) (rf_expected f') \<and>
       rf_expected f' = 4)"
proof -
  obtain rx' f' where r: "on_gap_timeout (fst example_gap) (snd example_gap) 40000 = (rx', f')" by fastforce
  have a: "rf_gap_timer_active (snd example_gap)" by code_simp
  have "rf_expected (snd (on_gap_timeout (fst example_gap) (snd example_gap) 40000)) = 4" by code_simp
  then show ?thesis using on_gap_timeout_flushes_to_mark [OF example_gap_pre a r] a by (simp add: r)
qed

text \<open>
  C26: Demotion loses nothing: the flush delivers every buffered packet, in ascending order of the
  sequence numbers, returns their bytes to the pool and leaves an empty buffer with no timer.
\<close>

theorem demotion_flushes_everything:
  assumes "flow_pre rx f" and "flush_buffer_for_demote rx f now_us = (rx', f')"
  shows "rx_delivered rx' = rx_delivered rx @
      map (ring_pkt (rf_buffer f)) (sorted_list_of_set {q. ring_contains (rf_buffer f) q}) \<and>
    ring_empty (rf_buffer f') \<and> \<not> rf_gap_timer_active f' \<and>
    unat (rx_pool_bytes_used rx') + unat (rg_bytes (rf_buffer f)) = unat (rx_pool_bytes_used rx)"
proof -
  note fl = flush_buffer_for_demote_op [OF assms]
  have "ring_empty (rf_buffer f')" "rg_bytes (rf_buffer f') = 0" "\<not> rf_gap_timer_active f'"
    using assms(2) by (auto simp: flush_buffer_for_demote_def stop_gap_timer_def Let_def split: prod.splits)
  then show ?thesis using fl by (simp add: flow_op_def flow_frame_def window_pkts_def)
qed

theorem demotion_flushes_everything_witness:
  "let (rx', f') = flush_buffer_for_demote (fst example_gap) (snd example_gap) 6000
   in rx_delivered rx' = [[1], [3], [6]] \<and> ring_empty (rf_buffer f') \<and> \<not> rf_gap_timer_active f'"
proof -
  obtain rx' f' where r: "flush_buffer_for_demote (fst example_gap) (snd example_gap) 6000 = (rx', f')" by fastforce
  have "rx_delivered (fst (flush_buffer_for_demote (fst example_gap) (snd example_gap) 6000)) = [[1], [3], [6]]"
    by code_simp
  then show ?thesis using demotion_flushes_everything [OF example_gap_pre r] r by simp
qed


section \<open>The loops end\<close>

lemma drain_loop_add:
  "drain_loop (n + k) rx f now_us = (case drain_loop n rx f now_us of (rx, f) \<Rightarrow> drain_loop k rx f now_us)"
proof (induction n arbitrary: rx f)
  case (Suc n)
  show ?case
  proof (cases "ring_remove (rf_buffer f) (rf_expected f)")
    case (Pair x r)
    then show ?thesis
    proof (cases x)
      case None
      then have "drain_loop j rx f now_us = (rx, f)" for j using Pair by (cases j) simp_all
      then show ?thesis by simp
    next
      case (Some y)
      then show ?thesis using Suc.IH Pair by (cases y) (simp add: deliver_pkt_pair Let_def)
    qed
  qed
qed simp

lemma timeout_loop_add:
  "timeout_loop (n + k) rx f now_us = (case timeout_loop n rx f now_us of (rx, f) \<Rightarrow> timeout_loop k rx f now_us)"
proof (induction n arbitrary: rx f)
  case (Suc n)
  show ?case
  proof (cases "\<not> ring_empty (rf_buffer f) \<and> rf_expected f < rf_reord f")
    case False
    then have "timeout_loop j rx f now_us = (rx, f)" for j by (cases j) auto
    then show ?thesis by simp
  next
    case True
    then show ?thesis using Suc.IH by (simp add: Let_def split: prod.split)
  qed
qed simp

lemma demote_loop_add:
  "demote_loop (n + k) rx f now_us = (case demote_loop n rx f now_us of (rx, f) \<Rightarrow> demote_loop k rx f now_us)"
proof (induction n arbitrary: rx f)
  case (Suc n)
  show ?case
  proof (cases "ring_empty (rf_buffer f)")
    case True
    then have "demote_loop j rx f now_us = (rx, f)" for j by (cases j) simp_all
    then show ?thesis by simp
  next
    case False
    then show ?thesis using Suc.IH by (simp add: Let_def split: prod.split)
  qed
qed simp

lemma drain_loop_stop:
  assumes "\<not> ring_contains (rf_buffer f) (rf_expected f)"
  shows "drain_loop n rx f now_us = (rx, f)"
  using ring_remove_absent [OF ring_not_contains [OF assms]] by (cases n) simp_all

text \<open>
  C27: The three loops of the receiver end: the number of buffered packets bounds the iterations,
  any larger bound gives the same result, and the loops are left through their own conditions
  (nothing at the window origin; buffer empty or mark reached; buffer empty).
\<close>

theorem receive_loops_terminate:
  assumes "flow_pre rx f" and "unat (rg_count (rf_buffer f)) \<le> n"
  shows "drain_loop n rx f now_us = drain_contiguous rx f now_us \<and>
    timeout_loop n rx f now_us = timeout_loop (unat (rg_count (rf_buffer f))) rx f now_us \<and>
    demote_loop n rx f now_us = demote_loop (unat (rg_count (rf_buffer f))) rx f now_us \<and>
    (let f' = snd (drain_contiguous rx f now_us) in \<not> ring_contains (rf_buffer f') (rf_expected f')) \<and>
    (let f' = snd (timeout_loop n rx f now_us) in ring_empty (rf_buffer f') \<or> rf_reord f' \<le> rf_expected f') \<and>
    ring_empty (rf_buffer (snd (demote_loop n rx f now_us)))"
proof -
  note P = flow_preD [OF assms(1)]
  let ?c = "unat (rg_count (rf_buffer f))"
  obtain k where n: "n = ?c + k" using assms(2) le_Suc_ex by blast
  obtain rx1 f1 where d: "drain_contiguous rx f now_us = (rx1, f1)" by fastforce
  obtain rx2 f2 where t: "timeout_loop ?c rx f now_us = (rx2, f2)" by fastforce
  obtain rx3 f3 where m: "demote_loop ?c rx f now_us = (rx3, f3)" by fastforce
  note D = drain_contiguous_advances [OF P(4,7) d]
  have T: "ring_empty (rf_buffer f2) \<or> rf_reord f2 \<le> rf_expected f2"
    using timeout_loop_advances [OF P(4,7) _ t P(6)] by simp
  have M: "ring_empty (rf_buffer f3)" using demote_loop_advances [OF P(4,7) _ m] by simp
  have "drain_loop k rx1 f1 now_us = (rx1, f1)"
    using D(2) by (rule drain_loop_stop)
  then have "drain_loop n rx f now_us = (rx1, f1)"
    using d by (simp add: n drain_loop_add drain_contiguous_def)
  moreover have "timeout_loop k rx2 f2 now_us = (rx2, f2)" using T by (cases k) auto
  then have "timeout_loop n rx f now_us = (rx2, f2)" using t by (simp add: n timeout_loop_add)
  moreover have "demote_loop k rx3 f3 now_us = (rx3, f3)" using M by (cases k) auto
  then have "demote_loop n rx f now_us = (rx3, f3)" using m by (simp add: n demote_loop_add)
  ultimately show ?thesis using d t m D T M by simp
qed

theorem receive_loops_terminate_witness:
  "demote_loop 9 (fst example_gap) (snd example_gap) 6000 = demote_loop 2 (fst example_gap) (snd example_gap) 6000 \<and>
   ring_empty (rf_buffer (snd (demote_loop 9 (fst example_gap) (snd example_gap) 6000)))"
proof -
  have c: "unat (rg_count (rf_buffer (snd example_gap))) = 2" by code_simp
  have "unat (rg_count (rf_buffer (snd example_gap))) \<le> 9" by (simp add: c)
  from receive_loops_terminate [OF example_gap_pre this, of 6000] show ?thesis unfolding c by blast
qed


section \<open>The engine\<close>

datatype rx_event =
    Rx_Packet rx_alloc "u8 list" u64
  | Rx_Tick u64
  | Rx_Force bool

fun rx_step :: "mqvpn_reorder_rx \<Rightarrow> rx_event \<Rightarrow> mqvpn_reorder_rx" where
  "rx_step rx (Rx_Packet al payload now_us) = mqvpn_reorder_rx_on_packet al rx payload now_us"
| "rx_step rx (Rx_Tick now_us) = mqvpn_reorder_rx_tick rx now_us"
| "rx_step rx (Rx_Force force) = mqvpn_reorder_rx_set_force_no_demotion rx force"

lemma rx_step_inv: "rx_inv rx \<Longrightarrow> rx_inv (rx_step rx x)"
  by (cases x) (simp_all add: mqvpn_reorder_rx_on_packet_inv mqvpn_reorder_rx_tick_inv set_force_no_demotion_inv)

interpretation rm: machine rx_step "\<lambda>_ _. True" rx_inv
  by unfold_locales (rule rx_step_inv)

lemma rx_run_inv:
  assumes "mqvpn_reorder_rx_new ok1 ok2 cfg seed = Some rx"
    and "unat (rc_global_max_buffer_bytes cfg) + 65536 \<le> 2 ^ 64"
  shows "rx_inv (run rx_step rx xs)"
  using mqvpn_reorder_rx_new_inv [OF assms] run_ok_True by (rule rm.run_inv)

text \<open>
  C2: The receive engine keeps its books whatever the datagrams, the clock and the allocator do:
  after any sequence of packets and ticks the byte pool is exactly the sum of what the flows
  buffer and within the configured limit, the table holds at most \<open>max_flows\<close> flows, every flow
  is found under its own key, and in each flow the gap timer runs exactly while packets are
  buffered and the gap counters balance.
\<close>

theorem rx_engine_invariant:
  assumes "mqvpn_reorder_rx_new ok1 ok2 cfg seed = Some rx0"
    and "unat (rc_global_max_buffer_bytes cfg) + 65536 \<le> 2 ^ 64" and "rx = run rx_step rx0 xs"
  shows "unat (rx_pool_bytes_used rx) = sum_list (map (\<lambda>f. unat (rg_bytes (rf_buffer f))) (concat (rx_buckets rx))) \<and>
    rx_pool_bytes_used rx \<le> rc_global_max_buffer_bytes (rx_cfg rx) \<and>
    (rc_max_flows (rx_cfg rx) = 0 \<or> length (concat (rx_buckets rx)) \<le> unat (rc_max_flows (rx_cfg rx))) \<and>
    (\<forall>f \<in> set (concat (rx_buckets rx)). flow_lookup rx (rf_key f) = Some f \<and>
       (rf_gap_timer_active f \<longleftrightarrow> \<not> ring_empty (rf_buffer f)) \<and>
       gap_open (rf_stats f) = of_bool (rf_gap_timer_active f) \<and> flow_inv f)"
proof -
  have inv: "rx_inv rx" unfolding assms(3) using assms(1,2) by (rule rx_run_inv)
  note I = rx_invD [OF inv]
  have "flow_lookup rx (rf_key f) = Some f \<and> (rf_gap_timer_active f \<longleftrightarrow> \<not> ring_empty (rf_buffer f)) \<and>
      gap_open (rf_stats f) = of_bool (rf_gap_timer_active f) \<and> flow_inv f"
    if f: "f \<in> set (concat (rx_buckets rx))" for f
  proof -
    have "flow_inv f" using rx_core_member(1) [OF I(3) f] .
    moreover have "flow_lookup rx (rf_key f) = Some f"
      unfolding flow_lookup_def rx_idx_chain [OF I(1)] using I(2) f by (rule rt.lookup_complete)
    ultimately show ?thesis by (simp add: flow_inv_def flow_mid_defs)
  qed
  then show ?thesis using I(3,6) unfolding rx_core_def word_neq_0_conv [symmetric] by blast
qed

definition example_payload :: "u64 \<Rightarrow> u8 list" where
  "example_payload seq = mqvpn_reorder_wire_encode MQVPN_REORDER_TYPE_V1 0 seq @
     [0x45, 0, 0, 28, 0, 0, 0, 0, 64, 17, 0, 0, 10, 0, 0, 2, 10, 0, 0, 1, 0x0f, 0xa0, 0x11, 0x51, 0, 8, 0, 0]"

definition example_run :: "rx_event list" where
  "example_run = [Rx_Packet example_alloc (example_payload 1) 1000, Rx_Packet example_alloc (example_payload 3) 2000]"

lemma example_max: "unat (rc_global_max_buffer_bytes mqvpn_reorder_config_default) + 65536 \<le> 2 ^ 64"
  by (simp add: mqvpn_reorder_config_default_def)

theorem rx_engine_invariant_witness:
  "let rx = run rx_step example_rx example_run
   in unat (rx_pool_bytes_used rx) = sum_list (map (\<lambda>f. unat (rg_bytes (rf_buffer f))) (concat (rx_buckets rx))) \<and>
      rx_pool_bytes_used rx \<le> rc_global_max_buffer_bytes (rx_cfg rx)"
  using rx_engine_invariant [OF example_rx_new example_max, of "run rx_step example_rx example_run" example_run]
  unfolding Let_def by blast


lemma on_packet_cfg:
  assumes inv: "rx_inv rx"
  shows "rx_cfg (mqvpn_reorder_rx_on_packet al rx payload now_us) = rx_cfg rx"
  using on_packet_cases [of al rx payload now_us]
proof (elim disjE exE conjE)
  fix t fl seq key rx1 r
  assume d: "mqvpn_reorder_wire_decode payload = Some (Some (t, fl, seq))"
    and w: "flow_wait_ms (rx_cfg rx) key \<noteq> 0" and g: "flow_get_or_create al rx key = (rx1, r)"
    and eq: "mqvpn_reorder_rx_on_packet al rx payload now_us =
        (case r of None \<Rightarrow> rx1
         | Some f \<Rightarrow> (let (rx2, f') = on_reordered al rx1 f seq fl (drop MQVPN_REORDER_HDR_LEN payload)
                          (of_nat (length payload - MQVPN_REORDER_HDR_LEN)) now_us
                     in flow_put rx2 f'))"
  note G = flow_get_or_create_inv [OF inv w g]
  show ?thesis
  proof (cases r)
    case None
    then show ?thesis using eq G(4) by simp
  next
    case (Some f)
    then have f: "f \<in> set (concat (rx_buckets rx1))" using G(2) by blast
    obtain rx2 f2 where o: "on_reordered al rx1 f seq fl (drop MQVPN_REORDER_HDR_LEN payload)
        (of_nat (length payload - MQVPN_REORDER_HDR_LEN)) now_us = (rx2, f2)" by fastforce
    have "flow_pre rx1 f" using rx_invD(3) [OF G(1)] f rx_invD(4) [OF G(1)] by (rule rx_core_pre)
    then have "flow_op {} rx1 f (rx2, f2)"
      using on_reordered_op [of rx1 f seq "{}"] decode_seq_bound [OF d] o by (metis empty_iff)
    then show ?thesis using G(4) unfolding eq Some by (simp add: o flow_put_def flow_op_def flow_frame_def rx_rest_def)
  qed
qed simp_all

lemma tick_due:
  assumes inv: "rx_inv rx" and max: "0 < rc_max_flows (rx_cfg rx)" and clock: "clock_ok now_us"
    and f: "f \<in> set (concat (rx_buckets (mqvpn_reorder_rx_tick rx now_us)))" "rf_gap_timer_active f"
  shows "now_us < rf_gap_deadline_us f"
proof -
  note I = rx_invD [OF inv]
  let ?rx = "if now_us \<ge> rx_next_gap_us rx then tick_gaps rx now_us else rx"
  have inv1: "rx_inv ?rx" using inv tick_gaps_inv(1) by simp
  have due: "now_us < rf_gap_deadline_us g" if "g \<in> set (concat (rx_buckets ?rx))" "rf_gap_timer_active g" for g
  proof (cases "now_us \<ge> rx_next_gap_us rx")
    case True
    then show ?thesis using tick_gaps_inv(2) [OF inv clock, of g] that by simp
  next
    case False
    then have "rx_next_gap_us rx \<le> rf_gap_deadline_us g" using I(4) that unfolding rx_armed_def by auto
    then show ?thesis using False by auto
  qed
  show ?thesis
  proof (cases "rx_n_flows rx = 0")
    case True
    then have "length (concat (rx_buckets rx)) = 0" using rx_n_flows_exact [OF inv max] by simp
    then have "concat (rx_buckets rx) = []" by (simp only: length_0_conv)
    moreover have "mqvpn_reorder_rx_tick rx now_us = rx" using True by (simp add: mqvpn_reorder_rx_tick_def)
    ultimately show ?thesis using f(1) by (metis empty_iff list.set(1))
  next
    case False
    then have "mqvpn_reorder_rx_tick rx now_us = (if now_us < rx_next_idle_us ?rx then ?rx else tick_idle ?rx now_us)"
      by (simp add: mqvpn_reorder_rx_tick_def Let_def)
    moreover have "set (concat (rx_buckets (tick_idle ?rx now_us))) \<subseteq> set (concat (rx_buckets ?rx))"
      unfolding tick_idle_inv(2) [OF inv1] by auto
    ultimately have "f \<in> set (concat (rx_buckets ?rx))" using f(1) by (auto split: if_splits)
    then show ?thesis using f(2) by (rule due)
  qed
qed

text \<open>
  C11: Nothing waits past its deadline: after a tick at time \<open>now_us\<close> every flow that still buffers
  packets has a running gap timer whose deadline lies in the future. The tick may skip the sweep
  over the flows; the remembered next deadline makes that safe.
\<close>

theorem rx_tick_leaves_nothing_overdue:
  assumes "mqvpn_reorder_rx_new ok1 ok2 cfg seed = Some rx0"
    and "unat (rc_global_max_buffer_bytes cfg) + 65536 \<le> 2 ^ 64"
    and "0 < rc_max_flows (rx_cfg (run rx_step rx0 xs))" and "clock_ok now_us"
  shows "\<forall>f \<in> set (concat (rx_buckets (mqvpn_reorder_rx_tick (run rx_step rx0 xs) now_us))).
    \<not> ring_empty (rf_buffer f) \<longrightarrow> rf_gap_timer_active f \<and> now_us < rf_gap_deadline_us f"
proof (intro ballI impI)
  fix f
  assume f: "f \<in> set (concat (rx_buckets (mqvpn_reorder_rx_tick (run rx_step rx0 xs) now_us)))"
    and ne: "\<not> ring_empty (rf_buffer f)"
  have inv: "rx_inv (run rx_step rx0 xs)" using assms(1,2) by (rule rx_run_inv)
  have "flow_inv f"
    using rx_core_member(1) [OF rx_invD(3) [OF mqvpn_reorder_rx_tick_inv [OF inv]] f] .
  then have "rf_gap_timer_active f" using ne by (simp add: flow_inv_def)
  then show "rf_gap_timer_active f \<and> now_us < rf_gap_deadline_us f" using tick_due [OF inv assms(3,4) f] by simp
qed

theorem rx_tick_leaves_nothing_overdue_witness:
  "0 < rc_max_flows (rx_cfg (run rx_step example_rx example_run)) \<and>
   list_all (\<lambda>f. ring_empty (rf_buffer f) \<or> rf_gap_timer_active f \<and> 3000 < rf_gap_deadline_us f)
     (concat (rx_buckets (mqvpn_reorder_rx_tick (run rx_step example_rx example_run) 3000)))"
proof -
  have "rx_cfg (run rx_step example_rx example_run) = rx_cfg example_rx"
    by (simp add: example_run_def on_packet_cfg example_rx_inv mqvpn_reorder_rx_on_packet_inv)
  then have m: "0 < rc_max_flows (rx_cfg (run rx_step example_rx example_run))"
    by (simp add: example_rx_def mqvpn_reorder_rx_new_def mqvpn_reorder_config_validate_def
      mqvpn_reorder_config_default_def mqvpn_reorder_cap_is_valid_def mqvpn_reorder_config_finalize_def)
  have "clock_ok 3000" by (simp add: clock_ok_def)
  from m rx_tick_leaves_nothing_overdue [OF example_rx_new example_max m this] show ?thesis
    unfolding list_all_iff by blast
qed

lemma gap_sweep_chain_skip:
  "(\<forall>f \<in> set c. rf_gap_timer_active f \<longrightarrow> now_us < rf_gap_deadline_us f) \<Longrightarrow>
   \<exists>t. gap_sweep_chain rx now_us c = (rx\<lparr>rx_next_gap_us := t\<rparr>, c)"
proof (induction c arbitrary: rx)
  case Nil
  have "rx\<lparr>rx_next_gap_us := rx_next_gap_us rx\<rparr> = rx" by simp
  then show ?case by (metis gap_sweep_chain.simps(1))
next
  case (Cons f c)
  let ?t = "if rf_gap_timer_active f \<and> rf_gap_deadline_us f < rx_next_gap_us rx then rf_gap_deadline_us f
    else rx_next_gap_us rx"
  obtain t where t: "gap_sweep_chain (rx\<lparr>rx_next_gap_us := ?t\<rparr>) now_us c = (rx\<lparr>rx_next_gap_us := ?t\<rparr>\<lparr>rx_next_gap_us := t\<rparr>, c)"
    using Cons.IH [of "rx\<lparr>rx_next_gap_us := ?t\<rparr>"] Cons.prems by (metis list.set_intros(2))
  have "(if \<not> rf_gap_timer_active f then (rx, f)
             else if rf_gap_deadline_us f \<le> now_us then on_gap_timeout rx f now_us
             else if rf_gap_deadline_us f < rx_next_gap_us rx
             then (rx\<lparr>rx_next_gap_us := rf_gap_deadline_us f\<rparr>, f)
             else (rx, f)) = (rx\<lparr>rx_next_gap_us := ?t\<rparr>, f)"
    using Cons.prems by auto
  then have "gap_sweep_chain rx now_us (f # c) = (rx\<lparr>rx_next_gap_us := t\<rparr>, f # c)" using t by simp
  then show ?case ..
qed

lemma gap_sweep_skip:
  "(\<forall>f \<in> set (concat b). rf_gap_timer_active f \<longrightarrow> now_us < rf_gap_deadline_us f) \<Longrightarrow>
   \<exists>t. gap_sweep rx now_us b = (rx\<lparr>rx_next_gap_us := t\<rparr>, b)"
proof (induction b arbitrary: rx)
  case Nil
  have "rx\<lparr>rx_next_gap_us := rx_next_gap_us rx\<rparr> = rx" by simp
  then show ?case by (metis gap_sweep.simps(1))
next
  case (Cons c b)
  obtain t where t: "gap_sweep_chain rx now_us c = (rx\<lparr>rx_next_gap_us := t\<rparr>, c)"
    using gap_sweep_chain_skip [of c now_us rx] Cons.prems by auto
  obtain u where "gap_sweep (rx\<lparr>rx_next_gap_us := t\<rparr>) now_us b = (rx\<lparr>rx_next_gap_us := t\<rparr>\<lparr>rx_next_gap_us := u\<rparr>, b)"
    using Cons.IH [of "rx\<lparr>rx_next_gap_us := t\<rparr>"] Cons.prems by auto
  then show ?case using t by auto
qed

text \<open>
  C28: Skipping the gap sweep while \<open>now_us < next_gap_us\<close> is an optimisation only: the sweep that
  is skipped would have left every flow, the pool and the delivered packets as they are, and only
  recomputed the time of the next sweep.
\<close>

theorem rx_tick_skip_equivalent:
  assumes "rx_inv rx" and "now_us < rx_next_gap_us rx"
  shows "\<exists>t. tick_gaps rx now_us = rx\<lparr>rx_next_gap_us := t\<rparr>"
proof -
  have "\<forall>f \<in> set (concat (rx_buckets rx)). rf_gap_timer_active f \<longrightarrow> now_us < rf_gap_deadline_us f"
    using rx_invD(4) [OF assms(1)] assms(2) unfolding rx_armed_def by (blast intro: order_less_le_trans)
  from gap_sweep_skip [OF this, of "rx\<lparr>rx_next_gap_us := - 1\<rparr>"]
  obtain t where "gap_sweep (rx\<lparr>rx_next_gap_us := - 1\<rparr>) now_us (rx_buckets rx) =
      (rx\<lparr>rx_next_gap_us := - 1\<rparr>\<lparr>rx_next_gap_us := t\<rparr>, rx_buckets rx)" by blast
  then have "tick_gaps rx now_us = rx\<lparr>rx_next_gap_us := t\<rparr>" by (simp add: tick_gaps_def)
  then show ?thesis ..
qed

theorem rx_tick_skip_equivalent_witness:
  "let rx = tick_gaps (run rx_step example_rx example_run) 3000
   in rx_inv rx \<and> 3000 < rx_next_gap_us rx \<and> (\<exists>t. tick_gaps rx 3000 = rx\<lparr>rx_next_gap_us := t\<rparr>)"
proof -
  have inv: "rx_inv (run rx_step example_rx example_run)" using example_rx_new example_max by (rule rx_run_inv)
  have c: "clock_ok 3000" by (simp add: clock_ok_def)
  note i = tick_gaps_inv(1) [OF inv, of 3000] and n = tick_gaps_inv(3) [OF inv c]
  show ?thesis using i n rx_tick_skip_equivalent [OF i n] by simp
qed

lemma gap_open_accumulate:
  "gap_open (mqvpn_reorder_stats_accumulate a b) = gap_open a + gap_open b"
  by (simp add: gap_open_def mqvpn_reorder_stats_accumulate_def algebra_simps)

lemma gap_open_fold:
  "(\<forall>f \<in> set fs. gap_open (rf_stats f) = of_bool (rf_gap_timer_active f)) \<Longrightarrow>
   gap_open (fold (\<lambda>f out. mqvpn_reorder_stats_accumulate out (rf_stats f)) fs st) =
     gap_open st + of_nat (length (filter rf_gap_timer_active fs))"
  by (induction fs arbitrary: st) (auto simp: gap_open_accumulate)

text \<open>
  The gap periods counted less those that ended (filled, timed out, overflowed, demoted, reset) are
  the periods still open plus what the destroyed flows left over, and a flow destroyed while its
  period is open leaves one over. So the count of periods is not the sum of the five endings.
\<close>

lemma rx_stats_gap_balance:
  assumes "rx_inv rx"
  shows "gap_open (mqvpn_reorder_rx_get_stats rx) =
      gap_open (rx_evicted_stats rx) + of_nat (length (filter rf_gap_timer_active (concat (rx_buckets rx))))"
    "f \<in> set (concat (rx_buckets rx)) \<Longrightarrow>
       gap_open (rx_evicted_stats (flow_destroy rx f)) = gap_open (rx_evicted_stats rx) + of_bool (rf_gap_timer_active f)"
proof -
  note I = rx_invD [OF assms]
  have go: "gap_open (rf_stats f) = of_bool (rf_gap_timer_active f)" if "f \<in> set (concat (rx_buckets rx))" for f
    using rx_core_member(1) [OF I(3) that] by (simp add: flow_inv_def flow_mid_defs)
  then show "gap_open (mqvpn_reorder_rx_get_stats rx) =
      gap_open (rx_evicted_stats rx) + of_nat (length (filter rf_gap_timer_active (concat (rx_buckets rx))))"
    by (simp add: mqvpn_reorder_rx_get_stats_def gap_open_fold)
  show "gap_open (rx_evicted_stats (flow_destroy rx f)) = gap_open (rx_evicted_stats rx) + of_bool (rf_gap_timer_active f)"
    if f: "f \<in> set (concat (rx_buckets rx))"
  proof -
    have m: "flow_inv f" "unat (rg_bytes (rf_buffer f)) \<le> unat (rx_pool_bytes_used rx)"
      using rx_core_member [OF I(3) f] by simp_all
    then have "ring_wf (rf_buffer f) (rf_expected f)" by (simp add: flow_inv_def flow_mid_defs flow_ring_ok_def)
    from release_slots_pool(2) [OF this, of "rx\<lparr>rx_evicted_stats := mqvpn_reorder_stats_accumulate (rx_evicted_stats rx) (rf_stats f)\<rparr>"]
    show ?thesis using m(2) by (auto simp: flow_destroy_def gap_open_accumulate go [OF f])
  qed
qed

lemma flow_destroy_all:
  assumes "rx_core rx fs"
  shows "rx_pool_bytes_used (fold (\<lambda>f rx. flow_destroy rx f) fs rx) = 0"
  using assms
proof (induction fs arbitrary: rx)
  case Nil
  then show ?case by (simp add: rx_core_def unat_eq_0)
next
  case (Cons f fs)
  have "rx_core (flow_destroy rx f) fs" by (rule flow_destroy_core(1) [OF Cons.prems]) auto
  then show ?case using Cons.IH by simp
qed

text \<open>
  C30: Destroying the engine releases every buffered packet: the byte pool is empty afterwards, so no
  packet was leaked or accounted twice in the whole run.
\<close>

theorem rx_free_returns_pool:
  assumes "mqvpn_reorder_rx_new ok1 ok2 cfg seed = Some rx0"
    and "unat (rc_global_max_buffer_bytes cfg) + 65536 \<le> 2 ^ 64"
  shows "rx_pool_bytes_used (mqvpn_reorder_rx_free (run rx_step rx0 xs)) = 0"
  using flow_destroy_all [OF rx_invD(3) [OF rx_run_inv [OF assms]]] by (simp add: mqvpn_reorder_rx_free_def)

theorem rx_free_returns_pool_witness:
  "rx_pool_bytes_used (mqvpn_reorder_rx_free (run rx_step example_rx example_run)) = 0"
  using example_rx_new example_max by (rule rx_free_returns_pool)


text \<open>
  C31: Eviction makes room by giving up the flow that has gone longest without progress: the victim
  is a flow of the table with the least progress time, every other flow stays, and exactly one
  flow leaves.
\<close>

theorem evict_lru_flow_takes_oldest:
  assumes "rx_inv rx" and "concat (rx_buckets rx) \<noteq> []"
  shows "\<exists>v \<in> set (concat (rx_buckets rx)).
    (\<forall>g \<in> set (concat (rx_buckets rx)). rf_last_progress_us v \<le> rf_last_progress_us g) \<and>
    set (concat (rx_buckets rx)) = insert v (set (concat (rx_buckets (evict_lru_flow rx)))) \<and>
    length (concat (rx_buckets (evict_lru_flow rx))) + 1 = length (concat (rx_buckets rx)) \<and>
    rx_inv (evict_lru_flow rx)"
proof -
  obtain v where v: "lru_scan (concat (rx_buckets rx)) (- 1) None = Some v"
    using lru_scan_None assms(2) by (cases "lru_scan (concat (rx_buckets rx)) (- 1) None") auto
  note m = lru_scan_Some [OF v] and e = evict_lru_flow_inv [OF assms(1) v]
  have "set (concat (rx_buckets rx)) = insert v (set (concat (rx_buckets (evict_lru_flow rx))))"
    using m(1) e(3,8) by blast
  then show ?thesis using m e(1,2) by blast
qed

lemma example_rx_two:
  "fst (flow_get_or_create example_alloc example_rx example_key) = rx \<Longrightarrow> rx_inv rx \<and> concat (rx_buckets rx) \<noteq> []"
proof -
  assume rx: "fst (flow_get_or_create example_alloc example_rx example_key) = rx"
  obtain r where g: "flow_get_or_create example_alloc example_rx example_key = (rx, r)" using rx by (metis surj_pair fst_conv)
  have cfg: "rx_cfg example_rx = mqvpn_reorder_config_default" "rx_n_flows example_rx = 0"
    by (simp_all add: example_rx_def mqvpn_reorder_rx_new_def mqvpn_reorder_config_validate_def
        mqvpn_reorder_config_default_def mqvpn_reorder_cap_is_valid_def mqvpn_reorder_config_finalize_def)
  have w: "flow_wait_ms (rx_cfg example_rx) example_key \<noteq> 0"
    by (simp add: cfg flow_wait_ms_def mqvpn_reorder_match_rule_def mqvpn_reorder_config_default_def)
  note G = flow_get_or_create_inv [OF example_rx_inv w g]
  have "r \<noteq> None"
    using g by (auto simp: flow_get_or_create_def Let_def example_alloc_def dest: sym split: option.splits if_splits)
  then show ?thesis using G(1,2) by (metis empty_iff list.set(1) not_Some_eq)
qed

theorem evict_lru_flow_takes_oldest_witness:
  "let rx = fst (flow_get_or_create example_alloc example_rx example_key)
   in rx_inv (evict_lru_flow rx) \<and>
      length (concat (rx_buckets (evict_lru_flow rx))) + 1 = length (concat (rx_buckets rx))"
  using evict_lru_flow_takes_oldest example_rx_two unfolding Let_def by blast

definition limited_rx :: mqvpn_reorder_rx where
  "limited_rx = example_rx\<lparr>rx_cfg := (rx_cfg example_rx)\<lparr>rc_max_buffer_bytes_per_flow := 100\<rparr>\<rparr>"

definition limit_events :: "flow_event list" where
  "limit_events =
     [Flow_Packet example_alloc 1 0 (replicate 10 1) 10 1000, Flow_Packet example_alloc 3 0 (replicate 10 3) 10 1100,
      Flow_Packet example_alloc 5 0 (replicate 80 5) 80 1200, Flow_Packet example_alloc 7 0 (replicate 80 7) 80 1300]"

text \<open>
  The per-flow byte limit is not enforced: after an overflow flush the packet is admitted without
  checking the limit again. Packets 3 and 5 are buffered, packet 7 forces the flush of packet 3
  and is then added to packet 5 beyond the limit of 100 bytes.
\<close>

lemma per_flow_byte_limit_exceeded:
  "let (rx', f') = run flow_step (limited_rx, example_flow) limit_events
   in rc_max_buffer_bytes_per_flow (rx_cfg rx') = 100 \<and> rg_bytes (rf_buffer f') = 160"
  by code_simp

end
