(* ===== verification/Rx_Account.thy ===== *)
theory Rx_Account
  imports Rx_Props
begin

text \<open>
  What the counters of the receive side (\<^verbatim>\<open>src/reorder_rx.c\<close>) account for. Counters are 64-bit and wrap;
  the equations are equations of 64-bit words.
\<close>

section \<open>The fate of a packet\<close>

text \<open>The packets with a fate: delivered, dropped for one of the five reasons, or discarded by a reset.\<close>

definition accounted :: "mqvpn_reorder_stats \<Rightarrow> u64" where
  "accounted st = st_delivered_count st + st_too_late_drop_count st + st_too_far_ahead_drop_count st +
     st_duplicate_drop_count st + st_per_flow_limit_drop_count st + st_pool_drop_count st + st_reset_discard_count st"

definition packets_seen :: "mqvpn_reorder_flow \<Rightarrow> u64" where
  "packets_seen f = accounted (rf_stats f) + of_nat (unat (rg_count (rf_buffer f)))"

definition uncounted :: "mqvpn_reorder_rx \<Rightarrow> mqvpn_reorder_flow \<Rightarrow> u64" where
  "uncounted rx f = of_nat (length (rx_delivered rx)) - st_delivered_count (rf_stats f)"

text \<open>An operation took \<open>k\<close> packets in, and counted every packet it handed up.\<close>

definition settled ::
  "u64 \<Rightarrow> mqvpn_reorder_rx \<times> mqvpn_reorder_flow \<Rightarrow> mqvpn_reorder_rx \<times> mqvpn_reorder_flow \<Rightarrow> bool" where
  "settled k s s' \<longleftrightarrow>
     packets_seen (snd s') = packets_seen (snd s) + k \<and> uncounted (fst s') (snd s') = uncounted (fst s) (snd s)"

lemma settled_refl [simp]: "settled 0 s s"
  by (simp add: settled_def)

lemma settled_trans: "settled a s s1 \<Longrightarrow> settled b s1 s2 \<Longrightarrow> settled (a + b) s s2"
  by (simp add: settled_def add.assoc)

lemma settled_trans0: "settled 0 s s1 \<Longrightarrow> settled k s1 s2 \<Longrightarrow> settled k s s2"
  by (simp add: settled_def)

lemma accounted_updates [simp]:
  "accounted (residence_stats st a b) = accounted st"
  "st_delivered_count (residence_stats st a b) = st_delivered_count st"
  "accounted (st_delivered_count_update (\<lambda>n. n + 1) st) = accounted st + 1"
  "accounted (st_too_late_drop_count_update (\<lambda>n. n + 1) st) = accounted st + 1"
  "accounted (st_too_far_ahead_drop_count_update (\<lambda>n. n + 1) st) = accounted st + 1"
  "accounted (st_duplicate_drop_count_update (\<lambda>n. n + 1) st) = accounted st + 1"
  "accounted (st_per_flow_limit_drop_count_update (\<lambda>n. n + 1) st) = accounted st + 1"
  "accounted (st_pool_drop_count_update (\<lambda>n. n + 1) st) = accounted st + 1"
  "accounted (st_reset_discard_count_update (\<lambda>n. n + m) st) = accounted st + m"
  "accounted (st_ack_demote_count_update g st) = accounted st"
  "accounted (st_gap_count_update g st) = accounted st"
  "accounted (st_gap_filled_count_update g st) = accounted st"
  "accounted (st_gap_timeout_count_update g st) = accounted st"
  "accounted (st_gap_overflow_count_update g st) = accounted st"
  "accounted (st_gap_demote_count_update g st) = accounted st"
  "accounted (st_gap_reset_count_update g st) = accounted st"
  by (simp_all add: accounted_def residence_stats_def Let_def algebra_simps)

lemmas settled_defs = settled_def packets_seen_def uncounted_def

lemma pool_release_delivered: "rx_delivered (pool_release rx len) = rx_delivered rx"
  by (simp add: pool_release_def)

lemma period_start_settled: "settled 0 (rx, f) (period_start_if_needed rx f now_us)"
  by (auto simp: settled_defs period_start_if_needed_def arm_gap_timer_def Let_def)

lemma period_end_settled:
  "settled 0 (rx, f) (rx, period_end_if_done f bump_gap_filled)"
  "settled 0 (rx, f) (rx, period_end_if_done f bump_gap_overflow)"
  by (simp_all add: settled_defs period_end_if_done_def stop_gap_timer_def)

lemma deliver_settled:
  "settled 1 (rx, f) (rx\<lparr>rx_delivered := rx_delivered rx @ [pkt]\<rparr>,
     f\<lparr>rf_stats := residence_stats (st_delivered_count_update (\<lambda>n. n + 1) (rf_stats f)) a b\<rparr>)"
  by (simp add: settled_defs)

lemma drain_loop_settled:
  assumes "flow_ring_ok f" and "unat (rg_bytes (rf_buffer f)) \<le> unat (rx_pool_bytes_used rx)"
  shows "settled 0 (rx, f) (drain_loop n rx f now_us)"
  using assms
proof (induction n arbitrary: rx f)
  case (Suc n)
  note D = flow_ring_okD [OF Suc.prems(1)]
  show ?case
  proof (cases "ring_abs (rf_buffer f) (rf_expected f)")
    case None
    then show ?thesis by (simp add: ring_remove_absent)
  next
    case (Some v)
    obtain pkt len enq where v: "v = (pkt, len, enq)" by (cases v)
    obtain r where rm: "ring_remove (rf_buffer f) (rf_expected f) = (Some (pkt, len, enq), r)"
      using rb.remove_result [OF D(1), of "rf_expected f"] Some v by (metis prod.collapse)
    have cnt: "unat (rg_count (rf_buffer f)) = unat (rg_count r) + 1"
      using ring_remove_present [OF D(1) Some [unfolded v]] rm by simp
    let ?st = "residence_stats (st_delivered_count_update (\<lambda>n. n + 1) (rf_stats f)) now_us enq"
    let ?rx = "pool_release (rx\<lparr>rx_delivered := rx_delivered rx @ [pkt]\<rparr>) len"
    let ?f = "f\<lparr>rf_buffer := r, rf_stats := ?st, rf_expected := rf_expected f + 1\<rparr>"
    have adv: "advances rx f ?rx ?f"
      by (rule advances_step [OF Suc.prems(1,2) rm]) simp_all
    have eq: "drain_loop (Suc n) rx f now_us = drain_loop n ?rx ?f now_us"
      by (simp add: rm deliver_pkt_pair Let_def)
    have "flow_ring_ok ?f" "unat (rg_bytes (rf_buffer ?f)) \<le> unat (rx_pool_bytes_used ?rx)"
      using adv by (simp_all add: advances_def)
    note IH = Suc.IH [OF this]
    have "settled 0 (rx, f) (?rx, ?f)" by (simp add: settled_defs cnt pool_release_delivered)
    from settled_trans0 [OF this IH] show ?thesis unfolding eq .
  qed
qed simp

lemma drain_contiguous_settled:
  assumes "flow_ring_ok f" and "unat (rg_bytes (rf_buffer f)) \<le> unat (rx_pool_bytes_used rx)"
  shows "settled 0 (rx, f) (drain_contiguous rx f now_us)"
  using drain_loop_settled [OF assms] by (simp add: drain_contiguous_def)

lemma skip_drain_settled:
  assumes ok: "flow_ring_ok f" and ne: "\<not> ring_empty (rf_buffer f)"
    and pool: "unat (rg_bytes (rf_buffer f)) \<le> unat (rx_pool_bytes_used rx)"
  shows "settled 0 (rx, f) (drain_contiguous rx (f\<lparr>rf_expected := ring_lowest_seq (rf_buffer f) (rf_expected f)\<rparr>) now_us)"
proof -
  let ?low = "ring_lowest_seq (rf_buffer f) (rf_expected f)"
  note D = flow_ring_okD [OF ok]
  note low = rb.skip_inv [OF D(1) ne]
  have nx: "?low < rf_rx_next f" using D(3) low(2) .
  have "?low \<le> 2 ^ 48" using nx D(4) by (meson order_le_less order_less_le_trans)
  then have okf: "flow_ring_ok (f\<lparr>rf_expected := ?low\<rparr>)"
    using ok low nx D order_le_less_trans [OF low(3) nx] by (auto simp: flow_ring_ok_def)
  have "settled 0 (rx, f) (rx, f\<lparr>rf_expected := ?low\<rparr>)" by (simp add: settled_defs)
  from settled_trans0 [OF this drain_contiguous_settled [OF okf]] pool show ?thesis by simp
qed

lemma timeout_loop_settled:
  assumes "flow_ring_ok f" and "unat (rg_bytes (rf_buffer f)) \<le> unat (rx_pool_bytes_used rx)"
  shows "settled 0 (rx, f) (timeout_loop n rx f now_us)"
  using assms
proof (induction n arbitrary: rx f)
  case (Suc n)
  show ?case
  proof (cases "\<not> ring_empty (rf_buffer f) \<and> rf_expected f < rf_reord f")
    case False
    then show ?thesis unfolding timeout_loop.simps if_not_P [OF False] by simp
  next
    case True
    obtain rx1 f1 where d: "drain_contiguous rx
        (f\<lparr>rf_expected := ring_lowest_seq (rf_buffer f) (rf_expected f)\<rparr>) now_us = (rx1, f1)" by fastforce
    note sk = skip_drain_advances [OF Suc.prems(1) conjunct1 [OF True] Suc.prems(2) d]
    have eq: "timeout_loop (Suc n) rx f now_us = timeout_loop n rx1 f1 now_us" using True d by (simp add: Let_def)
    have "settled 0 (rx, f) (rx1, f1)" using skip_drain_settled [OF Suc.prems(1) conjunct1 [OF True] Suc.prems(2)] d by metis
    moreover have "settled 0 (rx1, f1) (timeout_loop n rx1 f1 now_us)"
      using sk(1) by (intro Suc.IH) (simp_all add: advances_def)
    ultimately show ?thesis unfolding eq by (rule settled_trans0)
  qed
qed simp

lemma demote_loop_settled:
  assumes "flow_ring_ok f" and "unat (rg_bytes (rf_buffer f)) \<le> unat (rx_pool_bytes_used rx)"
  shows "settled 0 (rx, f) (demote_loop n rx f now_us)"
  using assms
proof (induction n arbitrary: rx f)
  case (Suc n)
  show ?case
  proof (cases "ring_empty (rf_buffer f)")
    case False
    obtain rx1 f1 where d: "drain_contiguous rx
        (f\<lparr>rf_expected := ring_lowest_seq (rf_buffer f) (rf_expected f)\<rparr>) now_us = (rx1, f1)" by fastforce
    note sk = skip_drain_advances [OF Suc.prems(1) False Suc.prems(2) d]
    have eq: "demote_loop (Suc n) rx f now_us = demote_loop n rx1 f1 now_us" using False d by (simp add: Let_def)
    have "settled 0 (rx, f) (rx1, f1)" using skip_drain_settled [OF Suc.prems(1) False Suc.prems(2)] d by metis
    moreover have "settled 0 (rx1, f1) (demote_loop n rx1 f1 now_us)"
      using sk(1) by (intro Suc.IH) (simp_all add: advances_def)
    ultimately show ?thesis unfolding eq by (rule settled_trans0)
  qed simp
qed simp


section \<open>The operations\<close>

lemma overflow_flush_settled:
  assumes "flow_pre rx f" and "\<not> ring_empty (rf_buffer f)"
  shows "settled 0 (rx, f) (overflow_flush rx f now_us)"
proof -
  note P = flow_preD [OF assms(1)]
  let ?low = "ring_lowest_seq (rf_buffer f) (rf_expected f)"
  have "rf_expected f \<le> ?low" "ring_contains (rf_buffer f) ?low"
    using rb.skip_inv [OF P(5) assms(2)] by blast+
  then have "?low > rf_expected f" using P(6) by (metis order_le_less)
  moreover obtain rx1 f1 where d: "drain_contiguous rx (f\<lparr>rf_expected := ?low\<rparr>) now_us = (rx1, f1)"
    by fastforce
  ultimately have eq: "overflow_flush rx f now_us =
      period_start_if_needed rx1 (period_end_if_done (f1\<lparr>rf_last_progress_us := now_us\<rparr>) bump_gap_overflow) now_us"
    by (simp add: overflow_flush_def skip_to_lowest_and_drain_def Let_def)
  have "settled 0 (rx, f) (rx1, f1)" using skip_drain_settled [OF P(4) assms(2) P(7)] d by metis
  then have "settled 0 (rx, f) (rx1, f1\<lparr>rf_last_progress_us := now_us\<rparr>)" by (simp add: settled_defs)
  then show ?thesis
    unfolding eq using settled_trans0 period_end_settled(2) period_start_settled by metis
qed

lemma on_gap_timeout_settled:
  assumes P: "flow_ring_ok f" "unat (rg_bytes (rf_buffer f)) \<le> unat (rx_pool_bytes_used rx)"
  shows "settled 0 (rx, f) (on_gap_timeout rx f now_us)"
proof (cases "ring_empty (rf_buffer f)")
  case True
  then show ?thesis by (simp add: on_gap_timeout_def settled_defs stop_gap_timer_def)
next
  case False
  let ?f0 = "f\<lparr>rf_stats := st_gap_timeout_count_update (\<lambda>n. n + 1) (rf_stats f)\<rparr>"
  obtain rx1 f1 where t: "timeout_loop (unat (rg_count (rf_buffer f))) rx ?f0 now_us = (rx1, f1)" by fastforce
  have eq: "on_gap_timeout rx f now_us = period_start_if_needed rx1 (stop_gap_timer (f1\<lparr>rf_last_progress_us := now_us\<rparr>)) now_us"
    using False t by (simp add: on_gap_timeout_def Let_def)
  have "flow_ring_ok ?f0" "unat (rg_bytes (rf_buffer ?f0)) \<le> unat (rx_pool_bytes_used rx)" using P by simp_all
  from timeout_loop_settled [OF this, of "unat (rg_count (rf_buffer f))" now_us]
  have "settled 0 (rx, f) (rx1, stop_gap_timer (f1\<lparr>rf_last_progress_us := now_us\<rparr>))"
    unfolding t by (simp add: settled_defs stop_gap_timer_def)
  then show ?thesis unfolding eq using period_start_settled by (rule settled_trans0)
qed

lemma deliver_in_order_settled:
  assumes "flow_pre rx f" and "rf_expected f < 2 ^ 48"
  shows "settled 1 (rx, f) (snd (deliver_in_order rx f pkt now_us))"
proof -
  note P = flow_preD [OF assms(1)]
  note D = flow_ring_okD [OF P(4)]
  let ?rx1 = "rx\<lparr>rx_delivered := rx_delivered rx @ [pkt]\<rparr>"
  let ?f1 = "f\<lparr>rf_stats := residence_stats (st_delivered_count_update (\<lambda>n. n + 1) (rf_stats f)) now_us now_us,
     rf_expected := rf_expected f + 1, rf_last_progress_us := now_us\<rparr>"
  have inc: "unat (rf_expected f + 1) = unat (rf_expected f) + 1" using D(2) by (rule unat_inc)
  have wf: "ring_wf (rf_buffer f) (rf_expected f + 1)"
  proof (rule rb.advance [OF D(1)])
    show "rf_expected f \<le> rf_expected f + 1" using D(2) by (rule le_inc)
    fix q assume q: "ring_abs (rf_buffer f) q \<noteq> None"
    then have "rf_expected f \<le> q" using D(1) by (intro rb.window)
    moreover have "q \<noteq> rf_expected f" using P(6) q by (auto simp: ring_contains_abs)
    ultimately show "rf_expected f + 1 \<le> q" using inc by (auto simp: word_le_nat_alt word_unat_eq_iff)
  qed
  have ok: "flow_ring_ok ?f1"
    using P(4) wf assms(2) inc by (auto simp: flow_ring_ok_def word_le_nat_alt word_less_nat_alt)
  obtain rx2 f2 where d: "drain_contiguous ?rx1 ?f1 now_us = (rx2, f2)" by fastforce
  have "unat (rg_bytes (rf_buffer ?f1)) \<le> unat (rx_pool_bytes_used ?rx1)" using P(7) by simp
  from drain_contiguous_settled [OF ok this, of now_us] have s0: "settled 0 (?rx1, ?f1) (rx2, f2)" unfolding d .
  have "settled 0 (?rx1, ?f1) (period_start_if_needed rx2 (period_end_if_done f2 bump_gap_filled) now_us)"
    by (rule settled_trans0 [OF settled_trans0 [OF s0 period_end_settled(1)] period_start_settled])
  moreover have "settled 1 (rx, f) (?rx1, ?f1)" by (simp add: settled_defs)
  ultimately have "settled (1 + 0) (rx, f) (period_start_if_needed rx2 (period_end_if_done f2 bump_gap_filled) now_us)"
    by (rule settled_trans [rotated])
  moreover have "snd (deliver_in_order rx f pkt now_us) =
      period_start_if_needed rx2 (period_end_if_done f2 bump_gap_filled) now_us"
    using d by (simp add: deliver_in_order_def deliver_pkt_pair Let_def split_beta)
  ultimately show ?thesis by simp
qed

lemma drop_settled:
  "settled 1 (rx, f) (rx, f\<lparr>rf_stats := st_too_late_drop_count_update (\<lambda>n. n + 1) (rf_stats f)\<rparr>)"
  "settled 1 (rx, f) (rx, f\<lparr>rf_stats := st_too_far_ahead_drop_count_update (\<lambda>n. n + 1) (rf_stats f)\<rparr>)"
  "settled 1 (rx, f) (rx, f\<lparr>rf_stats := st_duplicate_drop_count_update (\<lambda>n. n + 1) (rf_stats f)\<rparr>)"
  "settled 1 (rx, f) (rx, f\<lparr>rf_stats := st_per_flow_limit_drop_count_update (\<lambda>n. n + 1) (rf_stats f)\<rparr>)"
  "settled 1 (rx, f) (rx, f\<lparr>rf_stats := st_pool_drop_count_update (\<lambda>n. n + 1) (rf_stats f)\<rparr>)"
  by (simp_all add: settled_defs)

lemma buffer_insert_committed_settled:
  assumes pre: "flow_pre rx f" and q: "rf_expected f < seq" "\<not> ring_far_ahead (rf_buffer f) seq (rf_expected f)"
      "\<not> ring_contains (rf_buffer f) seq"
  shows "settled 1 (rx, f) (snd (buffer_insert_committed al rx f seq pkt len now_us))"
proof (cases "al_copy al")
  case False
  then show ?thesis by (simp add: buffer_insert_committed_def drop_settled)
next
  case True
  show ?thesis
  proof (cases "ring_insert (al_slots al) (rf_buffer f) seq pkt len (rf_expected f) now_us")
    case None
    then show ?thesis using True by (simp add: buffer_insert_committed_def drop_settled)
  next
    case (Some r)
    have cnt: "unat (rg_count r) = unat (rg_count (rf_buffer f)) + 1"
      using ring_insert_ok [OF flow_preD(5) [OF pre] less_imp_le [OF q(1)] q(2) ring_not_contains [OF q(3)] Some] by simp
    let ?nx = "if seq + 1 > rf_rx_next f then seq + 1 else rf_rx_next f"
    let ?rx = "rx\<lparr>rx_pool_bytes_used := rx_pool_bytes_used rx + ucast len\<rparr>"
    let ?f = "f\<lparr>rf_buffer := r, rf_last_progress_us := now_us, rf_rx_next := ?nx\<rparr>"
    have "snd (buffer_insert_committed al rx f seq pkt len now_us) = period_start_if_needed ?rx ?f now_us"
      using True Some by (simp add: buffer_insert_committed_def Let_def split_beta)
    moreover have "settled 1 (rx, f) (?rx, ?f)" by (simp add: settled_defs cnt)
    ultimately show ?thesis using settled_trans [OF _ period_start_settled] by fastforce
  qed
qed

lemma reclassify_after_flush_settled:
  assumes "flow_pre rx f" and "seq < 2 ^ 48" and "reclassify_after_flush rx f seq pkt now_us = (res, rx', f')"
    and "res \<noteq> REORDER_BUFFERED"
  shows "settled 1 (rx, f) (rx', f')"
  using assms deliver_in_order_settled [OF assms(1), of pkt now_us]
  by (auto simp: reclassify_after_flush_def drop_settled split: if_splits)

lemma admit_pool_settled:
  assumes pre: "flow_pre rx f" and init: "rf_initialized f" "\<not> rf_pass_through f"
    and q: "rf_expected f < seq" "seq < 2 ^ 48" "\<not> ring_far_ahead (rf_buffer f) seq (rf_expected f)"
      "\<not> ring_contains (rf_buffer f) seq"
  shows "settled 1 (rx, f) (snd (admit_pool al rx f seq pkt len now_us))"
proof (cases "pool_would_exhaust rx len \<and> \<not> ring_empty (rf_buffer f)")
  case False
  then show ?thesis
    using buffer_insert_committed_settled [OF pre q(1,3,4)] by (auto simp: admit_pool_def drop_settled)
next
  case True
  obtain rx1 f1 where o: "overflow_flush rx f now_us = (rx1, f1)" by fastforce
  note fl = overflow_flush_op [OF pre conjunct2 [OF True], where now_us = now_us, unfolded o, simplified]
  note s = overflow_flush_settled [OF pre conjunct2 [OF True], where now_us = now_us, unfolded o]
  obtain res rx2 f2 where r: "reclassify_after_flush rx1 f1 seq pkt now_us = (res, rx2, f2)"
    by (cases "reclassify_after_flush rx1 f1 seq pkt now_us")
  have pre1: "flow_pre rx1 f1" using fl(1) [of "{}"] by (simp add: flow_op_def)
  have init1: "rf_initialized f1" "\<not> rf_pass_through f1" using fl(2,3) init by simp_all
  have "settled 1 (rx1, f1) (snd (admit_pool al rx f seq pkt len now_us))"
  proof (cases "res = REORDER_BUFFERED")
    case False
    then show ?thesis using True o r reclassify_after_flush_settled [OF pre1 q(2) r] by (simp add: admit_pool_def)
  next
    case buf: True
    note b = reclassify_after_flush_op(2) [OF pre1 init1 q(2) _ r buf, of "{}"]
    then show ?thesis
      using True o r buf buffer_insert_committed_settled [OF pre1, of seq al pkt len now_us]
      by (simp add: admit_pool_def drop_settled)
  qed
  with s show ?thesis by (rule settled_trans0)
qed

lemma buffer_admit_settled:
  assumes pre: "flow_pre rx f" and init: "rf_initialized f" "\<not> rf_pass_through f"
    and q: "rf_expected f < seq" "seq < 2 ^ 48" "\<not> ring_far_ahead (rf_buffer f) seq (rf_expected f)"
  shows "settled 1 (rx, f) (snd (buffer_admit al rx f seq pkt len now_us))"
proof (cases "\<not> ring_contains (rf_buffer f) seq \<and> would_exceed_per_flow_limits rx f len \<and> \<not> ring_empty (rf_buffer f)")
  case False
  then show ?thesis
    using admit_pool_settled [OF pre init q] by (auto simp: buffer_admit_def drop_settled)
next
  case True
  note ne = conjunct2 [OF conjunct2 [OF True]]
  obtain rx1 f1 where o: "overflow_flush rx f now_us = (rx1, f1)" by fastforce
  note fl = overflow_flush_op [OF pre ne, where now_us = now_us, unfolded o, simplified]
  note s = overflow_flush_settled [OF pre ne, where now_us = now_us, unfolded o]
  obtain res rx2 f2 where r: "reclassify_after_flush rx1 f1 seq pkt now_us = (res, rx2, f2)"
    by (cases "reclassify_after_flush rx1 f1 seq pkt now_us")
  have pre1: "flow_pre rx1 f1" using fl(1) [of "{}"] by (simp add: flow_op_def)
  have init1: "rf_initialized f1" "\<not> rf_pass_through f1" using fl(2,3) init by simp_all
  have "settled 1 (rx1, f1) (snd (buffer_admit al rx f seq pkt len now_us))"
  proof (cases "res = REORDER_BUFFERED")
    case False
    then show ?thesis using True o r reclassify_after_flush_settled [OF pre1 q(2) r] by (simp add: buffer_admit_def)
  next
    case buf: True
    note b = reclassify_after_flush_op(2) [OF pre1 init1 q(2) _ r buf, of "{}"]
    then show ?thesis
      using True o r buf admit_pool_settled [OF pre1 init1 _ q(2), of al pkt len now_us] by (simp add: buffer_admit_def)
  qed
  with s show ?thesis by (rule settled_trans0)
qed

lemma process_reorder_packet_settled:
  assumes pre: "flow_pre rx f" and "\<not> rf_pass_through f" and "seq < 2 ^ 48"
  shows "settled 1 (rx, f) (snd (process_reorder_packet al rx f seq pkt len now_us))"
proof (cases "rf_initialized f")
  case False
  then show ?thesis by (simp add: process_reorder_packet_def deliver_pkt_pair settled_defs Let_def)
next
  case True
  show ?thesis
    using True deliver_in_order_settled [OF pre] buffer_admit_settled [OF pre True assms(2)] assms(3)
    by (auto simp: process_reorder_packet_def drop_settled)
qed

text \<open>A reset discards what is buffered and counts it.\<close>

lemma reset_reorder_flow_settled:
  assumes pre: "flow_pre rx f"
  shows "settled 0 (rx, f) (reset_reorder_flow rx f)"
proof -
  note P = flow_preD [OF pre]
  let ?n = "case rg_slots (rf_buffer f) of None \<Rightarrow> 0 | Some ss \<Rightarrow> length (filter (\<lambda>s. rs_pkt s \<noteq> None) ss)"
  have n: "unat (rg_count (rf_buffer f)) = ?n"
    using P(5) by (auto simp: ring_wf_def slot_used_def [abs_def] split: option.splits)
  obtain p where p: "release_slots rx (rf_buffer f) = rx\<lparr>rx_pool_bytes_used := p\<rparr>"
    using release_slots_pool(2) [OF P(5,7)] by blast
  have "rg_count (ring_free r) = 0" for r by (simp add: ring_free_def)
  then show ?thesis
    using n p by (simp add: reset_reorder_flow_def discard_buffer_for_reset_def stop_gap_timer_def settled_defs Let_def)
qed

lemma flush_buffer_for_demote_settled:
  assumes pre: "flow_pre rx f"
  shows "settled 0 (rx, f) (flush_buffer_for_demote rx f now_us)"
proof -
  note P = flow_preD [OF pre]
  let ?st = "if rf_gap_timer_active f then st_gap_demote_count_update (\<lambda>n. n + 1) (rf_stats f) else rf_stats f"
  let ?f0 = "f\<lparr>rf_stats := ?st\<rparr>"
  have f0: "(if rf_gap_timer_active f then f\<lparr>rf_stats := st_gap_demote_count_update (\<lambda>n. n + 1) (rf_stats f)\<rparr> else f) = ?f0"
    by simp
  obtain rx1 f1 where l: "demote_loop (unat (rg_count (rf_buffer f))) rx ?f0 now_us = (rx1, f1)" by fastforce
  have emp: "ring_empty (rf_buffer f1)"
    using demote_loop_advances [of ?f0 rx "unat (rg_count (rf_buffer f))" now_us rx1 f1] P(4,7) l by auto
  have eq: "flush_buffer_for_demote rx f now_us =
      (rx1, f1\<lparr>rf_last_progress_us := now_us, rf_gap_timer_active := False, rf_buffer := ring_free (rf_buffer f1)\<rparr>)"
    using l by (simp add: flush_buffer_for_demote_def f0 stop_gap_timer_def Let_def)
  have "flow_ring_ok ?f0" "unat (rg_bytes (rf_buffer ?f0)) \<le> unat (rx_pool_bytes_used rx)" using P(4,7) by simp_all
  from demote_loop_settled [OF this, of "unat (rg_count (rf_buffer f))" now_us]
  have "settled 0 (rx, ?f0) (rx1, f1)" unfolding l .
  moreover have "settled 0 (rx, f) (rx, ?f0)" by (simp add: settled_defs)
  moreover have "settled 0 (rx1, f1) (flush_buffer_for_demote rx f now_us)"
    using emp by (simp add: eq settled_defs ring_empty_def ring_free_def)
  ultimately show ?thesis by (metis settled_trans0)
qed

lemma on_reordered_settled:
  assumes pre: "flow_pre rx f" and seq: "seq < 2 ^ 48"
  shows "settled 1 (rx, f) (on_reordered al rx f seq flags pkt len now_us)"
proof -
  let ?f = "f\<lparr>rf_last_seen_us := now_us\<rparr>"
  have pre': "flow_pre rx ?f" using pre by (simp add: flow_pre_def)
  have s0: "settled 0 (rx, f) (rx, ?f)" by (simp add: settled_defs)
  consider (reset) "reset_honored rx ?f flags now_us"
    | (pass) "\<not> reset_honored rx ?f flags now_us" "rf_pass_through f"
    | (norm) "\<not> reset_honored rx ?f flags now_us" "\<not> rf_pass_through f" by blast
  then show ?thesis
  proof cases
    case reset
    obtain rx1 f1 where r: "reset_reorder_flow rx ?f = (rx1, f1)" by fastforce
    have "settled 0 (rx, ?f) (rx1, f1)" using reset_reorder_flow_settled [OF pre'] unfolding r .
    moreover have "settled 1 (rx1, f1) (on_reordered al rx f seq flags pkt len now_us)"
      using reset r by (simp add: on_reordered_def deliver_pkt_pair settled_defs Let_def)
    ultimately show ?thesis using s0 by (metis settled_trans0)
  next
    case pass
    then show ?thesis by (simp add: on_reordered_def deliver_pkt_pair settled_defs Let_def)
  next
    case norm
    obtain res rx1 f1 where pr: "process_reorder_packet al rx ?f seq pkt len now_us = (res, rx1, f1)"
      by (cases "process_reorder_packet al rx ?f seq pkt len now_us")
    have s1: "settled 1 (rx, f) (rx1, f1)"
      using settled_trans0 [OF s0 process_reorder_packet_settled [OF pre' _ seq, of al pkt len now_us]] norm(2) pr by simp
    have pre1: "flow_pre rx1 f1"
      using process_reorder_packet_op [OF pre' _ seq, of "{}" pkt al len now_us] norm(2) pr by (simp add: flow_op_def)
    obtain c f2 where c: "classify_update rx1 f1 pkt len = (c, f2)" by fastforce
    obtain a b where f2: "f2 = f1\<lparr>rf_classify_seen := a, rf_classify_large := b\<rparr>"
      using classify_update_flow [OF c] by blast
    have s2: "settled 1 (rx, f) (rx1, f2)" using s1 by (simp add: f2 settled_defs)
    have pre2: "flow_pre rx1 f2" using pre1 by (simp add: f2 flow_pre_def)
    obtain rx3 f3 where fl: "flush_buffer_for_demote rx1 f2 now_us = (rx3, f3)" by fastforce
    have "settled (1 + 0) (rx, f) (rx3, f3)"
      using settled_trans [OF s2 flush_buffer_for_demote_settled [OF pre2, of now_us]] unfolding fl .
    then have "settled 1 (rx, f) (rx3, f3\<lparr>rf_pass_through := True,
          rf_stats := st_ack_demote_count_update (\<lambda>n. n + 1) (rf_stats f3)\<rparr>)" by (simp add: settled_defs)
    then show ?thesis
      using norm pr c s1 s2 fl by (simp add: on_reordered_def Let_def split: classify_result.split)
  qed
qed


section \<open>The engine\<close>

text \<open>The packets handed up that no counter of the engine and of the flows \<open>fs\<close> has counted.\<close>

definition flow_sum :: "mqvpn_reorder_flow list \<Rightarrow> u64" where
  "flow_sum fs = of_nat (sum_list (map (\<lambda>f. unat (st_delivered_count (rf_stats f))) fs))"

definition engine_uncounted :: "mqvpn_reorder_rx \<Rightarrow> mqvpn_reorder_flow list \<Rightarrow> u64" where
  "engine_uncounted rx fs =
     of_nat (length (rx_delivered rx)) - (st_delivered_count (rx_evicted_stats rx) + flow_sum fs)"

lemma flow_sum_simps [simp]:
  "flow_sum [] = 0" "flow_sum (f # fs) = st_delivered_count (rf_stats f) + flow_sum fs"
  "flow_sum (fs @ gs) = flow_sum fs + flow_sum gs"
  by (simp_all add: flow_sum_def)

lemma get_stats_delivered:
  "st_delivered_count (mqvpn_reorder_rx_get_stats rx) =
     st_delivered_count (rx_evicted_stats rx) + flow_sum (concat (rx_buckets rx))"
proof -
  have "st_delivered_count (fold (\<lambda>f out. mqvpn_reorder_stats_accumulate out (rf_stats f)) fs st) =
      st_delivered_count st + flow_sum fs" for fs st
    by (induction fs arbitrary: st) (simp_all add: mqvpn_reorder_stats_accumulate_def add.assoc)
  then show ?thesis by (simp add: mqvpn_reorder_rx_get_stats_def)
qed

lemma settled_uncounted:
  assumes "settled k (rx, f) (rx', f')" and "rx_evicted_stats rx' = rx_evicted_stats rx"
    and "flow_sum fs' + st_delivered_count (rf_stats f) = flow_sum fs + st_delivered_count (rf_stats f')"
  shows "engine_uncounted rx' fs' = engine_uncounted rx fs"
proof -
  have "of_nat (length (rx_delivered rx')) - st_delivered_count (rf_stats f') =
      of_nat (length (rx_delivered rx)) - st_delivered_count (rf_stats f)"
    using assms(1) by (simp add: settled_def uncounted_def)
  then have l: "of_nat (length (rx_delivered rx')) =
      of_nat (length (rx_delivered rx)) - st_delivered_count (rf_stats f) + st_delivered_count (rf_stats f')"
    by (simp add: diff_eq_eq)
  have "flow_sum fs' = flow_sum fs + st_delivered_count (rf_stats f') - st_delivered_count (rf_stats f)"
    using assms(3) by (simp add: eq_diff_eq)
  then show ?thesis unfolding engine_uncounted_def assms(2) l by simp
qed

lemma release_slots_keeps:
  "rx_delivered (release_slots rx r) = rx_delivered rx"
  "rx_evicted_stats (release_slots rx r) = rx_evicted_stats rx"
  "rx_cfg (release_slots rx r) = rx_cfg rx"
proof -
  let ?g = "\<lambda>s rx. if rs_pkt s \<noteq> None then pool_release rx (rs_len s) else rx"
  have "rx_delivered (fold ?g ss rx) = rx_delivered rx \<and> rx_evicted_stats (fold ?g ss rx) = rx_evicted_stats rx \<and>
      rx_cfg (fold ?g ss rx) = rx_cfg rx" for ss :: "ring_slot list"
    by (induction ss arbitrary: rx) (simp_all add: pool_release_def)
  then show "rx_delivered (release_slots rx r) = rx_delivered rx"
    "rx_evicted_stats (release_slots rx r) = rx_evicted_stats rx" "rx_cfg (release_slots rx r) = rx_cfg rx"
    by (simp_all add: release_slots_def split: option.split)
qed

text \<open>Destroying a flow folds its counters into those of the engine.\<close>

lemma flow_destroy_uncounted:
  assumes "flow_sum fs + st_delivered_count (rf_stats f) = flow_sum gs"
  shows "engine_uncounted (flow_destroy rx f) fs = engine_uncounted rx gs"
  unfolding engine_uncounted_def assms [symmetric]
  by (simp add: flow_destroy_def release_slots_keeps mqvpn_reorder_stats_accumulate_def)

lemma engine_uncounted_cong:
  "rx_delivered rx' = rx_delivered rx \<Longrightarrow> rx_evicted_stats rx' = rx_evicted_stats rx \<Longrightarrow>
   engine_uncounted rx' fs = engine_uncounted rx fs"
  by (simp add: engine_uncounted_def)

lemma gap_sweep_chain_uncounted:
  assumes "rx_core rx (xs @ c @ ys)" and "gap_sweep_chain rx now_us c = (rx', c')"
  shows "engine_uncounted rx' (xs @ c' @ ys) = engine_uncounted rx (xs @ c @ ys)"
  using assms
proof (induction c arbitrary: rx xs c')
  case (Cons f c)
  obtain rx1 f1 where s: "(if \<not> rf_gap_timer_active f then (rx, f)
             else if rf_gap_deadline_us f \<le> now_us then on_gap_timeout rx f now_us
             else if rf_gap_deadline_us f < rx_next_gap_us rx
             then (rx\<lparr>rx_next_gap_us := rf_gap_deadline_us f\<rparr>, f)
             else (rx, f)) = (rx1, f1)"
    by (metis surj_pair)
  obtain c2 where c2: "gap_sweep_chain rx1 now_us c = (rx', c2)" "c' = f1 # c2"
    using Cons.prems(2) by (simp add: s split: prod.splits)
  have core: "rx_core rx (xs @ f # (c @ ys))" using Cons.prems(1) by simp
  note st = gap_sweep_chain_step [OF core s]
  then have "rx_core rx1 ((xs @ [f1]) @ c @ ys)" by simp
  note ih = Cons.IH [OF this c2(1)]
  note m = rx_core_member [OF core, of f, simplified]
  have "flow_ring_ok f" using m(1) by (simp add: flow_inv_def flow_mid_defs)
  from on_gap_timeout_settled [OF this m(4), of now_us]
  have "settled 0 (rx, f) (rx1, f1)" using s by (auto simp: settled_defs split: if_splits)
  moreover have "rx_evicted_stats rx1 = rx_evicted_stats rx" using st by (simp add: rx_rest_def)
  ultimately have "engine_uncounted rx1 (xs @ f1 # c @ ys) = engine_uncounted rx (xs @ f # c @ ys)"
    by (rule settled_uncounted) simp
  then show ?case using ih c2(2) by simp
qed simp

lemma gap_sweep_uncounted:
  assumes "rx_core rx (xs @ concat b)" and "gap_sweep rx now_us b = (rx', b')"
  shows "engine_uncounted rx' (xs @ concat b') = engine_uncounted rx (xs @ concat b)"
  using assms
proof (induction b arbitrary: rx xs b')
  case (Cons c b)
  obtain rx1 c1 where s: "gap_sweep_chain rx now_us c = (rx1, c1)" by fastforce
  obtain b2 where b2: "gap_sweep rx1 now_us b = (rx', b2)" "b' = c1 # b2"
    using Cons.prems(2) by (simp add: s split: prod.splits)
  have core: "rx_core rx (xs @ c @ concat b)" using Cons.prems(1) by simp
  then have "rx_core rx1 ((xs @ c1) @ concat b)" using gap_sweep_chain_spec [OF core s] by simp
  note ih = Cons.IH [OF this b2(1)]
  show ?case using ih gap_sweep_chain_uncounted [OF core s] b2(2) by simp
qed simp

lemma idle_sweep_chain_uncounted:
  "idle_sweep_chain rx now_us c = (rx', c') \<Longrightarrow>
   engine_uncounted rx' (xs @ c' @ ys) = engine_uncounted rx (xs @ c @ ys)"
proof (induction c arbitrary: rx xs c')
  case (Cons f c)
  show ?case
  proof (cases "flow_is_idle rx now_us f")
    case True
    let ?rx = "(flow_destroy rx f)\<lparr>rx_n_flows := rx_n_flows (flow_destroy rx f) - 1\<rparr>"
    have "idle_sweep_chain ?rx now_us c = (rx', c')" using Cons.prems True by (simp add: Let_def)
    then have "engine_uncounted rx' (xs @ c' @ ys) = engine_uncounted ?rx (xs @ c @ ys)" by (rule Cons.IH)
    also have "\<dots> = engine_uncounted (flow_destroy rx f) (xs @ c @ ys)" by (rule engine_uncounted_cong) simp_all
    also have "\<dots> = engine_uncounted rx (xs @ (f # c) @ ys)" by (rule flow_destroy_uncounted) (simp add: algebra_simps)
    finally show ?thesis .
  next
    case False
    let ?t = "rf_last_progress_us f + ucast (rc_ingress_idle_timeout_sec (rx_cfg rx)) * 1000000 + 1"
    let ?rx = "if ?t < rx_next_idle_us rx then rx\<lparr>rx_next_idle_us := ?t\<rparr> else rx"
    obtain c1 where c1: "idle_sweep_chain ?rx now_us c = (rx', c1)" "c' = f # c1"
      using Cons.prems False by (auto simp: Let_def split: prod.splits)
    have "engine_uncounted rx' ((xs @ [f]) @ c1 @ ys) = engine_uncounted ?rx ((xs @ [f]) @ c @ ys)"
      using c1(1) by (rule Cons.IH)
    moreover have "engine_uncounted ?rx fs = engine_uncounted rx fs" for fs by (rule engine_uncounted_cong) simp_all
    ultimately show ?thesis using c1(2) by simp
  qed
qed simp

lemma idle_sweep_uncounted:
  "idle_sweep rx now_us b = (rx', b') \<Longrightarrow> engine_uncounted rx' (xs @ concat b') = engine_uncounted rx (xs @ concat b)"
proof (induction b arbitrary: rx xs b')
  case (Cons c b)
  obtain rx1 c1 where s: "idle_sweep_chain rx now_us c = (rx1, c1)" by fastforce
  obtain b2 where b2: "idle_sweep rx1 now_us b = (rx', b2)" "b' = c1 # b2"
    using Cons.prems by (simp add: s split: prod.splits)
  show ?case using Cons.IH [OF b2(1), of "xs @ c1"] idle_sweep_chain_uncounted [OF s] b2(2) by simp
qed simp

abbreviation rx_uncounted :: "mqvpn_reorder_rx \<Rightarrow> u64" where
  "rx_uncounted rx \<equiv> engine_uncounted rx (concat (rx_buckets rx))"

lemma tick_uncounted:
  assumes inv: "rx_inv rx"
  shows "rx_uncounted (mqvpn_reorder_rx_tick rx now_us) = rx_uncounted rx"
proof -
  have g: "rx_uncounted (tick_gaps rx now_us) = rx_uncounted rx"
  proof -
    obtain rx' b where s: "gap_sweep (rx\<lparr>rx_next_gap_us := - 1\<rparr>) now_us (rx_buckets rx) = (rx', b)" by fastforce
    have "rx_core (rx\<lparr>rx_next_gap_us := - 1\<rparr>) ([] @ concat (rx_buckets rx))" using inv by (simp add: rx_inv_def)
    from gap_sweep_uncounted [OF this s] show ?thesis by (simp add: tick_gaps_def s engine_uncounted_def)
  qed
  have i: "rx_uncounted (tick_idle rx now_us) = rx_uncounted rx" for rx
  proof -
    obtain rx' b where s: "idle_sweep (rx\<lparr>rx_next_idle_us := - 1\<rparr>) now_us (rx_buckets rx) = (rx', b)" by fastforce
    from idle_sweep_uncounted [OF s, of "[]"] show ?thesis by (simp add: tick_idle_def s engine_uncounted_def)
  qed
  show ?thesis using g i by (simp add: mqvpn_reorder_rx_tick_def Let_def)
qed

lemma evict_lru_flow_uncounted:
  assumes inv: "rx_inv rx"
  shows "rx_uncounted (evict_lru_flow rx) = rx_uncounted rx"
proof (cases "lru_scan (concat (rx_buckets rx)) (- 1) None")
  case None
  then show ?thesis by (simp add: evict_lru_flow_def)
next
  case (Some v)
  note I = rx_invD [OF inv] and m = lru_scan_Some(1) [OF Some]
  let ?b = "table_map (rx_chain (rx_hash_seed rx)) (rf_key v) (chain_unlink rf_key (rf_key v)) (rx_buckets rx)"
  let ?rx = "rx\<lparr>rx_buckets := ?b\<rparr>"
  have fs: "flow_sum (concat ?b) + st_delivered_count (rf_stats v) = flow_sum (concat (rx_buckets rx))"
    using arg_cong [OF rt.sum_unlink [OF I(2) m, of "\<lambda>f. unat (st_delivered_count (rf_stats f))"],
        where f = "of_nat :: nat \<Rightarrow> u64"] unfolding of_nat_add flow_sum_def by simp
  have buckets: "rx_buckets (flow_destroy rx f) = rx_buckets rx" for rx f
  proof -
    have "rx_buckets (fold (\<lambda>s rx. if rs_pkt s \<noteq> None then pool_release rx (rs_len s) else rx) ss rx) = rx_buckets rx"
      for ss :: "ring_slot list" and rx
      by (induction ss arbitrary: rx) (simp_all add: pool_release_def)
    then show ?thesis by (simp add: flow_destroy_def release_slots_def split: option.split)
  qed
  have ev: "evict_lru_flow rx = (flow_destroy ?rx v)\<lparr>rx_n_flows := rx_n_flows (flow_destroy ?rx v) - 1\<rparr>"
    by (simp add: evict_lru_flow_def Some Let_def rx_idx_chain [OF I(1)])
  then have "rx_uncounted (evict_lru_flow rx) = engine_uncounted (flow_destroy ?rx v) (concat ?b)"
    by (simp add: buckets engine_uncounted_def)
  also have "\<dots> = engine_uncounted ?rx (concat (rx_buckets rx))" using fs by (rule flow_destroy_uncounted)
  also have "\<dots> = rx_uncounted rx" by (rule engine_uncounted_cong) simp_all
  finally show ?thesis .
qed

lemma flow_get_or_create_uncounted:
  assumes inv: "rx_inv rx" and g: "flow_get_or_create al rx key = (rx', r)"
  shows "rx_uncounted rx' = rx_uncounted rx"
proof (cases "flow_lookup rx key")
  case (Some f0)
  then show ?thesis using g by (simp add: flow_get_or_create_def)
next
  case None
  let ?rx = "make_room rx"
  have room: "rx_uncounted ?rx = rx_uncounted rx"
    unfolding make_room_def using evict_lru_flow_uncounted [OF inv] by simp
  note M = make_room_inv [OF inv] and J = rx_invD [OF make_room_inv(1) [OF inv]]
  show ?thesis
  proof (cases "al_flow al")
    case False
    then show ?thesis using g None room by (simp add: flow_get_or_create_def make_room_def [symmetric] Let_def)
  next
    case True
    let ?f = "flow_new (rx_cfg rx) key"
    let ?b = "table_map (rx_chain (rx_hash_seed rx)) key ((#) ?f) (rx_buckets ?rx)"
    have rx': "rx' = ?rx\<lparr>rx_buckets := ?b, rx_n_flows := rx_n_flows ?rx + 1, rx_next_idle_us := 0\<rparr>"
      using g None True M(2)
      by (simp add: flow_get_or_create_def make_room_def [symmetric] Let_def rx_idx_chain [OF J(1)] M(3))
    have k: "rf_key ?f = key" "st_delivered_count (rf_stats ?f) = 0" by (simp_all add: flow_new_def stats_zero_def)
    have "flow_sum (concat ?b) = flow_sum (concat (rx_buckets ?rx))"
      using rt.sum_push [OF J(2) [unfolded M(3)], of "\<lambda>f. unat (st_delivered_count (rf_stats f))" ?f, unfolded k]
      unfolding flow_sum_def by simp
    then show ?thesis using room by (simp add: rx' engine_uncounted_def)
  qed
qed

text \<open>A packet the engine hands up without a flow: nothing waits, or its class does not.\<close>

definition bypassed :: "mqvpn_reorder_config \<Rightarrow> rx_event \<Rightarrow> bool" where
  "bypassed cfg x \<longleftrightarrow>
     (case x of Rx_Packet al payload now_us \<Rightarrow>
        (case mqvpn_reorder_wire_decode payload of
           Some (Some (type, flags, seq)) \<Rightarrow>
             (let inner = drop MQVPN_REORDER_HDR_LEN payload
              in type = MQVPN_REORDER_TYPE_V1 \<and> inner \<noteq> [] \<and> length inner \<le> 65535 \<and>
                 (rc_max_wait_ms cfg = 0 \<and> rc_rules cfg = [] \<or>
                  (case mqvpn_reorder_parse_5tuple inner of Some (Some key) \<Rightarrow> flow_wait_ms cfg key = 0 | _ \<Rightarrow> False)))
         | _ \<Rightarrow> False)
      | _ \<Rightarrow> False)"

lemma on_packet_split:
  fixes payload :: "u8 list"
  defines "inner \<equiv> drop MQVPN_REORDER_HDR_LEN payload" and "n \<equiv> length payload - MQVPN_REORDER_HDR_LEN"
  shows "if bypassed (rx_cfg rx) (Rx_Packet al payload now_us)
    then mqvpn_reorder_rx_on_packet al rx payload now_us = rx\<lparr>rx_delivered := rx_delivered rx @ [inner]\<rparr>
    else mqvpn_reorder_rx_on_packet al rx payload now_us = rx \<or>
      (\<exists>t fl seq key rx1 r. mqvpn_reorder_wire_decode payload = Some (Some (t, fl, seq)) \<and>
        flow_wait_ms (rx_cfg rx) key \<noteq> 0 \<and> flow_get_or_create al rx key = (rx1, r) \<and>
        mqvpn_reorder_rx_on_packet al rx payload now_us =
          (case r of None \<Rightarrow> rx1
           | Some f \<Rightarrow> (let (rx2, f') = on_reordered al rx1 f seq fl inner (of_nat n) now_us in flow_put rx2 f')))"
proof (cases "\<exists>t fl seq. mqvpn_reorder_wire_decode payload = Some (Some (t, fl, seq))")
  case False
  then show ?thesis by (auto simp: bypassed_def mqvpn_reorder_rx_on_packet_def split: option.split)
next
  case True
  then obtain t fl seq where d: "mqvpn_reorder_wire_decode payload = Some (Some (t, fl, seq))" by blast
  have n: "length inner = n" "inner = [] \<longleftrightarrow> n = 0" by (simp_all add: inner_def n_def)
  show ?thesis
  proof (cases "t \<noteq> MQVPN_REORDER_TYPE_V1 \<or> n = 0 \<or> n > 65535 \<or>
      rc_max_wait_ms (rx_cfg rx) = 0 \<and> rc_rules (rx_cfg rx) = [] \<or>
      \<not> (\<exists>key. mqvpn_reorder_parse_5tuple inner = Some (Some key))")
    case True
    then show ?thesis
      by (auto simp: bypassed_def mqvpn_reorder_rx_on_packet_def d Let_def inner_def [symmetric] n_def [symmetric] n
          split: option.split)
  next
    case False
    then obtain key where key: "mqvpn_reorder_parse_5tuple inner = Some (Some key)" by blast
    obtain rx1 r where g: "flow_get_or_create al rx key = (rx1, r)" by fastforce
    have b: "bypassed (rx_cfg rx) (Rx_Packet al payload now_us) \<longleftrightarrow> flow_wait_ms (rx_cfg rx) key = 0"
      using False by (auto simp: bypassed_def d key Let_def inner_def [symmetric] n)
    have eq: "mqvpn_reorder_rx_on_packet al rx payload now_us =
        (if flow_wait_ms (rx_cfg rx) key = 0 then rx\<lparr>rx_delivered := rx_delivered rx @ [inner]\<rparr>
         else case r of None \<Rightarrow> rx1
         | Some f \<Rightarrow> (let (rx2, f') = on_reordered al rx1 f seq fl inner (of_nat n) now_us in flow_put rx2 f'))"
      using False by (auto simp: mqvpn_reorder_rx_on_packet_def d key g Let_def inner_def [symmetric] n_def [symmetric] split: option.split)
    show ?thesis
    proof (cases "flow_wait_ms (rx_cfg rx) key = 0")
      case True
      then show ?thesis using eq b by simp
    next
      case False
      then show ?thesis unfolding b using eq d g by auto
    qed
  qed
qed

lemma on_packet_uncounted:
  assumes inv: "rx_inv rx"
  shows "rx_uncounted (mqvpn_reorder_rx_on_packet al rx payload now_us) =
    rx_uncounted rx + of_bool (bypassed (rx_cfg rx) (Rx_Packet al payload now_us))"
proof (cases "bypassed (rx_cfg rx) (Rx_Packet al payload now_us)")
  case True
  then show ?thesis using on_packet_split [of rx al payload now_us] by (simp add: engine_uncounted_def)
next
  case False
  note sp = on_packet_split [of rx al payload now_us, unfolded if_not_P [OF False]]
  show ?thesis
  proof (cases "mqvpn_reorder_rx_on_packet al rx payload now_us = rx")
    case True
    then show ?thesis using False by simp
  next
    case changed: False
    let ?p = "drop MQVPN_REORDER_HDR_LEN payload" and ?n = "of_nat (length payload - MQVPN_REORDER_HDR_LEN) :: u16"
    obtain t fl seq key rx1 r where d: "mqvpn_reorder_wire_decode payload = Some (Some (t, fl, seq))"
      and w: "flow_wait_ms (rx_cfg rx) key \<noteq> 0" and g: "flow_get_or_create al rx key = (rx1, r)"
      and eq: "mqvpn_reorder_rx_on_packet al rx payload now_us =
        (case r of None \<Rightarrow> rx1 | Some f \<Rightarrow> (let (rx2, f') = on_reordered al rx1 f seq fl ?p ?n now_us in flow_put rx2 f'))"
      using sp changed by blast
    note G = flow_get_or_create_inv [OF inv w g] and U = flow_get_or_create_uncounted [OF inv g]
    show ?thesis
    proof (cases r)
      case None
      then show ?thesis using eq U False by simp
    next
      case (Some f)
      then have f: "f \<in> set (concat (rx_buckets rx1))" using G(2) by blast
      note J = rx_invD [OF G(1)]
      have pre: "flow_pre rx1 f" using J(3) f J(4) by (rule rx_core_pre)
      obtain rx2 f2 where o: "on_reordered al rx1 f seq fl ?p ?n now_us = (rx2, f2)" by fastforce
      have op: "flow_op {} rx1 f (rx2, f2)"
        using on_reordered_op [OF pre decode_seq_bound [OF d], of "{}"] o by (metis empty_iff)
      have se: "settled 1 (rx1, f) (rx2, f2)" using on_reordered_settled [OF pre decode_seq_bound [OF d]] o by metis
      have fr: "rx_evicted_stats rx2 = rx_evicted_stats rx1" "rx_buckets rx2 = rx_buckets rx1" "rf_key f = rf_key f2"
        "rx_n_buckets rx2 = 1024" "rx_hash_seed rx2 = rx_hash_seed rx1"
        using op J(1) by (simp_all add: flow_op_def flow_frame_def rx_rest_def)
      let ?b = "table_map (rx_chain (rx_hash_seed rx1)) (rf_key f2) (chain_put rf_key f2) (rx_buckets rx1)"
      have "flow_sum (concat ?b) + st_delivered_count (rf_stats f) = flow_sum (concat (rx_buckets rx1)) + st_delivered_count (rf_stats f2)"
        using arg_cong [OF rt.sum_put [OF J(2) f fr(3), of "\<lambda>f. unat (st_delivered_count (rf_stats f))"],
            where f = "of_nat :: nat \<Rightarrow> u64"] unfolding of_nat_add flow_sum_def by simp
      from settled_uncounted [OF se fr(1) this]
      have "rx_uncounted (flow_put rx2 f2) = rx_uncounted rx1"
        by (simp add: flow_put_def rx_idx_chain [OF fr(4)] fr(2,5) engine_uncounted_def)
      then show ?thesis using eq U False by (simp add: Some o)
    qed
  qed
qed

lemma tick_cfg:
  assumes inv: "rx_inv rx"
  shows "rx_cfg (mqvpn_reorder_rx_tick rx now_us) = rx_cfg rx"
proof -
  have g: "rx_cfg (tick_gaps rx now_us) = rx_cfg rx"
  proof -
    obtain rx' b where s: "gap_sweep (rx\<lparr>rx_next_gap_us := - 1\<rparr>) now_us (rx_buckets rx) = (rx', b)" by fastforce
    have "rx_core (rx\<lparr>rx_next_gap_us := - 1\<rparr>) ([] @ concat (rx_buckets rx))" using inv by (simp add: rx_inv_def)
    from gap_sweep_spec [OF this s] show ?thesis by (simp add: tick_gaps_def s rx_rest_def)
  qed
  have i: "rx_cfg (tick_idle rx now_us) = rx_cfg rx" if "rx_inv rx" for rx
  proof -
    note I = rx_invD [OF that]
    let ?rx = "rx\<lparr>rx_next_idle_us := - 1\<rparr>"
    obtain rx' b where s: "idle_sweep ?rx now_us (rx_buckets rx) = (rx', b)" by fastforce
    have "rx_core ?rx ([] @ concat (rx_buckets rx))" "rx_armed ?rx (set ([] @ concat (rx_buckets rx)))"
      unfolding append_Nil rx_core_updates by (fact I)+
    from idle_sweep_spec [OF this s] show ?thesis by (simp add: tick_idle_def s)
  qed
  show ?thesis using g i [OF inv] i [OF tick_gaps_inv(1) [OF inv]] by (simp add: mqvpn_reorder_rx_tick_def Let_def)
qed

lemma step_bypassed:
  assumes "rx_inv rx"
  shows "bypassed (rx_cfg (rx_step rx x)) = bypassed (rx_cfg rx)"
proof (cases x)
  case (Rx_Force b)
  have "flow_wait_ms (cfg\<lparr>rc_eval_force_no_demotion := b\<rparr>) key = flow_wait_ms cfg key" for cfg key
    unfolding flow_wait_ms_def mqvpn_reorder_match_rule_def by (simp split: option.split)
  then show ?thesis
    by (auto simp: Rx_Force mqvpn_reorder_rx_set_force_no_demotion_def bypassed_def fun_eq_iff Let_def
        split: rx_event.split option.split)
qed (simp_all add: on_packet_cfg [OF assms] tick_cfg [OF assms])

lemma run_uncounted:
  "rx_inv rx \<Longrightarrow> rx_uncounted (run rx_step rx xs) = rx_uncounted rx + of_nat (length (filter (bypassed (rx_cfg rx)) xs))"
proof (induction xs arbitrary: rx)
  case (Cons x xs)
  have "rx_uncounted (rx_step rx x) = rx_uncounted rx + of_bool (bypassed (rx_cfg rx) x)"
  proof (cases x)
    case (Rx_Packet al payload now_us)
    show ?thesis unfolding Rx_Packet rx_step.simps using Cons.prems by (rule on_packet_uncounted)
  next
    case (Rx_Tick now_us)
    have "\<not> bypassed (rx_cfg rx) (Rx_Tick now_us)" by (simp add: bypassed_def)
    then show ?thesis unfolding Rx_Tick rx_step.simps tick_uncounted [OF Cons.prems] by simp
  next
    case (Rx_Force b)
    then show ?thesis by (simp add: bypassed_def mqvpn_reorder_rx_set_force_no_demotion_def engine_uncounted_def)
  qed
  then show ?case using Cons.IH [OF rx_step_inv [OF Cons.prems, of x]] by (simp add: step_bypassed [OF Cons.prems])
qed simp


section \<open>Properties\<close>

text \<open>
  C29: The reported count of delivered packets is exact over the life of the engine: after any sequence
  of packets and ticks it is the number of packets handed up, less those handed up without a flow
  because nothing waits for them. No eviction, idle sweep or reset loses a count.
\<close>

theorem delivered_count_exact:
  assumes "mqvpn_reorder_rx_new ok1 ok2 cfg seed = Some rx0"
    and "unat (rc_global_max_buffer_bytes cfg) + 65536 \<le> 2 ^ 64" and "rx = run rx_step rx0 xs"
  shows "st_delivered_count (mqvpn_reorder_rx_get_stats rx) +
      of_nat (length (filter (bypassed (mqvpn_reorder_config_finalize cfg)) xs)) = of_nat (length (rx_delivered rx))"
proof -
  have inv: "rx_inv rx0" using assms(1,2) by (rule mqvpn_reorder_rx_new_inv)
  have z: "rx_uncounted rx0 = 0" "rx_cfg rx0 = mqvpn_reorder_config_finalize cfg"
    using assms(1) by (auto simp: mqvpn_reorder_rx_new_def engine_uncounted_def stats_zero_def split: if_splits)
  have "rx_uncounted rx = of_nat (length (filter (bypassed (mqvpn_reorder_config_finalize cfg)) xs))"
    unfolding assms(3) using run_uncounted [OF inv, of xs] by (simp add: z)
  then show ?thesis unfolding engine_uncounted_def get_stats_delivered [symmetric] by (simp add: diff_eq_eq add.commute)
qed

theorem delivered_count_exact_witness:
  "st_delivered_count (mqvpn_reorder_rx_get_stats (run rx_step example_rx example_run)) =
     of_nat (length (rx_delivered (run rx_step example_rx example_run)))"
proof -
  let ?cfg = "mqvpn_reorder_config_finalize mqvpn_reorder_config_default"
  have w: "rc_max_wait_ms ?cfg \<noteq> 0" "flow_wait_ms ?cfg key \<noteq> 0" for key
    by (simp_all add: flow_wait_ms_def mqvpn_reorder_match_rule_def mqvpn_reorder_config_finalize_def mqvpn_reorder_config_default_def)
  have "\<not> bypassed ?cfg x" for x using w by (auto simp: bypassed_def Let_def split: rx_event.splits option.splits)
  then have "filter (bypassed ?cfg) example_run = []" by (simp add: filter_empty_conv)
  then show ?thesis
    using delivered_count_exact [OF example_rx_new example_max refl, of example_run] by simp
qed

fun wire_event :: "flow_event \<Rightarrow> bool" where
  "wire_event (Flow_Packet al seq flags pkt len now_us) \<longleftrightarrow> seq < 2 ^ 48"
| "wire_event (Flow_Gap now_us) \<longleftrightarrow> True"

fun is_packet :: "flow_event \<Rightarrow> bool" where
  "is_packet (Flow_Packet al seq flags pkt len now_us) \<longleftrightarrow> True"
| "is_packet (Flow_Gap now_us) \<longleftrightarrow> False"

lemma flow_run_settled:
  "flow_pre (fst s) (snd s) \<Longrightarrow> list_all wire_event xs \<Longrightarrow>
   settled (of_nat (length (filter is_packet xs))) s (run flow_step s xs) \<and>
   flow_pre (fst (run flow_step s xs)) (snd (run flow_step s xs))"
proof (induction xs arbitrary: s)
  case (Cons x xs)
  obtain rx f where s: "s = (rx, f)" by fastforce
  have pre: "flow_pre rx f" using Cons.prems(1) by (simp add: s)
  have "settled (of_bool (is_packet x)) s (flow_step s x) \<and> flow_pre (fst (flow_step s x)) (snd (flow_step s x))"
  proof (cases x)
    case (Flow_Packet al seq flags pkt len now_us)
    have q: "seq < 2 ^ 48" using Cons.prems(2) by (simp add: Flow_Packet)
    show ?thesis
      using on_reordered_settled [OF pre q] on_reordered_op [OF pre q, of "{}"] by (simp add: s Flow_Packet flow_op_def)
  next
    case (Flow_Gap now_us)
    note P = flow_preD [OF pre]
    show ?thesis
      using on_gap_timeout_settled [OF P(4,7)] on_gap_timeout_op(1) [OF P(1) flow_preD_gap [OF pre], of "{}" now_us] pre
      by (simp add: s Flow_Gap flow_op_def)
  qed
  then have x: "settled (of_bool (is_packet x)) s (flow_step s x)" "flow_pre (fst (flow_step s x)) (snd (flow_step s x))" by simp_all
  have ih: "settled (of_nat (length (filter is_packet xs))) (flow_step s x) (run flow_step (flow_step s x) xs) \<and>
      flow_pre (fst (run flow_step (flow_step s x) xs)) (snd (run flow_step (flow_step s x) xs))"
    using x(2) Cons.prems(2) by (intro Cons.IH) simp_all
  have "of_nat (length (filter is_packet (x # xs))) = of_bool (is_packet x) + (of_nat (length (filter is_packet xs)) :: u64)" by simp
  then show ?case using settled_trans [OF x(1) conjunct1 [OF ih]] ih by (simp only: run.simps simp_thms)
qed simp

text \<open>
  C32: No packet of a flow goes missing or is counted twice: over any sequence of packets and gap
  timeouts, resets and demotions included, the packets that came in are exactly those
  delivered, those dropped (late, too far ahead, duplicate, over the flow's limit, over the pool or
  for want of memory), those a reset discarded and those still buffered; and the count of
  delivered packets grows by exactly the number of packets handed up.
\<close>

theorem every_packet_accounted:
  assumes "flow_pre rx f" and "list_all wire_event xs" and "run flow_step (rx, f) xs = (rx', f')"
  shows "accounted (rf_stats f') + of_nat (card {q. ring_contains (rf_buffer f') q}) =
      accounted (rf_stats f) + of_nat (card {q. ring_contains (rf_buffer f) q}) + of_nat (length (filter is_packet xs)) \<and>
    st_delivered_count (rf_stats f') - st_delivered_count (rf_stats f) =
      of_nat (length (rx_delivered rx')) - of_nat (length (rx_delivered rx))"
proof -
  have r: "settled (of_nat (length (filter is_packet xs))) (rx, f) (rx', f')" "flow_pre rx' f'"
    using flow_run_settled [of "(rx, f)" xs] assms by simp_all
  have c: "unat (rg_count (rf_buffer f)) = card {q. ring_contains (rf_buffer f) q}"
    "unat (rg_count (rf_buffer f')) = card {q. ring_contains (rf_buffer f') q}"
    using flow_preD(5) [OF assms(1)] flow_preD(5) [OF r(2)] by (simp_all only: ring_count_card)
  have "of_nat (length (rx_delivered rx')) - st_delivered_count (rf_stats f') =
      of_nat (length (rx_delivered rx)) - st_delivered_count (rf_stats f)"
    using r(1) by (simp add: settled_def uncounted_def)
  then have "st_delivered_count (rf_stats f') - st_delivered_count (rf_stats f) =
      of_nat (length (rx_delivered rx')) - of_nat (length (rx_delivered rx))" by (simp add: algebra_simps)
  then show ?thesis using r(1) unfolding settled_def packets_seen_def c snd_conv by simp
qed

theorem every_packet_accounted_witness:
  "let (rx', f') = run flow_step (example_rx, example_flow) (example_packet 1 1000 # example_events)
   in accounted (rf_stats f') + of_nat (card {q. ring_contains (rf_buffer f') q}) = 5 \<and>
      st_delivered_count (rf_stats f') = of_nat (length (rx_delivered rx'))"
proof -
  let ?xs = "example_packet 1 1000 # example_events"
  obtain rx' f' where r: "run flow_step (example_rx, example_flow) ?xs = (rx', f')" by fastforce
  have w: "list_all wire_event ?xs" by (simp add: example_packet_def example_events_def)
  have n: "length (filter is_packet ?xs) = 5" by (simp add: example_packet_def example_events_def)
  have z: "accounted (rf_stats example_flow) = 0" "st_delivered_count (rf_stats example_flow) = 0"
    "{q. ring_contains (rf_buffer example_flow) q} = {}" "rx_delivered example_rx = []"
    by (simp_all add: example_flow_def flow_new_def stats_zero_def accounted_def ring_init_def ring_contains_def example_rx_def
        mqvpn_reorder_rx_new_def mqvpn_reorder_config_validate_def mqvpn_reorder_config_default_def mqvpn_reorder_cap_is_valid_def)
  from every_packet_accounted [OF example_flow_pre w r] show ?thesis unfolding r n z by simp
qed

end
