(* ===== verification/Reorder_Tx.thy ===== *)
theory Reorder_Tx
  imports Flow_Table
begin

text \<open>
  The transmit side of the reorder shim (\<^verbatim>\<open>src/reorder_tx.c\<close>): the table of send flows, eviction of
  idle flows, peek and commit. Allocation outcomes are inputs. The flow pointer that a peek hands to
  the commit is represented by the key of the flow; the callers commit before they touch the table
  again, so that the pointer is still valid.
\<close>


section \<open>State\<close>

record mqvpn_send_flow =
  sf_key :: mqvpn_flow_key
  sf_next_seq :: u64
  sf_last_activity_us :: u64
  sf_reset_marks_left :: u32
  sf_eligible :: bool

record mqvpn_reorder_tx_stats =
  ts_forced_evict_count :: u64
  ts_flows_created :: u64
  ts_idle_evict_count :: u64
  ts_table_full_raw :: u64

record mqvpn_reorder_tx =
  tx_cfg :: mqvpn_reorder_config
  tx_hash_seed :: u64
  tx_buckets :: "mqvpn_send_flow list list"
  tx_n_buckets :: u32
  tx_n_flows :: u32
  tx_stats :: mqvpn_reorder_tx_stats

datatype mqvpn_reorder_tx_action = MQVPN_REORDER_TX_STAMP | MQVPN_REORDER_TX_RAW | MQVPN_REORDER_TX_DROP_MTU

text \<open>The flow pointer of a peek is the key of the flow it points to; the header is written on STAMP.\<close>

record mqvpn_reorder_tx_peek =
  pk_action :: mqvpn_reorder_tx_action
  pk_hdr :: "u8 list"
  pk_flow :: "mqvpn_flow_key option"


section \<open>Operations\<close>

text \<open>The doubling loop with a bound on its iterations; \<open>pick_loop_exit\<close> shows that 17 are enough.\<close>

fun pick_loop :: "nat \<Rightarrow> u32 \<Rightarrow> u32 \<Rightarrow> u32" where
  "pick_loop 0 n max_flows = n"
| "pick_loop (Suc k) n max_flows =
     (if n < max_flows \<and> n < push_bit 20 1 then pick_loop k (push_bit 1 n) max_flows else n)"

definition pick_buckets :: "u32 \<Rightarrow> u32" where
  "pick_buckets max_flows = pick_loop 17 16 max_flows"

text \<open>The two flags are the outcomes of the two allocations.\<close>

definition mqvpn_reorder_tx_new :: "bool \<Rightarrow> bool \<Rightarrow> mqvpn_reorder_config \<Rightarrow> u64 \<Rightarrow> mqvpn_reorder_tx option" where
  "mqvpn_reorder_tx_new tx_ok buckets_ok cfg hash_seed =
     (if \<not> tx_ok then None
      else (let n = pick_buckets (if rc_max_flows cfg \<noteq> 0 then rc_max_flows cfg else 16)
            in if \<not> buckets_ok then None
               else Some \<lparr>tx_cfg = cfg, tx_hash_seed = hash_seed, tx_buckets = replicate (unat n) [],
                          tx_n_buckets = n, tx_n_flows = 0,
                          tx_stats = \<lparr>ts_forced_evict_count = 0, ts_flows_created = 0,
                                      ts_idle_evict_count = 0, ts_table_full_raw = 0\<rparr>\<rparr>))"

definition compute_eligible :: "mqvpn_reorder_config \<Rightarrow> mqvpn_flow_key \<Rightarrow> bool" where
  "compute_eligible cfg key =
     (case mqvpn_reorder_match_rule cfg key of
        None \<Rightarrow> rc_rules cfg = [] \<and> rc_mode cfg \<noteq> MQVPN_REORDER_OFF
      | Some r \<Rightarrow> mqvpn_reorder_profile_preset (ru_profile r) \<noteq> None)"

definition tx_idx :: "mqvpn_reorder_tx \<Rightarrow> mqvpn_flow_key \<Rightarrow> nat" where
  "tx_idx tx key = unat (ucast (mqvpn_flow_key_hash key (tx_hash_seed tx) AND ucast (tx_n_buckets tx - 1)) :: u32)"

definition table_lookup :: "mqvpn_reorder_tx \<Rightarrow> mqvpn_flow_key \<Rightarrow> mqvpn_send_flow option" where
  "table_lookup tx key = chain_lookup sf_key (tx_buckets tx ! tx_idx tx key) key"

definition send_flow_idle :: "u64 \<Rightarrow> u64 \<Rightarrow> mqvpn_send_flow \<Rightarrow> bool" where
  "send_flow_idle idle_us now_us f \<longleftrightarrow>
     now_us > sf_last_activity_us f \<and> now_us - sf_last_activity_us f > idle_us"

fun oldest_idle :: "u64 \<Rightarrow> u64 \<Rightarrow> mqvpn_send_flow list \<Rightarrow> mqvpn_send_flow option \<Rightarrow> mqvpn_send_flow option" where
  "oldest_idle idle_us now_us [] oldest = oldest"
| "oldest_idle idle_us now_us (f # fs) oldest =
     oldest_idle idle_us now_us fs
       (if send_flow_idle idle_us now_us f \<and>
           (case oldest of None \<Rightarrow> True | Some g \<Rightarrow> sf_last_activity_us f < sf_last_activity_us g)
        then Some f else oldest)"

definition evict_one_idle :: "mqvpn_reorder_tx \<Rightarrow> u64 \<Rightarrow> bool \<times> mqvpn_reorder_tx" where
  "evict_one_idle tx now_us =
     (let idle_us = ucast (rc_egress_idle_timeout_sec (tx_cfg tx)) * 1000000
      in case oldest_idle idle_us now_us (concat (tx_buckets tx)) None of
           None \<Rightarrow> (False, tx)
         | Some v \<Rightarrow>
             (True, tx\<lparr>tx_buckets := table_map (tx_idx tx) (sf_key v) (chain_unlink sf_key (sf_key v)) (tx_buckets tx),
                       tx_n_flows := tx_n_flows tx - 1,
                       tx_stats := ts_idle_evict_count_update (\<lambda>n. n + 1) (tx_stats tx)\<rparr>))"

definition send_flow_new :: "mqvpn_reorder_config \<Rightarrow> mqvpn_flow_key \<Rightarrow> u64 \<Rightarrow> mqvpn_send_flow" where
  "send_flow_new cfg key now_us =
     \<lparr>sf_key = key, sf_next_seq = 0, sf_last_activity_us = now_us,
      sf_reset_marks_left = rc_reset_mark_packets cfg, sf_eligible = compute_eligible cfg key\<rparr>"

text \<open>\<open>alloc_ok\<close> is the outcome of the allocation of the new flow.\<close>

definition get_or_create ::
  "bool \<Rightarrow> mqvpn_reorder_tx \<Rightarrow> mqvpn_flow_key \<Rightarrow> u64 \<Rightarrow> mqvpn_reorder_tx \<times> mqvpn_send_flow option" where
  "get_or_create alloc_ok tx key now_us =
     (case table_lookup tx key of
        Some f \<Rightarrow> (tx, Some f)
      | None \<Rightarrow>
          (let full = (rc_max_flows (tx_cfg tx) \<noteq> 0 \<and> tx_n_flows tx \<ge> rc_max_flows (tx_cfg tx));
               (room, tx) = (if full then evict_one_idle tx now_us else (True, tx))
           in if \<not> room
              then (tx\<lparr>tx_stats := ts_table_full_raw_update (\<lambda>n. n + 1) (tx_stats tx)\<rparr>, None)
              else if \<not> alloc_ok then (tx, None)
              else (let f = send_flow_new (tx_cfg tx) key now_us
                    in (tx\<lparr>tx_buckets := table_map (tx_idx tx) key ((#) f) (tx_buckets tx),
                           tx_n_flows := tx_n_flows tx + 1,
                           tx_stats := ts_flows_created_update (\<lambda>n. n + 1) (tx_stats tx)\<rparr>, Some f))))"

definition mqvpn_reorder_tx_peek ::
  "bool \<Rightarrow> mqvpn_reorder_tx \<Rightarrow> u8 list \<Rightarrow> u64 \<Rightarrow> u32 \<Rightarrow> mqvpn_reorder_tx \<times> mqvpn_reorder_tx_peek" where
  "mqvpn_reorder_tx_peek alloc_ok tx pkt now_us max_inner_without_reorder =
     (let raw = \<lparr>pk_action = MQVPN_REORDER_TX_RAW, pk_hdr = replicate MQVPN_REORDER_HDR_LEN 0, pk_flow = None\<rparr>
      in if rc_mode (tx_cfg tx) = MQVPN_REORDER_OFF then (tx, raw)
         else case mqvpn_reorder_parse_5tuple pkt of
                Some (Some key) \<Rightarrow>
                  (case get_or_create alloc_ok tx key now_us of
                     (tx, None) \<Rightarrow> (tx, raw)
                   | (tx, Some f) \<Rightarrow>
                       if \<not> sf_eligible f then (tx, raw)
                       else if MQVPN_REORDER_HDR_LEN + length pkt > unat max_inner_without_reorder
                       then (tx, raw\<lparr>pk_action := MQVPN_REORDER_TX_DROP_MTU, pk_flow := Some key\<rparr>)
                       else (let flags = (if sf_reset_marks_left f > 0 then MQVPN_REORDER_FLAG_RESET else 0)
                             in (tx, \<lparr>pk_action = MQVPN_REORDER_TX_STAMP,
                                      pk_hdr = mqvpn_reorder_wire_encode MQVPN_REORDER_TYPE_V1 flags (sf_next_seq f),
                                      pk_flow = Some key\<rparr>)))
              | _ \<Rightarrow> (tx, raw))"

definition commit_flow :: "u64 \<Rightarrow> mqvpn_send_flow \<Rightarrow> mqvpn_send_flow" where
  "commit_flow now_us f =
     f\<lparr>sf_next_seq := sf_next_seq f + 1,
       sf_reset_marks_left := (if sf_reset_marks_left f > 0 then sf_reset_marks_left f - 1 else sf_reset_marks_left f),
       sf_last_activity_us := now_us\<rparr>"

definition mqvpn_reorder_tx_commit :: "mqvpn_reorder_tx \<Rightarrow> mqvpn_reorder_tx_peek \<Rightarrow> u64 \<Rightarrow> mqvpn_reorder_tx" where
  "mqvpn_reorder_tx_commit tx peek now_us =
     (if pk_action peek \<noteq> MQVPN_REORDER_TX_STAMP then tx
      else case pk_flow peek of
             None \<Rightarrow> tx
           | Some key \<Rightarrow>
               (case table_lookup tx key of
                  None \<Rightarrow> tx
                | Some f \<Rightarrow>
                    tx\<lparr>tx_buckets := table_map (tx_idx tx) key (chain_put sf_key (commit_flow now_us f)) (tx_buckets tx)\<rparr>))"


section \<open>The table\<close>

lemma push_bit_1_pow2: "push_bit 1 (2 ^ j :: u32) = 2 ^ Suc j"
  by (simp add: push_bit_eq_mult)

lemma unat_pow2_32:
  assumes "j < 32"
  shows "unat (2 ^ j :: u32) = 2 ^ j"
proof -
  have "unat (push_bit j 1 :: u32) = take_bit LENGTH(32) (push_bit j (unat (1 :: u32)))" by (rule unsigned_push_bit_eq)
  then show ?thesis unfolding push_bit_of_1 by (simp add: assms)
qed

lemma pow2_less_20: "j \<le> 20 \<Longrightarrow> (2 ^ j :: u32) < push_bit 20 1 \<longleftrightarrow> j < 20"
proof -
  assume j: "j \<le> 20"
  have "unat (2 ^ j :: u32) = 2 ^ j" using j by (intro unat_pow2_32) simp
  moreover have "unat (push_bit 20 1 :: u32) = 2 ^ 20" by simp
  ultimately show ?thesis unfolding word_less_nat_alt by (simp only: power_strict_increasing_iff one_less_numeral_iff semiring_norm)
qed

lemma pick_loop_exit:
  assumes "4 \<le> j" and "j \<le> 20" and "20 \<le> j + k"
  shows "\<exists>j'. 4 \<le> j' \<and> j' \<le> 20 \<and> pick_loop k (2 ^ j) mf = 2 ^ j' \<and> (\<not> 2 ^ j' < mf \<or> j' = 20)"
  using assms
proof (induction k arbitrary: j)
  case 0
  then have "j = 20" by simp
  then show ?case by (intro exI [of _ 20]) simp
next
  case (Suc k)
  show ?case
  proof (cases "(2 ^ j :: u32) < mf \<and> j < 20")
    case True
    then have "pick_loop (Suc k) (2 ^ j) mf = pick_loop k (2 ^ Suc j) mf"
      using pow2_less_20 [OF Suc.prems(2)] by (simp only: pick_loop.simps push_bit_1_pow2) simp
    then show ?thesis using Suc.IH [of "Suc j"] Suc.prems True by simp
  next
    case False
    then have "pick_loop (Suc k) (2 ^ j) mf = 2 ^ j"
      using pow2_less_20 [OF Suc.prems(2)] by (auto simp only: pick_loop.simps simp_thms if_False)
    then show ?thesis using False Suc.prems by auto
  qed
qed

definition tx_chain :: "u64 \<Rightarrow> nat \<Rightarrow> mqvpn_flow_key \<Rightarrow> nat" where
  "tx_chain seed j key = unat (take_bit j (mqvpn_flow_key_hash key seed))"

interpretation tt: flow_table sf_key "tx_chain seed j" "2 ^ j" for seed j
  by unfold_locales (simp add: tx_chain_def unsigned_take_bit_eq)

lemma tx_idx_chain:
  assumes "tx_n_buckets tx = 2 ^ j" and "j \<le> 20"
  shows "tx_idx tx = tx_chain (tx_hash_seed tx) j"
proof -
  have "ucast (2 ^ j - 1 :: u32) = (mask j :: u64)"
    unfolding mask_eq_exp_minus_1 [symmetric]
    using assms(2) by (intro bit_word_eqI) (auto simp: bit_simps)
  moreover have "unat (ucast (take_bit j h :: u64) :: u32) = unat (take_bit j h)" for h
    using assms(2) by (simp add: unsigned_ucast_eq unsigned_take_bit_eq min_def)
  ultimately show ?thesis
    by (simp add: tx_idx_def tx_chain_def assms(1) fun_eq_iff take_bit_eq_mask [symmetric])
qed


section \<open>The invariant\<close>

definition tx_inv :: "nat \<Rightarrow> mqvpn_reorder_tx \<Rightarrow> bool" where
  "tx_inv j tx \<longleftrightarrow>
     4 \<le> j \<and> j \<le> 20 \<and> tx_n_buckets tx = 2 ^ j \<and>
     table_wf sf_key (tx_chain (tx_hash_seed tx) j) (2 ^ j) (tx_buckets tx) \<and>
     tx_n_flows tx = of_nat (length (concat (tx_buckets tx))) \<and>
     (rc_max_flows (tx_cfg tx) \<noteq> 0 \<longrightarrow> length (concat (tx_buckets tx)) \<le> unat (rc_max_flows (tx_cfg tx))) \<and>
     ts_forced_evict_count (tx_stats tx) = 0"

lemma tx_invD:
  assumes "tx_inv j tx"
  shows "tx_idx tx = tx_chain (tx_hash_seed tx) j"
    "table_wf sf_key (tx_chain (tx_hash_seed tx) j) (2 ^ j) (tx_buckets tx)"
    "tx_n_flows tx = of_nat (length (concat (tx_buckets tx)))"
    "rc_max_flows (tx_cfg tx) \<noteq> 0 \<longrightarrow> length (concat (tx_buckets tx)) \<le> unat (rc_max_flows (tx_cfg tx))"
  using assms tx_idx_chain [of tx j] unfolding tx_inv_def by blast+

lemma tx_inv_frame:
  assumes "tx_inv j tx" and "tx_cfg tx' = tx_cfg tx" "tx_hash_seed tx' = tx_hash_seed tx" "tx_n_buckets tx' = tx_n_buckets tx"
    and "table_wf sf_key (tx_chain (tx_hash_seed tx) j) (2 ^ j) (tx_buckets tx')"
    and "tx_n_flows tx' = of_nat (length (concat (tx_buckets tx')))"
    and "rc_max_flows (tx_cfg tx) \<noteq> 0 \<longrightarrow> length (concat (tx_buckets tx')) \<le> unat (rc_max_flows (tx_cfg tx))"
    and "ts_forced_evict_count (tx_stats tx') = ts_forced_evict_count (tx_stats tx)"
  shows "tx_inv j tx'"
  using assms unfolding tx_inv_def by simp

lemma tx_n_flows_exact:
  assumes "tx_inv j tx" and "rc_max_flows (tx_cfg tx) \<noteq> 0"
  shows "unat (tx_n_flows tx) = length (concat (tx_buckets tx))"
proof -
  note I = tx_invD [OF assms(1)]
  have "length (concat (tx_buckets tx)) < 2 ^ 32"
    using I(4) assms(2) unat_u32_lt [of "rc_max_flows (tx_cfg tx)"] by simp
  then show ?thesis unfolding I(3) by (simp add: take_bit_nat_eq_self unsigned_of_nat)
qed

lemma mqvpn_reorder_tx_new_inv:
  assumes "mqvpn_reorder_tx_new ok1 ok2 cfg seed = Some tx"
  shows "\<exists>j. tx_inv j tx" "tx_cfg tx = cfg" "table_lookup tx key = None"
proof -
  let ?mf = "if rc_max_flows cfg \<noteq> 0 then rc_max_flows cfg else 16"
  obtain j where j: "4 \<le> j" "j \<le> 20" "pick_loop 17 (2 ^ 4) ?mf = 2 ^ j"
    using pick_loop_exit [of 4 17 ?mf] by auto
  have tx: "tx = \<lparr>tx_cfg = cfg, tx_hash_seed = seed, tx_buckets = replicate (2 ^ j) [],
                          tx_n_buckets = 2 ^ j, tx_n_flows = 0,
                          tx_stats = \<lparr>ts_forced_evict_count = 0, ts_flows_created = 0,
                                      ts_idle_evict_count = 0, ts_table_full_raw = 0\<rparr>\<rparr>"
    using assms j(3) unat_pow2_32 [of j] j(2)
    by (auto simp: mqvpn_reorder_tx_new_def pick_buckets_def Let_def split: if_splits)
  have c: "concat (replicate k []) = []" for k by (induction k) simp_all
  have inv: "tx_inv j tx" using j(1,2) by (simp add: tx tx_inv_def table_wf_def c del: concat_replicate_trivial)
  then show "\<exists>j. tx_inv j tx" ..
  show "tx_cfg tx = cfg" by (simp add: tx)
  have "tx_idx tx key < 2 ^ j" unfolding tx_invD(1) [OF inv] by (rule tt.idx_less)
  then show "table_lookup tx key = None" by (simp add: table_lookup_def tx chain_lookup_def tx_idx_def)
qed

text \<open>Eviction takes an idle flow, if there is one, and leaves every other flow as it is.\<close>

lemma oldest_idle_spec:
  assumes "\<forall>g. oldest = Some g \<longrightarrow> send_flow_idle idle_us now_us g \<and> g \<in> S" and "set fs \<subseteq> S"
  shows "case oldest_idle idle_us now_us fs oldest of
      None \<Rightarrow> oldest = None \<and> (\<forall>f \<in> set fs. \<not> send_flow_idle idle_us now_us f)
    | Some v \<Rightarrow> v \<in> S \<and> send_flow_idle idle_us now_us v"
  using assms
proof (induction fs arbitrary: oldest)
  case Nil
  then show ?case by (auto split: option.split)
next
  case (Cons f fs)
  let ?o = "if send_flow_idle idle_us now_us f \<and>
           (case oldest of None \<Rightarrow> True | Some g \<Rightarrow> sf_last_activity_us f < sf_last_activity_us g)
        then Some f else oldest"
  have "\<forall>g. ?o = Some g \<longrightarrow> send_flow_idle idle_us now_us g \<and> g \<in> S" using Cons.prems by auto
  from Cons.IH [OF this] Cons.prems(2) show ?case by (auto split: option.splits if_splits)
qed

lemma evict_one_idle_spec:
  assumes inv: "tx_inv j tx" and e: "evict_one_idle tx now_us = (r, tx')"
  shows "tx_inv j tx'" "tx_cfg tx' = tx_cfg tx"
    "\<not> r \<Longrightarrow> tx' = tx \<and> (\<forall>k f. table_lookup tx k = Some f \<longrightarrow>
       \<not> send_flow_idle (ucast (rc_egress_idle_timeout_sec (tx_cfg tx)) * 1000000) now_us f)"
    "r \<Longrightarrow> length (concat (tx_buckets tx')) + 1 = length (concat (tx_buckets tx)) \<and>
       (\<exists>v. table_lookup tx (sf_key v) = Some v \<and>
          send_flow_idle (ucast (rc_egress_idle_timeout_sec (tx_cfg tx)) * 1000000) now_us v \<and>
          (\<forall>k. table_lookup tx' k = (if k = sf_key v then None else table_lookup tx k)))"
proof -
  note I = tx_invD [OF inv]
  let ?idle = "ucast (rc_egress_idle_timeout_sec (tx_cfg tx)) * 1000000" and ?fs = "concat (tx_buckets tx)"
  let ?c = "tx_chain (tx_hash_seed tx) j"
  note sp = oldest_idle_spec [of None ?idle now_us "set ?fs" ?fs, simplified]
  have member: "f \<in> set ?fs" if "table_lookup tx k = Some f" for k f
    using that tt.lookup_member(1) [OF I(2)] by (simp add: table_lookup_def I(1))
  have "tx_inv j tx' \<and> tx_cfg tx' = tx_cfg tx \<and>
    (\<not> r \<longrightarrow> tx' = tx \<and> (\<forall>k f. table_lookup tx k = Some f \<longrightarrow> \<not> send_flow_idle ?idle now_us f)) \<and>
    (r \<longrightarrow> length (concat (tx_buckets tx')) + 1 = length ?fs \<and>
       (\<exists>v. table_lookup tx (sf_key v) = Some v \<and> send_flow_idle ?idle now_us v \<and>
          (\<forall>k. table_lookup tx' k = (if k = sf_key v then None else table_lookup tx k))))"
  proof (cases "oldest_idle ?idle now_us ?fs None")
    case None
    then have no: "\<forall>f \<in> set ?fs. \<not> send_flow_idle ?idle now_us f" using sp by auto
    have "r = False \<and> tx' = tx" using e None by (simp add: evict_one_idle_def Let_def)
    then show ?thesis using inv no member by blast
  next
    case (Some v)
    then have v: "v \<in> set ?fs" "send_flow_idle ?idle now_us v" using sp by auto
    let ?b = "table_map ?c (sf_key v) (chain_unlink sf_key (sf_key v)) (tx_buckets tx)"
    have r: "r" and tx': "tx' = tx\<lparr>tx_buckets := ?b, tx_n_flows := tx_n_flows tx - 1,
                       tx_stats := ts_idle_evict_count_update (\<lambda>n. n + 1) (tx_stats tx)\<rparr>"
      using e Some by (simp_all add: evict_one_idle_def Let_def I(1))
    have len: "length (concat ?b) + 1 = length ?fs"
      using tt.sum_unlink [OF I(2) v(1), of "\<lambda>_. 1"] unfolding sum_list_triv length_map by simp
    have inv': "tx_inv j tx'"
    proof (rule tx_inv_frame [OF inv])
      show "table_wf sf_key ?c (2 ^ j) (tx_buckets tx')" unfolding tx' by (simp add: tt.wf_unlink [OF I(2)])
      show "tx_n_flows tx' = of_nat (length (concat (tx_buckets tx')))"
        using I(3) unfolding len [symmetric] by (simp add: tx')
      show "rc_max_flows (tx_cfg tx) \<noteq> 0 \<longrightarrow> length (concat (tx_buckets tx')) \<le> unat (rc_max_flows (tx_cfg tx))"
        using I(4) len unfolding tx' by auto
    qed (simp_all add: tx')
    have "table_lookup tx' k = (if k = sf_key v then None else table_lookup tx k)" for k
      using tt.lookup_unlink [OF I(2), of "sf_key v" k] tx_invD(1) [OF inv'] I(1)
      by (simp add: table_lookup_def tx')
    moreover have "table_lookup tx (sf_key v) = Some v"
      using tt.lookup_complete [OF I(2) v(1)] by (simp add: table_lookup_def I(1))
    moreover have "length (concat (tx_buckets tx')) + 1 = length ?fs" using len by (simp add: tx')
    moreover have "tx_cfg tx' = tx_cfg tx" by (simp add: tx')
    ultimately show ?thesis using r inv' v(2) by blast
  qed
  then show "tx_inv j tx'" "tx_cfg tx' = tx_cfg tx"
    "\<not> r \<Longrightarrow> tx' = tx \<and> (\<forall>k f. table_lookup tx k = Some f \<longrightarrow> \<not> send_flow_idle ?idle now_us f)"
    "r \<Longrightarrow> length (concat (tx_buckets tx')) + 1 = length ?fs \<and>
       (\<exists>v. table_lookup tx (sf_key v) = Some v \<and> send_flow_idle ?idle now_us v \<and>
          (\<forall>k. table_lookup tx' k = (if k = sf_key v then None else table_lookup tx k)))"
    by blast+
qed


abbreviation tx_idle :: "mqvpn_reorder_tx \<Rightarrow> u64 \<Rightarrow> mqvpn_send_flow \<Rightarrow> bool" where
  "tx_idle tx \<equiv> send_flow_idle (ucast (rc_egress_idle_timeout_sec (tx_cfg tx)) * 1000000)"

text \<open>
  What a peek may do to the table: the invariant and the configuration stay, no flow in use is lost
  or changed, and otherwise a flow is only forgotten or created.
\<close>

definition tx_keeps :: "nat \<Rightarrow> u64 \<Rightarrow> mqvpn_reorder_tx \<Rightarrow> mqvpn_reorder_tx \<Rightarrow> bool" where
  "tx_keeps j now_us tx tx' \<longleftrightarrow>
     tx_inv j tx' \<and> tx_cfg tx' = tx_cfg tx \<and>
     (\<forall>k f. table_lookup tx k = Some f \<longrightarrow> \<not> tx_idle tx now_us f \<longrightarrow> table_lookup tx' k = Some f) \<and>
     (\<forall>k. table_lookup tx' k = table_lookup tx k \<or> table_lookup tx' k = None \<or>
        table_lookup tx k = None \<and> table_lookup tx' k = Some (send_flow_new (tx_cfg tx) k now_us))"

lemma tx_lookup_stats [simp]: "table_lookup (tx\<lparr>tx_stats := st\<rparr>) k = table_lookup tx k"
  by (simp add: table_lookup_def tx_idx_def)

lemma tx_inv_stats: "tx_inv j tx \<Longrightarrow> ts_forced_evict_count st = 0 \<Longrightarrow> tx_inv j (tx\<lparr>tx_stats := st\<rparr>)"
  by (simp add: tx_inv_def)

lemma tx_inv_forced: "tx_inv j tx \<Longrightarrow> ts_forced_evict_count (tx_stats tx) = 0"
  by (simp add: tx_inv_def)

lemma create_flow_inv:
  assumes inv: "tx_inv j tx" and none: "table_lookup tx (sf_key f) = None"
    and room: "rc_max_flows (tx_cfg tx) \<noteq> 0 \<longrightarrow> length (concat (tx_buckets tx)) + 1 \<le> unat (rc_max_flows (tx_cfg tx))"
    and tx': "tx' = tx\<lparr>tx_buckets := table_map (tx_idx tx) (sf_key f) ((#) f) (tx_buckets tx),
        tx_n_flows := tx_n_flows tx + 1, tx_stats := ts_flows_created_update (\<lambda>n. n + 1) (tx_stats tx)\<rparr>"
  shows "tx_inv j tx'" "table_lookup tx' k = (if k = sf_key f then Some f else table_lookup tx k)"
proof -
  note I = tx_invD [OF inv]
  let ?c = "tx_chain (tx_hash_seed tx) j"
  let ?b = "table_map ?c (sf_key f) ((#) f) (tx_buckets tx)"
  have len: "length (concat ?b) = length (concat (tx_buckets tx)) + 1"
    using tt.sum_push [OF I(2), of "\<lambda>_. 1" f] unfolding sum_list_triv length_map by simp
  have none': "chain_lookup sf_key (tx_buckets tx ! ?c (sf_key f)) (sf_key f) = None"
    using none by (simp add: table_lookup_def I(1))
  show inv': "tx_inv j tx'"
  proof (rule tx_inv_frame [OF inv])
    show "table_wf sf_key ?c (2 ^ j) (tx_buckets tx')" by (simp add: tx' I(1) tt.wf_push [OF I(2) none'])
    show "tx_n_flows tx' = of_nat (length (concat (tx_buckets tx')))" using I(3) len by (simp add: tx' I(1))
    show "rc_max_flows (tx_cfg tx) \<noteq> 0 \<longrightarrow> length (concat (tx_buckets tx')) \<le> unat (rc_max_flows (tx_cfg tx))"
      using room len by (simp add: tx' I(1))
  qed (simp_all add: tx')
  show "table_lookup tx' k = (if k = sf_key f then Some f else table_lookup tx k)"
    using tt.lookup_push [OF I(2), of f k] tx_invD(1) [OF inv'] I(1) by (simp add: table_lookup_def tx')
qed

lemma get_or_create_spec:
  assumes inv: "tx_inv j tx" and g: "get_or_create ok tx key now_us = (tx', r)"
  shows "tx_keeps j now_us tx tx'"
    "r = Some f \<Longrightarrow> table_lookup tx' key = Some f \<and> sf_key f = key \<and>
       (table_lookup tx key = Some f \<or> table_lookup tx key = None \<and> f = send_flow_new (tx_cfg tx) key now_us)"
    "r = None \<Longrightarrow> table_lookup tx key = None \<and> table_lookup tx' key = None"
proof -
  note I = tx_invD [OF inv]
  let ?P = "tx_keeps j now_us tx tx' \<and> (\<forall>f. r = Some f \<longrightarrow> table_lookup tx' key = Some f \<and> sf_key f = key \<and>
       (table_lookup tx key = Some f \<or> table_lookup tx key = None \<and> f = send_flow_new (tx_cfg tx) key now_us)) \<and>
    (r = None \<longrightarrow> table_lookup tx key = None \<and> table_lookup tx' key = None)"
  have ?P
  proof (cases "table_lookup tx key")
    case (Some f0)
    then have "sf_key f0 = key" using tt.lookup_member(2) [OF I(2)] by (simp add: table_lookup_def I(1))
    then show ?thesis using g inv Some by (auto simp: get_or_create_def tx_keeps_def)
  next
    case None
    let ?full = "rc_max_flows (tx_cfg tx) \<noteq> 0 \<and> tx_n_flows tx \<ge> rc_max_flows (tx_cfg tx)"
    obtain room tx1 where e: "(if ?full then evict_one_idle tx now_us else (True, tx)) = (room, tx1)" by fastforce
    have E: "tx_keeps j now_us tx tx1 \<and> table_lookup tx1 key = None \<and>
        (room \<longrightarrow> rc_max_flows (tx_cfg tx) \<noteq> 0 \<longrightarrow> length (concat (tx_buckets tx1)) + 1 \<le> unat (rc_max_flows (tx_cfg tx)))"
    proof (cases ?full)
      case False
      then have "tx1 = tx" using e by (metis prod.inject)
      moreover have "length (concat (tx_buckets tx)) + 1 \<le> unat (rc_max_flows (tx_cfg tx))" if "rc_max_flows (tx_cfg tx) \<noteq> 0"
        using False that tx_n_flows_exact [OF inv that] by (simp add: word_le_nat_alt)
      ultimately show ?thesis using inv None by (simp add: tx_keeps_def)
    next
      case True
      then have ev: "evict_one_idle tx now_us = (room, tx1)" using e by (metis)
      note sp = evict_one_idle_spec [OF inv ev]
      show ?thesis
      proof (cases room)
        case False
        then have "tx1 = tx" using sp(3) by blast
        then show ?thesis using False inv None by (simp add: tx_keeps_def)
      next
        case room: True
        obtain v where v: "table_lookup tx (sf_key v) = Some v" "tx_idle tx now_us v"
          "\<forall>k. table_lookup tx1 k = (if k = sf_key v then None else table_lookup tx k)" using sp(4) [OF room] by blast
        have "length (concat (tx_buckets tx1)) + 1 \<le> unat (rc_max_flows (tx_cfg tx))"
          using sp(4) [OF room] I(4) True by auto
        moreover have "table_lookup tx1 key = None" using v(3) None by simp
        moreover have "tx_keeps j now_us tx tx1"
          unfolding tx_keeps_def using sp(1,2) v by auto
        ultimately show ?thesis by blast
      qed
    qed
    then have k1: "tx_keeps j now_us tx tx1" and n1: "table_lookup tx1 key = None" and i1: "tx_inv j tx1" and c1: "tx_cfg tx1 = tx_cfg tx"
      by (simp_all add: tx_keeps_def)
    have eq: "(tx', r) = (if \<not> room
              then (tx1\<lparr>tx_stats := ts_table_full_raw_update (\<lambda>n. n + 1) (tx_stats tx1)\<rparr>, None)
              else if \<not> ok then (tx1, None)
              else (let f = send_flow_new (tx_cfg tx1) key now_us
                    in (tx1\<lparr>tx_buckets := table_map (tx_idx tx1) key ((#) f) (tx_buckets tx1),
                           tx_n_flows := tx_n_flows tx1 + 1,
                           tx_stats := ts_flows_created_update (\<lambda>n. n + 1) (tx_stats tx1)\<rparr>, Some f)))"
      using g None by (simp only: get_or_create_def option.case Let_def e prod.case)
    show ?thesis
    proof (cases "room \<and> ok")
      case False
      have "tx_inv j (tx1\<lparr>tx_stats := ts_table_full_raw_update (\<lambda>n. n + 1) (tx_stats tx1)\<rparr>)"
        using i1 tx_inv_forced [OF i1] by (intro tx_inv_stats) auto
      then have "tx_keeps j now_us tx (tx1\<lparr>tx_stats := ts_table_full_raw_update (\<lambda>n. n + 1) (tx_stats tx1)\<rparr>)"
        using k1 by (simp add: tx_keeps_def)
      then show ?thesis using False eq k1 n1 None by (auto split: if_splits)
    next
      case True
      let ?f = "send_flow_new (tx_cfg tx) key now_us"
      have k: "sf_key ?f = key" by (simp add: send_flow_new_def)
      have tx': "tx' = tx1\<lparr>tx_buckets := table_map (tx_idx tx1) (sf_key ?f) ((#) ?f) (tx_buckets tx1),
          tx_n_flows := tx_n_flows tx1 + 1, tx_stats := ts_flows_created_update (\<lambda>n. n + 1) (tx_stats tx1)\<rparr>"
        and r: "r = Some ?f" using eq True c1 by (simp_all add: Let_def k)
      note C = create_flow_inv [OF i1 _ _ tx', unfolded k]
      have inv': "tx_inv j tx'" by (rule C(1)) (use n1 E True c1 in auto)
      have look: "table_lookup tx' k = (if k = key then Some ?f else table_lookup tx1 k)" for k
        by (rule C(2)) (use n1 E True c1 in auto)
      have "tx_keeps j now_us tx tx'"
        unfolding tx_keeps_def using inv' look k1 None by (auto simp: tx_keeps_def tx')
      then show ?thesis using r k None look by simp
    qed
  qed
  then show "tx_keeps j now_us tx tx'"
    "r = Some f \<Longrightarrow> table_lookup tx' key = Some f \<and> sf_key f = key \<and>
       (table_lookup tx key = Some f \<or> table_lookup tx key = None \<and> f = send_flow_new (tx_cfg tx) key now_us)"
    "r = None \<Longrightarrow> table_lookup tx key = None \<and> table_lookup tx' key = None" by blast+
qed


section \<open>Peek and commit\<close>

lemma tx_keeps_refl: "tx_inv j tx \<Longrightarrow> tx_keeps j now_us tx tx"
  by (simp add: tx_keeps_def)

lemma peek_spec:
  assumes inv: "tx_inv j tx" and p: "mqvpn_reorder_tx_peek ok tx pkt now_us mss = (tx', pk)"
  shows "\<exists>key. tx_keeps j now_us tx tx' \<and>
    (pk_action pk \<noteq> MQVPN_REORDER_TX_RAW \<longrightarrow>
       mqvpn_reorder_parse_5tuple pkt = Some (Some key) \<and> rc_mode (tx_cfg tx) \<noteq> MQVPN_REORDER_OFF \<and> pk_flow pk = Some key \<and>
       (\<exists>f. table_lookup tx' key = Some f \<and> sf_key f = key \<and> sf_eligible f \<and>
          (table_lookup tx key = Some f \<or> table_lookup tx key = None \<and> f = send_flow_new (tx_cfg tx) key now_us) \<and>
          (pk_action pk = MQVPN_REORDER_TX_STAMP \<longrightarrow> 8 + length pkt \<le> unat mss \<and>
             pk_hdr pk = mqvpn_reorder_wire_encode MQVPN_REORDER_TYPE_V1
               (if sf_reset_marks_left f > 0 then MQVPN_REORDER_FLAG_RESET else 0) (sf_next_seq f)) \<and>
          (pk_action pk = MQVPN_REORDER_TX_DROP_MTU \<longrightarrow> unat mss < 8 + length pkt)))"
proof (cases "rc_mode (tx_cfg tx) = MQVPN_REORDER_OFF \<or> \<not> (\<exists>key. mqvpn_reorder_parse_5tuple pkt = Some (Some key))")
  case True
  then have "tx' = tx \<and> pk_action pk = MQVPN_REORDER_TX_RAW"
    using p by (auto simp: mqvpn_reorder_tx_peek_def Let_def split: option.splits if_splits)
  then show ?thesis using tx_keeps_refl [OF inv] by auto
next
  case False
  then obtain key where on: "rc_mode (tx_cfg tx) \<noteq> MQVPN_REORDER_OFF" and key: "mqvpn_reorder_parse_5tuple pkt = Some (Some key)"
    by blast
  obtain tx1 r where g: "get_or_create ok tx key now_us = (tx1, r)" by fastforce
  note G = get_or_create_spec [OF inv g]
  show ?thesis
  proof (cases r)
    case None
    then have "tx' = tx1 \<and> pk_action pk = MQVPN_REORDER_TX_RAW"
      using p on key g by (auto simp: mqvpn_reorder_tx_peek_def Let_def)
    then show ?thesis using G(1) by (intro exI [of _ key]) auto
  next
    case (Some f)
    have "tx' = tx1" using p on key g Some by (auto simp: mqvpn_reorder_tx_peek_def Let_def split: if_splits)
    moreover have "pk_action pk \<noteq> MQVPN_REORDER_TX_RAW \<longrightarrow> sf_eligible f \<and> pk_flow pk = Some key"
      and "pk_action pk = MQVPN_REORDER_TX_STAMP \<longrightarrow> 8 + length pkt \<le> unat mss \<and>
             pk_hdr pk = mqvpn_reorder_wire_encode MQVPN_REORDER_TYPE_V1
               (if sf_reset_marks_left f > 0 then MQVPN_REORDER_FLAG_RESET else 0) (sf_next_seq f)"
      and "pk_action pk = MQVPN_REORDER_TX_DROP_MTU \<longrightarrow> unat mss < 8 + length pkt"
      using p on key g Some
      by (auto simp: mqvpn_reorder_tx_peek_def Let_def MQVPN_REORDER_HDR_LEN_def split: if_splits)
    ultimately show ?thesis using G(1) G(2) [OF Some] on key by (intro exI [of _ key]) blast
  qed
qed

lemma commit_spec:
  assumes inv: "tx_inv j tx" and pk: "pk_action pk = MQVPN_REORDER_TX_STAMP" "pk_flow pk = Some key"
    and f: "table_lookup tx key = Some f"
  shows "tx_inv j (mqvpn_reorder_tx_commit tx pk now_us)"
    "table_lookup (mqvpn_reorder_tx_commit tx pk now_us) k = (if k = key then Some (commit_flow now_us f) else table_lookup tx k)"
    "tx_cfg (mqvpn_reorder_tx_commit tx pk now_us) = tx_cfg tx"
proof -
  note I = tx_invD [OF inv]
  let ?c = "tx_chain (tx_hash_seed tx) j" and ?f = "commit_flow now_us f"
  have look: "chain_lookup sf_key (tx_buckets tx ! ?c key) key = Some f" using f by (simp add: table_lookup_def I(1))
  have m: "f \<in> set (concat (tx_buckets tx))" "sf_key f = key" using tt.lookup_member [OF I(2) look] by simp_all
  have k: "sf_key ?f = key" using m(2) by (simp add: commit_flow_def)
  let ?b = "table_map ?c key (chain_put sf_key ?f) (tx_buckets tx)"
  have eq: "mqvpn_reorder_tx_commit tx pk now_us = tx\<lparr>tx_buckets := ?b\<rparr>"
    using pk f by (simp add: mqvpn_reorder_tx_commit_def I(1))
  have len: "length (concat ?b) = length (concat (tx_buckets tx))"
    using tt.sum_put [OF I(2) m(1), of ?f "\<lambda>_. 1"] k m(2) unfolding sum_list_triv length_map by simp
  show inv': "tx_inv j (mqvpn_reorder_tx_commit tx pk now_us)"
  proof (rule tx_inv_frame [OF inv])
    show "table_wf sf_key ?c (2 ^ j) (tx_buckets (mqvpn_reorder_tx_commit tx pk now_us))"
      using tt.wf_put [OF I(2), of ?f] by (simp add: eq k)
    show "tx_n_flows (mqvpn_reorder_tx_commit tx pk now_us) =
        of_nat (length (concat (tx_buckets (mqvpn_reorder_tx_commit tx pk now_us))))" using I(3) len by (simp add: eq)
    show "rc_max_flows (tx_cfg tx) \<noteq> 0 \<longrightarrow>
        length (concat (tx_buckets (mqvpn_reorder_tx_commit tx pk now_us))) \<le> unat (rc_max_flows (tx_cfg tx))"
      using I(4) len by (simp add: eq)
  qed (simp_all add: eq)
  show "table_lookup (mqvpn_reorder_tx_commit tx pk now_us) k = (if k = key then Some ?f else table_lookup tx k)"
    using tt.lookup_put [OF I(2), of ?f f k] look tx_invD(1) [OF inv'] I(1) unfolding k by (simp add: table_lookup_def eq)
  show "tx_cfg (mqvpn_reorder_tx_commit tx pk now_us) = tx_cfg tx" by (simp add: eq)
qed

text \<open>
  One packet read from the tunnel device: a peek and, when it is to be stamped and the datagram goes
  out (\<open>sent\<close>), the commit. \<open>outs\<close> collects the stamped datagrams that went out.
\<close>

datatype tx_event = Tx_Packet bool "u8 list" u64 u32 bool

fun tx_step :: "mqvpn_reorder_tx \<times> u8 list list \<Rightarrow> tx_event \<Rightarrow> mqvpn_reorder_tx \<times> u8 list list" where
  "tx_step (tx, outs) (Tx_Packet ok pkt now_us mss sent) =
     (let (tx, pk) = mqvpn_reorder_tx_peek ok tx pkt now_us mss
      in if pk_action pk = MQVPN_REORDER_TX_STAMP \<and> sent
         then (mqvpn_reorder_tx_commit tx pk now_us, outs @ [pk_hdr pk @ pkt]) else (tx, outs))"

text \<open>The flow of \<open>key\<close> is in use as long as it is not idle whenever a packet is sent.\<close>

fun tx_in_use :: "mqvpn_flow_key \<Rightarrow> mqvpn_reorder_tx \<times> u8 list list \<Rightarrow> tx_event \<Rightarrow> bool" where
  "tx_in_use key (tx, outs) (Tx_Packet ok pkt now_us mss sent) \<longleftrightarrow>
     (case table_lookup tx key of None \<Rightarrow> True | Some f \<Rightarrow> \<not> tx_idle tx now_us f)"

definition dgram_seq :: "u8 list \<Rightarrow> u64" where
  "dgram_seq d = (case mqvpn_reorder_wire_decode d of Some (Some (t, fl, seq)) \<Rightarrow> seq | _ \<Rightarrow> 0)"

definition dgram_of :: "mqvpn_flow_key \<Rightarrow> u8 list \<Rightarrow> bool" where
  "dgram_of key d \<longleftrightarrow> mqvpn_reorder_parse_5tuple (drop MQVPN_REORDER_HDR_LEN d) = Some (Some key)"

text \<open>The datagrams of \<open>key\<close> so far are numbered from 0 on and the flow's next number follows.\<close>

definition numbered :: "nat \<Rightarrow> mqvpn_flow_key \<Rightarrow> mqvpn_reorder_tx \<times> u8 list list \<Rightarrow> bool" where
  "numbered j key s \<longleftrightarrow> tx_inv j (fst s) \<and>
     (let ds = filter (dgram_of key) (snd s)
      in map dgram_seq ds = map (\<lambda>i. take_bit 48 (of_nat i)) [0..<length ds] \<and>
         (case table_lookup (fst s) key of None \<Rightarrow> ds = [] | Some f \<Rightarrow> sf_next_seq f = of_nat (length ds)))"

lemma length_encode: "length (mqvpn_reorder_wire_encode t fl seq) = MQVPN_REORDER_HDR_LEN"
  by (simp add: mqvpn_reorder_wire_encode_def MQVPN_REORDER_HDR_LEN_def)

lemma dgram_encode [simp]:
  "dgram_seq (mqvpn_reorder_wire_encode t fl seq @ pkt) = take_bit 48 seq"
  "dgram_of key (mqvpn_reorder_wire_encode t fl seq @ pkt) \<longleftrightarrow> mqvpn_reorder_parse_5tuple pkt = Some (Some key)"
  by (simp_all add: dgram_seq_def dgram_of_def decode_encode length_encode)

lemma numbered_step:
  assumes num: "numbered j key s" and use: "tx_in_use key s x"
  shows "numbered j key (tx_step s x)"
proof -
  obtain tx outs where s: "s = (tx, outs)" by fastforce
  obtain ok pkt now_us mss sent where x: "x = Tx_Packet ok pkt now_us mss sent" by (cases x)
  have inv: "tx_inv j tx" using num by (simp add: numbered_def s)
  obtain tx1 pk where p: "mqvpn_reorder_tx_peek ok tx pkt now_us mss = (tx1, pk)" by fastforce
  obtain k where K: "tx_keeps j now_us tx tx1"
    and act: "pk_action pk \<noteq> MQVPN_REORDER_TX_RAW \<longrightarrow>
       mqvpn_reorder_parse_5tuple pkt = Some (Some k) \<and> rc_mode (tx_cfg tx) \<noteq> MQVPN_REORDER_OFF \<and> pk_flow pk = Some k \<and>
       (\<exists>f. table_lookup tx1 k = Some f \<and> sf_key f = k \<and> sf_eligible f \<and>
          (table_lookup tx k = Some f \<or> table_lookup tx k = None \<and> f = send_flow_new (tx_cfg tx) k now_us) \<and>
          (pk_action pk = MQVPN_REORDER_TX_STAMP \<longrightarrow> 8 + length pkt \<le> unat mss \<and>
             pk_hdr pk = mqvpn_reorder_wire_encode MQVPN_REORDER_TYPE_V1
               (if sf_reset_marks_left f > 0 then MQVPN_REORDER_FLAG_RESET else 0) (sf_next_seq f)) \<and>
          (pk_action pk = MQVPN_REORDER_TX_DROP_MTU \<longrightarrow> unat mss < 8 + length pkt))"
    using peek_spec [OF inv p] by blast
  let ?ds = "filter (dgram_of key) outs"
  have ds: "map dgram_seq ?ds = map (\<lambda>i. take_bit 48 (of_nat i)) [0..<length ?ds]"
    and cnt: "case table_lookup tx key of None \<Rightarrow> ?ds = [] | Some f \<Rightarrow> sf_next_seq f = of_nat (length ?ds)"
    using num by (simp_all add: numbered_def s Let_def)
  have cnt1: "case table_lookup tx1 key of None \<Rightarrow> ?ds = [] | Some f \<Rightarrow> sf_next_seq f = of_nat (length ?ds)"
  proof (cases "table_lookup tx key")
    case None
    then show ?thesis using K cnt by (auto simp: tx_keeps_def send_flow_new_def dest: spec [of _ key])
  next
    case (Some f)
    then have "\<not> tx_idle tx now_us f" using use by (simp add: s x)
    then have "table_lookup tx1 key = Some f" using K Some by (simp add: tx_keeps_def)
    then show ?thesis using cnt Some by simp
  qed
  have inv1: "tx_inv j tx1" using K by (simp add: tx_keeps_def)
  show ?thesis
  proof (cases "pk_action pk = MQVPN_REORDER_TX_STAMP \<and> sent")
    case False
    then have "tx_step s x = (tx1, outs)" using p by (auto simp: s x)
    then show ?thesis using inv1 ds cnt1 by (simp add: numbered_def Let_def)
  next
    case True
    then obtain f where f: "mqvpn_reorder_parse_5tuple pkt = Some (Some k)" "pk_flow pk = Some k" "table_lookup tx1 k = Some f"
      "pk_hdr pk = mqvpn_reorder_wire_encode MQVPN_REORDER_TYPE_V1
               (if sf_reset_marks_left f > 0 then MQVPN_REORDER_FLAG_RESET else 0) (sf_next_seq f)"
      using act by auto
    have st: "tx_step s x = (mqvpn_reorder_tx_commit tx1 pk now_us, outs @ [pk_hdr pk @ pkt])"
      using p True by (simp add: s x)
    note C = commit_spec [OF inv1 conjunct1 [OF True] f(2,3)]
    show ?thesis
    proof (cases "k = key")
      case False
      then show ?thesis using C(1) C(2) [of now_us key] ds cnt1 f by (simp add: numbered_def st Let_def)
    next
      case True
      then have "sf_next_seq f = of_nat (length ?ds)" using cnt1 f(3) by simp
      then show ?thesis
        using C(1) C(2) [of now_us key] ds f True by (simp add: numbered_def st Let_def commit_flow_def)
    qed
  qed
qed

interpretation txm: machine tx_step "tx_in_use key" "numbered j key" for j key
  by unfold_locales (rule numbered_step)

section \<open>What the sender guarantees\<close>

text \<open>A concrete sender: reordering on, at most four flows, and a UDP packet to port 4433.\<close>

definition ex_tx_cfg :: mqvpn_reorder_config where
  "ex_tx_cfg = mqvpn_reorder_config_default\<lparr>rc_mode := MQVPN_REORDER_ON, rc_max_flows := 4\<rparr>"

definition ex_tx :: mqvpn_reorder_tx where
  "ex_tx = the (mqvpn_reorder_tx_new True True ex_tx_cfg 7)"

definition ex_udp :: "u8 list" where
  "ex_udp = [0x45, 0, 0, 28, 0, 0, 0, 0, 64, 17, 0, 0, 10, 0, 0, 2, 10, 0, 0, 1, 0x0f, 0xa0, 0x11, 0x51, 0, 8, 0, 0]"

definition ex_udp_key :: mqvpn_flow_key where
  "ex_udp_key = the (the (mqvpn_reorder_parse_5tuple ex_udp))"

definition ex_tx_events :: "tx_event list" where
  "ex_tx_events = [Tx_Packet True ex_udp 0 1200 True, Tx_Packet True ex_udp 0 1200 False, Tx_Packet True ex_udp 0 1200 True]"

lemma ex_tx_new: "mqvpn_reorder_tx_new True True ex_tx_cfg 7 = Some ex_tx"
  by (simp add: ex_tx_def mqvpn_reorder_tx_new_def Let_def)

lemma ex_udp_parse: "mqvpn_reorder_parse_5tuple ex_udp = Some (Some ex_udp_key)"
  by code_simp

lemma ex_tx_ok: "run_ok tx_step (tx_in_use key) s ex_tx_events"
  by (cases s) (simp add: ex_tx_events_def send_flow_idle_def Let_def split: option.split prod.split)

text \<open>
  C4: The sender numbers the packets of a flow consecutively: from a fresh engine, over any run in
  which the flow is never idle for longer than the egress timeout, the stamped datagrams of the
  flow that went out carry the numbers 0, 1, 2, ... in the order in which they were sent (as 48-bit
  numbers), whatever packets of other flows, failed sends and allocations come in between.
\<close>

theorem tx_numbers_consecutively:
  assumes "mqvpn_reorder_tx_new ok1 ok2 cfg seed = Some tx0"
    and "run_ok tx_step (tx_in_use key) (tx0, []) xs" and "run tx_step (tx0, []) xs = (tx, outs)"
  shows "map dgram_seq (filter (dgram_of key) outs) =
    map (\<lambda>i. take_bit 48 (of_nat i)) [0..<length (filter (dgram_of key) outs)]"
proof -
  obtain j where "tx_inv j tx0" using mqvpn_reorder_tx_new_inv(1) [OF assms(1)] by blast
  then have "numbered j key (tx0, [])"
    using mqvpn_reorder_tx_new_inv(3) [OF assms(1)] by (simp add: numbered_def)
  from txm.run_inv [OF this assms(2)] show ?thesis using assms(3) by (simp add: numbered_def Let_def)
qed

theorem tx_numbers_consecutively_witness:
  "let ds = filter (dgram_of ex_udp_key) (snd (run tx_step (ex_tx, []) ex_tx_events))
   in map dgram_seq ds = map (\<lambda>i. take_bit 48 (of_nat i)) [0..<length ds]"
proof -
  obtain tx outs where r: "run tx_step (ex_tx, []) ex_tx_events = (tx, outs)" by fastforce
  show ?thesis using tx_numbers_consecutively [OF ex_tx_new ex_tx_ok r] by (simp add: r Let_def)
qed

lemma ex_tx_get:
  "\<exists>j. tx_inv j ex_tx \<and> get_or_create True ex_tx ex_udp_key 5 =
     (fst (get_or_create True ex_tx ex_udp_key 5), Some (send_flow_new ex_tx_cfg ex_udp_key 5))"
proof -
  note N = mqvpn_reorder_tx_new_inv [OF ex_tx_new]
  obtain j where "tx_inv j ex_tx" using N(1) by blast
  moreover have "tx_n_flows ex_tx = 0" by (simp add: ex_tx_def mqvpn_reorder_tx_new_def Let_def)
  ultimately show ?thesis
    using N(2,3) by (auto simp: get_or_create_def Let_def ex_tx_cfg_def)
qed

text \<open>
  C33: A flow in use is never evicted: whatever packet arrives, a flow that has not been idle for
  longer than the egress timeout keeps its state across the peek; the table never exceeds
  \<open>max_flows\<close>, and a new flow that finds no room goes out unstamped instead.
\<close>

theorem tx_active_flow_kept:
  assumes "tx_inv j tx" and "mqvpn_reorder_tx_peek ok tx pkt now_us mss = (tx', pk)"
    and "table_lookup tx k = Some f" and "\<not> tx_idle tx now_us f"
  shows "table_lookup tx' k = Some f \<and> tx_inv j tx' \<and> ts_forced_evict_count (tx_stats tx') = 0 \<and>
    (rc_max_flows (tx_cfg tx') = 0 \<or> length (concat (tx_buckets tx')) \<le> unat (rc_max_flows (tx_cfg tx')))"
proof -
  have K: "tx_keeps j now_us tx tx'" using peek_spec [OF assms(1,2)] by blast
  then have inv: "tx_inv j tx'" and look: "table_lookup tx' k = Some f" using assms(3,4) by (simp_all add: tx_keeps_def)
  then show ?thesis using tx_invD(4) [OF inv] tx_inv_forced [OF inv] by auto
qed

theorem tx_active_flow_kept_witness:
  "let tx = fst (get_or_create True ex_tx ex_udp_key 5)
   in table_lookup (fst (mqvpn_reorder_tx_peek True tx ex_udp 9 1200)) ex_udp_key = Some (send_flow_new ex_tx_cfg ex_udp_key 5)"
proof -
  let ?tx = "fst (get_or_create True ex_tx ex_udp_key 5)" and ?f = "send_flow_new ex_tx_cfg ex_udp_key 5"
  obtain j where j: "tx_inv j ex_tx" "get_or_create True ex_tx ex_udp_key 5 = (?tx, Some ?f)" using ex_tx_get by blast
  note G = get_or_create_spec [OF j]
  have inv: "tx_inv j ?tx" and look: "table_lookup ?tx ex_udp_key = Some ?f" and cfg: "tx_cfg ?tx = ex_tx_cfg"
    using G(1,2) mqvpn_reorder_tx_new_inv(2) [OF ex_tx_new] by (simp_all add: tx_keeps_def)
  obtain tx' pk where p: "mqvpn_reorder_tx_peek True ?tx ex_udp 9 1200 = (tx', pk)" by fastforce
  have "\<not> tx_idle ?tx 9 ?f"
    by (simp add: cfg send_flow_idle_def send_flow_new_def ex_tx_cfg_def mqvpn_reorder_config_default_def)
  from tx_active_flow_kept [OF inv p look this] show ?thesis by (simp add: p)
qed

lemma ex_tx_stamp:
  assumes "mqvpn_reorder_tx_peek True ex_tx ex_udp 5 1200 = (tx1, pk)"
  shows "pk_action pk = MQVPN_REORDER_TX_STAMP"
proof -
  let ?tx = "fst (get_or_create True ex_tx ex_udp_key 5)" and ?f = "send_flow_new ex_tx_cfg ex_udp_key 5"
  obtain j where j: "tx_inv j ex_tx" "get_or_create True ex_tx ex_udp_key 5 = (?tx, Some ?f)" using ex_tx_get by blast
  have "sf_eligible ?f"
    by (simp add: send_flow_new_def compute_eligible_def ex_tx_cfg_def mqvpn_reorder_config_default_def mqvpn_reorder_match_rule_def)
  moreover have "rc_mode (tx_cfg ex_tx) \<noteq> MQVPN_REORDER_OFF" "length ex_udp = 28"
    using mqvpn_reorder_tx_new_inv(2) [OF ex_tx_new] by (simp_all add: ex_tx_cfg_def ex_udp_def)
  ultimately show ?thesis
    using assms j(2) ex_udp_parse by (auto simp: mqvpn_reorder_tx_peek_def Let_def MQVPN_REORDER_HDR_LEN_def split: if_splits prod.splits)
qed

text \<open>
  C34: What a peek promises: a stamped packet fits the datagram with its header, the header decodes to
  the version-1 type and the flow's next number, with the reset mark exactly while marks are left.
  The peek advances nothing: every flow afterwards is the flow of before or a new one at number 0
  with all its reset marks. The commit, at whatever time, moves this flow to the next number, takes
  one reset mark off if any is left, records the time as the flow's last activity, and leaves the
  rest of the flow and every other flow as they are.
\<close>

theorem tx_peek_commit:
  assumes "tx_inv j tx" and "mqvpn_reorder_tx_peek ok tx pkt now_us mss = (tx1, pk)"
    and "pk_action pk = MQVPN_REORDER_TX_STAMP"
  shows "\<exists>key f. mqvpn_reorder_parse_5tuple pkt = Some (Some key) \<and> table_lookup tx1 key = Some f \<and>
    8 + length pkt \<le> unat mss \<and>
    mqvpn_reorder_wire_decode (pk_hdr pk @ pkt) = Some (Some (MQVPN_REORDER_TYPE_V1,
      (if sf_reset_marks_left f > 0 then MQVPN_REORDER_FLAG_RESET else 0), take_bit 48 (sf_next_seq f))) \<and>
    (\<forall>k g. table_lookup tx1 k = Some g \<longrightarrow> table_lookup tx k = Some g \<or>
       table_lookup tx k = None \<and> sf_next_seq g = 0 \<and> sf_reset_marks_left g = rc_reset_mark_packets (tx_cfg tx) \<and>
       sf_last_activity_us g = now_us) \<and>
    table_lookup (mqvpn_reorder_tx_commit tx1 pk later_us) key =
      Some \<lparr>sf_key = key, sf_next_seq = sf_next_seq f + 1, sf_last_activity_us = later_us,
            sf_reset_marks_left = (if sf_reset_marks_left f = 0 then 0 else sf_reset_marks_left f - 1),
            sf_eligible = sf_eligible f\<rparr> \<and>
    (\<forall>k. k \<noteq> key \<longrightarrow> table_lookup (mqvpn_reorder_tx_commit tx1 pk later_us) k = table_lookup tx1 k) \<and>
    tx_inv j (mqvpn_reorder_tx_commit tx1 pk later_us)"
proof -
  obtain key f where f: "tx_keeps j now_us tx tx1" "mqvpn_reorder_parse_5tuple pkt = Some (Some key)" "pk_flow pk = Some key"
    "table_lookup tx1 key = Some f" "sf_key f = key" "8 + length pkt \<le> unat mss"
    "pk_hdr pk = mqvpn_reorder_wire_encode MQVPN_REORDER_TYPE_V1
               (if sf_reset_marks_left f > 0 then MQVPN_REORDER_FLAG_RESET else 0) (sf_next_seq f)"
    using peek_spec [OF assms(1,2)] assms(3) by auto
  have inv1: "tx_inv j tx1" using f(1) by (simp add: tx_keeps_def)
  note C = commit_spec [OF inv1 assms(3) f(3,4), where now_us = later_us]
  have c: "commit_flow later_us f = \<lparr>sf_key = key, sf_next_seq = sf_next_seq f + 1, sf_last_activity_us = later_us,
      sf_reset_marks_left = (if sf_reset_marks_left f = 0 then 0 else sf_reset_marks_left f - 1), sf_eligible = sf_eligible f\<rparr>"
    using f(5) by (auto simp: commit_flow_def word_gt_0)
  have k: "table_lookup tx k = Some g \<or> table_lookup tx k = None \<and> sf_next_seq g = 0 \<and>
      sf_reset_marks_left g = rc_reset_mark_packets (tx_cfg tx) \<and> sf_last_activity_us g = now_us"
    if "table_lookup tx1 k = Some g" for k g
  proof -
    have "table_lookup tx1 k = table_lookup tx k \<or> table_lookup tx1 k = None \<or>
        table_lookup tx k = None \<and> table_lookup tx1 k = Some (send_flow_new (tx_cfg tx) k now_us)"
      using f(1) by (simp add: tx_keeps_def)
    then show ?thesis using that by (auto simp: send_flow_new_def)
  qed
  show ?thesis using f C c k by (intro exI [of _ key] exI [of _ f]) (simp add: decode_encode)
qed

theorem tx_peek_commit_witness:
  "pk_action (snd (mqvpn_reorder_tx_peek True ex_tx ex_udp 5 1200)) = MQVPN_REORDER_TX_STAMP \<and>
   (\<exists>key f g. table_lookup (fst (mqvpn_reorder_tx_peek True ex_tx ex_udp 5 1200)) key = Some f \<and>
      (case mqvpn_reorder_tx_peek True ex_tx ex_udp 5 1200 of (tx1, pk) \<Rightarrow>
         table_lookup (mqvpn_reorder_tx_commit tx1 pk 7) key = Some g) \<and>
      sf_next_seq g = sf_next_seq f + 1 \<and> sf_last_activity_us g = 7)"
proof -
  obtain j where j: "tx_inv j ex_tx" using ex_tx_get by blast
  obtain tx1 pk where p: "mqvpn_reorder_tx_peek True ex_tx ex_udp 5 1200 = (tx1, pk)" by fastforce
  obtain key f where k: "table_lookup tx1 key = Some f"
    "table_lookup (mqvpn_reorder_tx_commit tx1 pk 7) key =
      Some \<lparr>sf_key = key, sf_next_seq = sf_next_seq f + 1, sf_last_activity_us = 7,
            sf_reset_marks_left = (if sf_reset_marks_left f = 0 then 0 else sf_reset_marks_left f - 1),
            sf_eligible = sf_eligible f\<rparr>"
    using tx_peek_commit [OF j p ex_tx_stamp [OF p], of 7] by blast
  show ?thesis
    unfolding p fst_conv snd_conv prod.case
    by (rule conjI [OF ex_tx_stamp [OF p]], rule exI [of _ key], rule exI [of _ f], rule exI, intro conjI, rule k(1), rule k(2)) simp_all
qed

end
