(* ===== verification/Icmp.thy ===== *)
theory Icmp
  imports Wire
begin

text \<open>
  The ICMP and ICMPv6 errors the tunnel sends back (\<^verbatim>\<open>src/icmp.c\<close>). The packet buffer with its stores is
  modelled as the list of its bytes in order; the checksum fields are zero when the checksum is
  computed. Addresses are byte lists; the callback's argument is the result.
\<close>


section \<open>Checksums\<close>

definition IPV4_MIN_HDR :: nat where "IPV4_MIN_HDR = 20"
definition IPV6_MIN_HDR :: nat where "IPV6_MIN_HDR = 40"
definition IPV6_MIN_MTU :: nat where "IPV6_MIN_MTU = 1280"
definition MQVPN_ICMP_TTL :: u8 where "MQVPN_ICMP_TTL = 64"

text \<open>The carry loop; every iteration makes the sum smaller.\<close>

function fold_carry :: "u32 \<Rightarrow> u32" where
  "fold_carry c = (if drop_bit 16 c \<noteq> 0 then fold_carry ((c AND 0xFFFF) + drop_bit 16 c) else c)"
  by auto

lemma and_ffff: "unat (c AND 0xFFFF :: u32) = unat c mod 65536"
proof -
  have "c AND 0xFFFF = take_bit 16 c" by (simp add: take_bit_eq_mask mask_numeral)
  then show ?thesis by (simp add: take_bit_eq_mod unat_mod)
qed

lemma drop_16: "unat (drop_bit 16 c :: u32) = unat c div 65536"
  by (simp add: drop_bit_eq_div unat_div)

lemma carry_step: "unat ((c AND 0xFFFF) + drop_bit 16 c :: u32) = unat c mod 65536 + unat c div 65536"
proof -
  have "unat c < 4294967296" by (rule unat_u32_lt)
  then have "unat c mod 65536 + unat c div 65536 < 4294967296" by linarith
  then show ?thesis by (subst unat_add_lem [THEN iffD1]) (simp_all add: and_ffff drop_16)
qed

termination fold_carry
proof (relation "measure unat")
  fix c :: u32
  assume "drop_bit 16 c \<noteq> 0"
  then have "unat (drop_bit 16 c) \<noteq> 0" using unat_eq_0 by blast
  then have "1 \<le> unat c div 65536" unfolding drop_16 by linarith
  then have "unat c mod 65536 + unat c div 65536 < unat c" using div_mult_mod_eq [of "unat c" 65536] by linarith
  then show "((c AND 0xFFFF) + drop_bit 16 c, c) \<in> measure unat" by (simp add: carry_step)
qed simp

declare fold_carry.simps [simp del]

text \<open>\<open>None\<close> is a read past the header, which an odd length would make.\<close>

fun ipv4_sum :: "u8 list \<Rightarrow> u32 \<Rightarrow> u32 option" where
  "ipv4_sum [] c = Some c"
| "ipv4_sum [a] c = None"
| "ipv4_sum (a # b # r) c = ipv4_sum r (c + (push_bit 8 (ucast a) OR ucast b))"

definition ipv4_checksum :: "u8 list \<Rightarrow> u16 option" where
  "ipv4_checksum hdr = map_option (\<lambda>c. NOT (ucast (fold_carry c))) (ipv4_sum hdr 0)"

fun byte_sum :: "u8 list \<Rightarrow> u32 \<Rightarrow> u32" where
  "byte_sum [] c = c"
| "byte_sum [a] c = c + push_bit 8 (ucast a)"
| "byte_sum (a # b # r) c = byte_sum r (c + push_bit 8 (ucast a) + ucast b)"

fun word_sum :: "u8 list \<Rightarrow> u32 \<Rightarrow> u32" where
  "word_sum (a # b # r) c = word_sum r (c + (push_bit 8 (ucast a) OR ucast b))"
| "word_sum _ c = c"

definition v6_pseudo :: "u8 list \<Rightarrow> u8 list \<Rightarrow> nat \<Rightarrow> u32" where
  "v6_pseudo src6 dst6 icmpv6_len =
     (let c = word_sum src6 0;
          c = word_sum dst6 c;
          c = c + of_nat (drop_bit 16 icmpv6_len);
          c = c + of_nat (icmpv6_len AND 0xFFFF)
      in c + 58)"

definition icmpv6_checksum :: "u8 list \<Rightarrow> u8 list \<Rightarrow> u8 list \<Rightarrow> u16" where
  "icmpv6_checksum src6 dst6 icmp =
     NOT (ucast (fold_carry (byte_sum icmp (v6_pseudo src6 dst6 (length icmp)))))"


section \<open>ICMP and ICMPv6 errors\<close>

text \<open>The packet handed to the tunnel callback; \<open>None\<close> is a return without calling it.\<close>

definition v4_header :: "nat \<Rightarrow> u16 \<Rightarrow> u8 list \<Rightarrow> u8 list \<Rightarrow> u8 list" where
  "v4_header tot ck src dst =
     [0x45, 0xC0, of_nat (drop_bit 8 tot AND 0xFF), of_nat (tot AND 0xFF), 0, 0, 0, 0,
      MQVPN_ICMP_TTL, 1, ucast (drop_bit 8 ck), ucast (ck AND 0xFF)] @ src @ dst"

definition v4_icmp :: "u8 \<Rightarrow> u8 \<Rightarrow> u16 \<Rightarrow> u16 \<Rightarrow> u8 list \<Rightarrow> u8 list" where
  "v4_icmp type code ck mtu data =
     [type, code, ucast (drop_bit 8 ck), ucast (ck AND 0xFF), 0, 0, ucast (drop_bit 8 mtu), ucast (mtu AND 0xFF)] @ data"

definition mqvpn_icmp_send_v4 :: "u8 list \<Rightarrow> u8 \<Rightarrow> u8 \<Rightarrow> u16 \<Rightarrow> u8 list \<Rightarrow> u8 list option" where
  "mqvpn_icmp_send_v4 src_ip type code mtu orig =
     (if length orig < IPV4_MIN_HDR then None
      else (let ihl = unat (orig ! 0 AND 0x0F) * 4
            in if ihl < IPV4_MIN_HDR \<or> ihl > length orig then None
               else (let icmp_data_len = (if ihl + 8 > length orig then length orig else ihl + 8);
                         tot = IPV4_MIN_HDR + 8 + icmp_data_len
                     in if tot > 128 then None
                        else (let data = take icmp_data_len orig;
                                  dst = take 4 (drop 12 orig)
                              in case ipv4_checksum (v4_header tot 0 src_ip dst) of
                                   None \<Rightarrow> None
                                 | Some ip_ck \<Rightarrow>
                                     (let ic = NOT (ucast (fold_carry (byte_sum (v4_icmp type code 0 mtu data) 0)))
                                      in Some (v4_header tot ip_ck src_ip dst @ v4_icmp type code ic mtu data))))))"

definition v6_header :: "nat \<Rightarrow> u8 list \<Rightarrow> u8 list \<Rightarrow> u8 list" where
  "v6_header icmpv6_len src dst =
     [0x60, 0, 0, 0, of_nat (drop_bit 8 icmpv6_len AND 0xFF), of_nat (icmpv6_len AND 0xFF), 58, MQVPN_ICMP_TTL] @ src @ dst"

definition v6_icmp :: "u8 \<Rightarrow> u8 \<Rightarrow> u16 \<Rightarrow> u32 \<Rightarrow> u8 list \<Rightarrow> u8 list" where
  "v6_icmp type code ck mtu data =
     [type, code, ucast (drop_bit 8 ck), ucast (ck AND 0xFF),
      ucast (drop_bit 24 mtu AND 0xFF), ucast (drop_bit 16 mtu AND 0xFF), ucast (drop_bit 8 mtu AND 0xFF), ucast (mtu AND 0xFF)] @ data"

definition mqvpn_icmp_send_v6 :: "u8 list \<Rightarrow> u8 \<Rightarrow> u8 \<Rightarrow> u32 \<Rightarrow> u8 list \<Rightarrow> u8 list option" where
  "mqvpn_icmp_send_v6 src_ip6 type code mtu orig =
     (if length orig < IPV6_MIN_HDR then None
      else (let icmpv6_data_len =
                  (if IPV6_MIN_HDR + 8 + length orig > IPV6_MIN_MTU then IPV6_MIN_MTU - IPV6_MIN_HDR - 8 else length orig);
                icmpv6_len = 8 + icmpv6_data_len;
                data = take icmpv6_data_len orig;
                dst = take 16 (drop 8 orig);
                ic = icmpv6_checksum src_ip6 dst (v6_icmp type code 0 mtu data)
            in Some (v6_header icmpv6_len src_ip6 dst @ v6_icmp type code ic mtu data)))"


section \<open>Ones' complement arithmetic\<close>

lemma fold_carry_spec:
  "unat (fold_carry c) < 65536 \<and> unat (fold_carry c) mod 65535 = unat c mod 65535 \<and> (fold_carry c = 0 \<longleftrightarrow> c = 0)"
proof (induction c rule: fold_carry.induct)
  case (1 c)
  show ?case
  proof (cases "drop_bit 16 c = 0")
    case True
    then have "unat c div 65536 = 0" using drop_16 [of c] by simp
    then have "unat c < 65536" by (simp add: div_eq_0_iff)
    then show ?thesis using True by (simp add: fold_carry.simps [of c])
  next
    case False
    let ?d = "(c AND 0xFFFF) + drop_bit 16 c"
    have "unat c = 65535 * (unat c div 65536) + (unat c mod 65536 + unat c div 65536)"
      using div_mult_mod_eq [of "unat c" 65536] by linarith
    then have "unat c mod 65535 = (unat c mod 65536 + unat c div 65536) mod 65535"
      by (metis mod_mult_self4 mult.commute)
    then have m: "unat ?d mod 65535 = unat c mod 65535" by (simp only: carry_step)
    have "unat c div 65536 \<noteq> 0" using False drop_16 [of c] by (metis unat_eq_0)
    then have "unat ?d \<noteq> 0" "unat c \<noteq> 0" unfolding carry_step by auto
    then have "?d \<noteq> 0" "c \<noteq> 0" by auto
    moreover have "fold_carry c = fold_carry ?d" using False by (subst fold_carry.simps) simp
    ultimately show ?thesis using 1 [OF False] m by metis
  qed
qed

lemma cksum_valid:
  assumes "unat s' = unat s + (65535 - unat (fold_carry s))"
  shows "fold_carry s' = 0xFFFF"
proof -
  let ?f = "unat (fold_carry s)"
  note S = fold_carry_spec [of s] and S' = fold_carry_spec [of s']
  have le: "?f \<le> 65535" using S by linarith
  obtain k where k: "unat s = 65535 * k + ?f \<or> ?f = 65535 \<and> unat s = 65535 * k"
  proof (cases "?f = 65535")
    case True
    then have "65535 dvd unat s" using S by (simp add: dvd_eq_mod_eq_0)
    then show ?thesis using that True by (auto elim: dvdE)
  next
    case False
    then have "?f = unat s mod 65535" using S le by (metis le_neq_implies_less mod_less)
    then show ?thesis using that [of "unat s div 65535"] mult_div_mod_eq [of 65535 "unat s"] by simp
  qed
  then have "unat s' mod 65535 = 0" using assms le by auto
  moreover have "unat s' \<noteq> 0"
  proof
    assume "unat s' = 0"
    then have "?f = 65535" "unat s = 0" using assms le by linarith+
    moreover from this have "fold_carry s = 0" using S unat_eq_0 by metis
    ultimately show False by simp
  qed
  ultimately have "unat (fold_carry s') mod 65535 = 0" "unat (fold_carry s') \<noteq> 0" "unat (fold_carry s') < 65536"
    using S' by (auto simp: unat_eq_0)
  then have "unat (fold_carry s') = 65535" by (auto simp: dvd_eq_mod_eq_0 [symmetric] elim!: dvdE)
  then have "unat (fold_carry s') = unat (0xFFFF :: u32)" by simp
  then show ?thesis by (simp only: word_unat_eq_iff)
qed

text \<open>
  The receiver's check, as RFC 1071 states it and independent of the routines above: the
  ones' complement sum of the 16-bit words in network order (an odd last byte is padded with zero)
  is all ones, which for the plain sum means a positive multiple of 65535.
\<close>

fun nsum :: "u8 list \<Rightarrow> nat" where
  "nsum [] = 0"
| "nsum [a] = 256 * unat a"
| "nsum (a # b # r) = 256 * unat a + unat b + nsum r"

definition inet_checksum_ok :: "u8 list \<Rightarrow> bool" where
  "inet_checksum_ok bs \<longleftrightarrow> 0 < nsum bs \<and> nsum bs mod 65535 = 0"

text \<open>The IPv6 pseudo header (RFC 8200, section 8.1) for the next header 58.\<close>

definition ip6_pseudo_header :: "u8 list \<Rightarrow> u8 list \<Rightarrow> nat \<Rightarrow> u8 list" where
  "ip6_pseudo_header src dst n =
     src @ dst @ [of_nat (n div 16777216), of_nat (n div 65536), of_nat (n div 256), of_nat n, 0, 0, 0, 58]"

lemma fold_carry_inet_ok:
  assumes "fold_carry s = 0xFFFF" and "unat s = nsum bs"
  shows "inet_checksum_ok bs"
proof -
  have "unat (fold_carry s) mod 65535 = 0" "fold_carry s \<noteq> 0" using assms(1) by simp_all
  then have "unat s mod 65535 = 0" "unat s \<noteq> 0" using fold_carry_spec [of s] by (simp_all add: unat_eq_0)
  then show ?thesis using assms(2) by (simp add: inet_checksum_ok_def)
qed

lemma nsum_bound: "nsum xs \<le> 65535 * ((length xs + 1) div 2)"
proof (induction xs rule: nsum.induct)
  case (2 a)
  then show ?case using unat_u8_lt [of a] by simp
next
  case (3 a b r)
  then show ?case using unat_u8_lt [of a] unat_u8_lt [of b] by simp
qed simp

lemma nsum_append: "even (length xs) \<Longrightarrow> nsum (xs @ ys) = nsum xs + nsum ys"
  by (induction xs rule: nsum.induct) auto

lemma unat_hi: "unat (push_bit 8 (ucast (a :: u8)) :: u32) = 256 * unat a"
proof -
  have "unat a < 256" by (rule unat_u8_lt)
  then show ?thesis by (simp add: push_bit_eq_mult unat_word_ariths unsigned_ucast_eq take_bit_eq_mod)
qed

lemma unat_lo: "unat (ucast (b :: u8) :: u32) = unat b"
  using unat_u8_lt [of b] by (simp add: unsigned_ucast_eq take_bit_eq_mod)

lemma pair_or: "push_bit 8 (ucast (a :: u8)) OR ucast (b :: u8) = (push_bit 8 (ucast a) + ucast b :: u32)"
  by (rule disjunctive_add [symmetric]) (auto simp: bit_simps dest: bit_imp_le_length)

lemma unat_add3:
  assumes "unat c + x + y < 2 ^ 32" and "unat p = x" and "unat q = y"
  shows "unat (c + p + q :: u32) = unat c + x + y"
  using assms by (simp add: unat_word_ariths)

lemma byte_sum_nat: "unat c + nsum xs < 2 ^ 32 \<Longrightarrow> unat (byte_sum xs c) = unat c + nsum xs"
proof (induction xs c rule: byte_sum.induct)
  case (2 a c)
  then show ?case using unat_add3 [of c "256 * unat a" 0 "push_bit 8 (ucast a)" 0] by (simp add: unat_hi)
next
  case (3 a b r c)
  have u: "unat (c + push_bit 8 (ucast a) + ucast b) = unat c + 256 * unat a + unat b"
    using 3(2) by (intro unat_add3) (simp_all add: unat_hi unat_lo)
  then show ?case using 3 by simp
qed simp

lemma word_sum_nat: "even (length xs) \<Longrightarrow> unat c + nsum xs < 2 ^ 32 \<Longrightarrow> unat (word_sum xs c) = unat c + nsum xs"
proof (induction xs c rule: word_sum.induct)
  case (1 a b r c)
  have "unat (c + push_bit 8 (ucast a) + ucast b) = unat c + 256 * unat a + unat b"
    using 1(3) by (intro unat_add3) (simp_all add: unat_hi unat_lo)
  then show ?case using 1 by (simp add: pair_or add.assoc)
qed auto

lemma ipv4_sum_word: "even (length xs) \<Longrightarrow> ipv4_sum xs c = Some (word_sum xs c)"
  by (induction xs c rule: ipv4_sum.induct) auto

lemma unat_not16: "unat (NOT w :: u16) = 65535 - unat w"
proof -
  have "NOT w = - w - 1" by (rule not_eq_complement)
  also have "\<dots> = - 1 - w" by (rule minus_diff_commute)
  finally have "unat (NOT w) = unat (- 1 - w)" by (rule arg_cong)
  also have "\<dots> = unat (- 1 :: u16) - unat w" by (rule unat_sub_le) (rule word_order.extremum)
  also have "unat (- 1 :: u16) = 65535" by (simp add: unsigned_minus_1_eq_mask mask_eq_exp_minus_1)
  finally show ?thesis .
qed

lemma ck_bytes: "256 * unat (ucast (drop_bit 8 ck) :: u8) + unat (ucast (ck AND 0xFF) :: u8) = unat (ck :: u16)"
proof -
  have lt: "unat ck < 65536" using unsigned_less [of ck, where ?'a = nat] by simp
  have "ck AND 0xFF = take_bit 8 ck" by (simp add: take_bit_eq_mask mask_numeral)
  then have "unat (ucast (ck AND 0xFF) :: u8) = unat ck mod 256"
    by (simp add: unsigned_ucast_eq take_bit_eq_mod unat_mod)
  moreover have "unat (ucast (drop_bit 8 ck) :: u8) = unat ck div 256"
    using lt by (simp add: unsigned_ucast_eq drop_bit_eq_div unat_div take_bit_eq_mod)
  ultimately show ?thesis by simp
qed

lemma ck_fold: "unat (NOT (ucast (fold_carry s)) :: u16) = 65535 - unat (fold_carry s)"
proof -
  have "unat (fold_carry s) < 65536" using fold_carry_spec by blast
  then have "unat (ucast (fold_carry s) :: u16) = unat (fold_carry s)"
    by (simp add: unsigned_ucast_eq take_bit_eq_mod)
  then show ?thesis by (simp add: unat_not16)
qed


section \<open>The emitted packets\<close>

lemma nsum_v4_header: "nsum (v4_header tot ck src dst) = nsum (v4_header tot 0 src dst) + unat ck"
  using ck_bytes [of ck] by (simp add: v4_header_def)

lemma nsum_v4_icmp: "nsum (v4_icmp type code ck mtu data) = nsum (v4_icmp type code 0 mtu data) + unat ck"
  using ck_bytes [of ck] by (simp add: v4_icmp_def)

lemma nsum_v6_icmp: "nsum (v6_icmp type code ck mtu data) = nsum (v6_icmp type code 0 mtu data) + unat ck"
  using ck_bytes [of ck] by (simp add: v6_icmp_def)

lemma length_v4_parts [simp]:
  "length (v4_header tot ck src dst) = 12 + length src + length dst"
  "length (v4_icmp type code ck mtu data) = 8 + length data"
  "length (v6_header n src dst) = 8 + length src + length dst"
  "length (v6_icmp type code ck mtu' data) = 8 + length data"
  by (simp_all add: v4_header_def v4_icmp_def v6_header_def v6_icmp_def)

lemma len16_bytes:
  assumes "n < 65536"
  shows "256 * unat (of_nat (drop_bit 8 n AND 0xFF) :: u8) + unat (of_nat (n AND 0xFF) :: u8) = n"
proof -
  have a: "k AND 0xFF = k mod 256" for k :: nat
  proof -
    have "k AND mask 8 = take_bit 8 k" by (simp add: take_bit_eq_mask)
    then show ?thesis by (simp add: mask_eq_exp_minus_1 take_bit_eq_mod)
  qed
  have "unat (of_nat (drop_bit 8 n AND 0xFF) :: u8) = n div 256"
    using assms by (simp add: a unsigned_of_nat take_bit_eq_mod drop_bit_eq_div)
  moreover have "unat (of_nat (n AND 0xFF) :: u8) = n mod 256"
    by (simp add: a unsigned_of_nat take_bit_eq_mod)
  ultimately show ?thesis by simp
qed

lemma nsum_small:
  assumes "length xs \<le> 2000"
  shows "nsum xs < 70000000"
proof -
  have "(length xs + 1) div 2 \<le> 1000" using assms by linarith
  then show ?thesis using nsum_bound [of xs] by linarith
qed

lemma v4_header_valid:
  assumes "even (length src + length dst)" and "length src + length dst \<le> 100"
    and "ipv4_checksum (v4_header tot 0 src dst) = Some ck"
  shows "inet_checksum_ok (v4_header tot ck src dst)"
proof -
  let ?h = "v4_header tot 0 src dst"
  have e: "even (length ?h)" using assms(1) by simp
  have ck: "ck = NOT (ucast (fold_carry (word_sum ?h 0)))"
    using assms(3) by (simp add: ipv4_checksum_def ipv4_sum_word [OF e])
  have b: "nsum (v4_header tot c src dst) < 70000000" for c using assms(2) by (intro nsum_small) simp
  have u: "unat (word_sum (v4_header tot c src dst) 0) = nsum (v4_header tot c src dst)" for c
    using word_sum_nat [of "v4_header tot c src dst" 0] b [of c] assms(1) by simp
  have "unat (word_sum (v4_header tot ck src dst) 0) =
      unat (word_sum ?h 0) + (65535 - unat (fold_carry (word_sum ?h 0)))"
    unfolding u using nsum_v4_header [of tot ck src dst] by (simp add: ck ck_fold u)
  from fold_carry_inet_ok [OF cksum_valid [OF this] u] show ?thesis .
qed

lemma v4_icmp_valid:
  assumes "length data \<le> 1000"
  shows "inet_checksum_ok (v4_icmp type code
    (NOT (ucast (fold_carry (byte_sum (v4_icmp type code 0 mtu data) 0)))) mtu data)"
proof -
  let ?ck = "NOT (ucast (fold_carry (byte_sum (v4_icmp type code 0 mtu data) 0))) :: u16"
  have b: "nsum (v4_icmp type code c mtu data) < 70000000" for c using assms by (intro nsum_small) simp
  have u: "unat (byte_sum (v4_icmp type code c mtu data) 0) = nsum (v4_icmp type code c mtu data)" for c
    using byte_sum_nat [of 0 "v4_icmp type code c mtu data"] b [of c] by simp
  have "unat (byte_sum (v4_icmp type code ?ck mtu data) 0) = unat (byte_sum (v4_icmp type code 0 mtu data) 0) +
      (65535 - unat (fold_carry (byte_sum (v4_icmp type code 0 mtu data) 0)))"
    unfolding u using nsum_v4_icmp [of type code ?ck mtu data] by (simp add: ck_fold)
  from fold_carry_inet_ok [OF cksum_valid [OF this] u] show ?thesis .
qed

lemma mtu16_bytes: "(push_bit 8 (ucast (ucast (drop_bit 8 m) :: u8)) OR ucast (ucast (m AND 0xFF) :: u8) :: u16) = m" for m :: u16
proof (rule bit_eqI)
  fix n assume n: "possible_bit TYPE(16 word) n"
  have f: "(0xFF :: u16) = mask 8" by (simp add: mask_eq_exp_minus_1)
  show "bit (push_bit 8 (ucast (ucast (drop_bit 8 m) :: u8)) OR ucast (ucast (m AND 0xFF) :: u8) :: u16) n = bit m n"
    unfolding f using n by (cases "n < 8") (auto simp: bit_simps)
qed

lemma mtu32_bytes:
  "(push_bit 24 (ucast (ucast (drop_bit 24 m AND 0xFF) :: u8)) OR push_bit 16 (ucast (ucast (drop_bit 16 m AND 0xFF) :: u8)) OR
    push_bit 8 (ucast (ucast (drop_bit 8 m AND 0xFF) :: u8)) OR ucast (ucast (m AND 0xFF) :: u8) :: u32) = m" (is "?l = m") for m :: u32
proof (rule bit_eqI)
  fix n assume n: "possible_bit TYPE(32 word) n"
  have f: "(0xFF :: u32) = mask 8" by (simp add: mask_eq_exp_minus_1)
  have "n < 8 \<or> 8 \<le> n \<and> n < 16 \<or> 16 \<le> n \<and> n < 24 \<or> 24 \<le> n \<and> n < 32" using n by auto
  then show "bit ?l n = bit m n"
    unfolding f by (elim disjE) (auto simp: bit_simps)
qed

text \<open>
  C17: An ICMP error is emitted exactly for an original whose IPv4 header is complete, and what is
  emitted is well formed: the header checksum and the ICMP checksum pass a receiver's RFC 1071
  check, it is an IPv4 packet of protocol 1 without options, the total-length field is the
  length (at most 96 bytes, so the 128-byte buffer never overflows), it is addressed to the
  original's source, quotes the original's header and its first 8 bytes, and carries the given
  type, code and MTU.
\<close>

theorem mqvpn_icmp_send_v4_well_formed:
  assumes "length src_ip = 4"
  shows "case mqvpn_icmp_send_v4 src_ip type code mtu orig of
    None \<Rightarrow> length orig < 20 \<or> unat (orig ! 0 AND 0x0F) < 5 \<or> length orig < 4 * unat (orig ! 0 AND 0x0F)
  | Some p \<Rightarrow>
      (let n = min (4 * unat (orig ! 0 AND 0x0F) + 8) (length orig)
       in 20 \<le> length orig \<and> length p = 28 + n \<and> length p \<le> 96 \<and>
          256 * unat (p ! 2) + unat (p ! 3) = length p \<and>
          inet_checksum_ok (take 20 p) \<and> inet_checksum_ok (drop 20 p) \<and>
          p ! 0 = 0x45 \<and> p ! 9 = 1 \<and>
          take 4 (drop 12 p) = src_ip \<and> take 4 (drop 16 p) = take 4 (drop 12 orig) \<and> drop 28 p = take n orig \<and>
          p ! 20 = type \<and> p ! 21 = code \<and> (push_bit 8 (ucast (p ! 26)) OR ucast (p ! 27) :: u16) = mtu)"
proof (cases "length orig < 20 \<or> unat (orig ! 0 AND 0x0F) < 5 \<or> length orig < 4 * unat (orig ! 0 AND 0x0F)")
  case True
  then have "mqvpn_icmp_send_v4 src_ip type code mtu orig = None"
    by (auto simp: mqvpn_icmp_send_v4_def IPV4_MIN_HDR_def Let_def)
  then show ?thesis using True by simp
next
  case False
  let ?i = "unat (orig ! 0 AND 0x0F)" and ?dst = "take 4 (drop 12 orig)"
  let ?n = "min (4 * ?i + 8) (length orig)"
  have "orig ! 0 AND 0x0F \<le> 0x0F" by (rule word_and_le1)
  then have i: "?i \<le> 15" by (simp add: word_le_nat_alt)
  have d: "length ?dst = 4" using False by auto
  have t: "28 + ?n \<le> 96" using i by auto
  obtain ck where ck: "ipv4_checksum (v4_header (28 + ?n) 0 src_ip ?dst) = Some ck"
    using assms d by (simp add: ipv4_checksum_def ipv4_sum_word)
  let ?ic = "NOT (ucast (fold_carry (byte_sum (v4_icmp type code 0 mtu (take ?n orig)) 0))) :: u16"
  let ?h = "v4_header (28 + ?n) ck src_ip ?dst" and ?m = "v4_icmp type code ?ic mtu (take ?n orig)"
  have g: "(length orig < 20) = False" "(?i * 4 < 20 \<or> ?i * 4 > length orig) = False" "(28 + ?n > 128) = False" "20 + 8 + ?n = 28 + ?n"
    "(if ?i * 4 + 8 > length orig then length orig else ?i * 4 + 8) = ?n"
    using False t by auto
  have p: "mqvpn_icmp_send_v4 src_ip type code mtu orig = Some (?h @ ?m)"
    unfolding mqvpn_icmp_send_v4_def IPV4_MIN_HDR_def Let_def by (simp only: g if_False ck option.case)
  have lh: "length ?h = 20" using assms d by simp
  have ln: "length (take ?n orig) = ?n" by simp
  have len: "length (?h @ ?m) = 28 + ?n" using lh ln by simp
  have f: "256 * unat ((?h @ ?m) ! 2) + unat ((?h @ ?m) ! 3) = length (?h @ ?m)"
    unfolding len using len16_bytes [of "28 + ?n"] t by (simp add: v4_header_def)
  have h: "inet_checksum_ok (take 20 (?h @ ?m))"
    using v4_header_valid [OF _ _ ck] assms d lh by simp
  have c: "inet_checksum_ok (drop 20 (?h @ ?m))"
    using v4_icmp_valid [of "take ?n orig" type code mtu] t lh by simp
  have q: "take 4 (drop 12 (?h @ ?m)) = src_ip" "take 4 (drop 16 (?h @ ?m)) = ?dst" "drop 28 (?h @ ?m) = take ?n orig"
    using assms d by (simp_all add: v4_header_def v4_icmp_def)
  have b: "20 \<le> length orig" "length (?h @ ?m) \<le> 96" using False len t by simp_all
  have y: "(?h @ ?m) ! 20 = type" "(?h @ ?m) ! 21 = code" "(push_bit 8 (ucast ((?h @ ?m) ! 26)) OR ucast ((?h @ ?m) ! 27) :: u16) = mtu"
    using lh mtu16_bytes [of mtu] by (simp_all add: nth_append v4_icmp_def)
  have z: "(?h @ ?m) ! 0 = 0x45" "(?h @ ?m) ! 9 = 1" by (simp_all add: v4_header_def)
  show ?thesis unfolding p option.case Let_def by (intro conjI f h c q b len y z)
qed

definition ex_icmp_orig :: "u8 list" where
  "ex_icmp_orig = [0x45, 0, 0, 28, 0, 0, 0, 0, 64, 17, 0, 0, 10, 0, 0, 2, 10, 0, 0, 1, 0x0f, 0xa0, 0x11, 0x51, 0, 8, 0, 0]"

theorem mqvpn_icmp_send_v4_well_formed_witness:
  "\<exists>p. mqvpn_icmp_send_v4 [10, 0, 0, 1] 3 4 1280 ex_icmp_orig = Some p \<and> length p = 56 \<and>
     inet_checksum_ok (take 20 p) \<and> inet_checksum_ok (drop 20 p)"
proof -
  have i: "unat (ex_icmp_orig ! 0 AND 0x0F) = 5" "length ex_icmp_orig = 28" by (simp_all add: ex_icmp_orig_def)
  have "length [10, 0, 0, 1 :: u8] = 4" by simp
  from mqvpn_icmp_send_v4_well_formed [OF this, of ex_icmp_orig 3 4 1280] show ?thesis
    unfolding i by (cases "mqvpn_icmp_send_v4 [10, 0, 0, 1] 3 4 1280 ex_icmp_orig") (simp_all add: Let_def)
qed

lemma nsum_ip6_pseudo_header:
  assumes "length src = 16" and "length dst = 16" and "n \<le> 65535"
  shows "nsum (ip6_pseudo_header src dst n) = nsum src + nsum dst + n + 58"
proof -
  have "256 * unat (of_nat (n div 256) :: u8) + unat (of_nat n :: u8) = n"
    using assms(3) by (simp add: unsigned_of_nat take_bit_eq_mod)
  moreover have "n div 16777216 = 0" "n div 65536 = 0" using assms(3) by simp_all
  ultimately show ?thesis using assms(1,2) by (simp add: ip6_pseudo_header_def nsum_append)
qed

lemma v6_pseudo_nsum:
  assumes "length src = 16" and "length dst = 16" and "n \<le> 65535"
  shows "unat (v6_pseudo src dst n) = nsum (ip6_pseudo_header src dst n)"
    "nsum (ip6_pseudo_header src dst n) < 200000000"
proof -
  have b: "nsum src < 70000000" "nsum dst < 70000000" using assms by (simp_all add: nsum_small)
  have "unat (word_sum src 0) = nsum src" using word_sum_nat [of src 0] b assms by simp
  then have w: "unat (word_sum dst (word_sum src 0)) = nsum src + nsum dst"
    using word_sum_nat [of dst "word_sum src 0"] b assms by simp
  have "drop_bit 16 n = 0" using assms(3) by (simp add: drop_bit_eq_div)
  moreover have "n AND 0xFFFF = n"
    using assms(3) take_bit_eq_mask [of 16 n] by (simp add: mask_eq_exp_minus_1 take_bit_eq_mod)
  ultimately have eq: "v6_pseudo src dst n = word_sum dst (word_sum src 0) + of_nat n + 58"
    by (simp add: v6_pseudo_def Let_def)
  have n: "unat (of_nat n :: u32) = n" using assms(3) by (simp add: unsigned_of_nat take_bit_eq_mod)
  have "unat (v6_pseudo src dst n) = unat (word_sum dst (word_sum src 0)) + n + 58"
    unfolding eq using w b assms(3) by (intro unat_add3 n) simp_all
  then show "unat (v6_pseudo src dst n) = nsum (ip6_pseudo_header src dst n)"
    using w nsum_ip6_pseudo_header [OF assms] by simp
  show "nsum (ip6_pseudo_header src dst n) < 200000000"
    using b assms(3) nsum_ip6_pseudo_header [OF assms] by linarith
qed

text \<open>
  C18: The same for ICMPv6: an error is emitted exactly for an original with a complete IPv6 header;
  it never exceeds the minimum MTU of 1280 bytes, it is an IPv6 packet of next header 58 whose
  payload length is right, the bytes of the pseudo header followed by the message pass a
  receiver's RFC 1071 check, it goes to the original's source, quotes as much of the original
  as fits and carries the given type, code and MTU.
\<close>

theorem mqvpn_icmp_send_v6_well_formed:
  assumes "length src_ip6 = 16"
  shows "case mqvpn_icmp_send_v6 src_ip6 type code mtu orig of
    None \<Rightarrow> length orig < 40
  | Some p \<Rightarrow>
      (let n = min (length orig) 1232
       in 40 \<le> length orig \<and> length p = 48 + n \<and> length p \<le> 1280 \<and>
          256 * unat (p ! 4) + unat (p ! 5) = 8 + n \<and>
          inet_checksum_ok (ip6_pseudo_header (take 16 (drop 8 p)) (take 16 (drop 24 p)) (8 + n) @ drop 40 p) \<and>
          p ! 0 = 0x60 \<and> p ! 6 = 58 \<and>
          take 16 (drop 8 p) = src_ip6 \<and> take 16 (drop 24 p) = take 16 (drop 8 orig) \<and> drop 48 p = take n orig \<and>
          p ! 40 = type \<and> p ! 41 = code \<and>
          (push_bit 24 (ucast (p ! 44)) OR push_bit 16 (ucast (p ! 45)) OR push_bit 8 (ucast (p ! 46)) OR ucast (p ! 47) :: u32) = mtu)"
proof (cases "length orig < 40")
  case True
  then show ?thesis by (simp add: mqvpn_icmp_send_v6_def IPV6_MIN_HDR_def)
next
  case False
  let ?n = "min (length orig) 1232" and ?dst = "take 16 (drop 8 orig)"
  let ?data = "take ?n orig"
  have d: "length ?dst = 16" using False by auto
  have l: "length ?data = ?n" by simp
  let ?s = "\<lambda>ck. byte_sum (v6_icmp type code ck mtu ?data) (v6_pseudo src_ip6 ?dst (8 + ?n))"
  let ?ic = "NOT (ucast (fold_carry (?s 0))) :: u16"
  let ?h = "v6_header (8 + ?n) src_ip6 ?dst" and ?m = "v6_icmp type code ?ic mtu ?data"
  have "(if 40 + 8 + length orig > 1280 then 1280 - 40 - 8 else length orig) = ?n" by auto
  moreover have "icmpv6_checksum src_ip6 ?dst (v6_icmp type code 0 mtu ?data) = ?ic"
    unfolding icmpv6_checksum_def length_v4_parts l ..
  ultimately have p: "mqvpn_icmp_send_v6 src_ip6 type code mtu orig = Some (?h @ ?m)"
    using False unfolding mqvpn_icmp_send_v6_def IPV6_MIN_HDR_def IPV6_MIN_MTU_def Let_def by (simp only: if_False)
  have lh: "length ?h = 40" using assms d by simp
  have n16: "8 + ?n \<le> 65535" by simp
  note ps = v6_pseudo_nsum [OF assms d n16]
  have b: "unat (v6_pseudo src_ip6 ?dst (8 + ?n)) < 200000000" using ps by simp
  have "nsum (v6_icmp type code ck mtu ?data) < 70000000" for ck by (intro nsum_small) simp
  note nb = this
  have u: "unat (?s ck) = unat (v6_pseudo src_ip6 ?dst (8 + ?n)) + nsum (v6_icmp type code ck mtu ?data)" for ck
  proof -
    have "unat (v6_pseudo src_ip6 ?dst (8 + ?n)) + nsum (v6_icmp type code ck mtu ?data) < 2 ^ 32"
      using add_strict_mono [OF b nb [of ck]] by simp
    then show ?thesis by (rule byte_sum_nat)
  qed
  have v: "fold_carry (?s ?ic) = 0xFFFF"
  proof (rule cksum_valid)
    show "unat (?s ?ic) = unat (?s 0) + (65535 - unat (fold_carry (?s 0)))"
      unfolding u nsum_v6_icmp [of type code ?ic mtu ?data] ck_fold by simp
  qed
  have f: "256 * unat ((?h @ ?m) ! 4) + unat ((?h @ ?m) ! 5) = 8 + ?n"
    using len16_bytes [of "8 + ?n"] by (simp add: v6_header_def)
  have q: "take 16 (drop 8 (?h @ ?m)) = src_ip6" "take 16 (drop 24 (?h @ ?m)) = ?dst" "drop 48 (?h @ ?m) = ?data" "drop 40 (?h @ ?m) = ?m"
    using assms d lh by (simp_all add: v6_header_def v6_icmp_def)
  have len: "length (?h @ ?m) = 48 + ?n" using lh l by simp
  then have b: "40 \<le> length orig" "length (?h @ ?m) \<le> 1280" using False by simp_all
  have e: "even (length (ip6_pseudo_header src_ip6 ?dst (8 + ?n)))"
    unfolding ip6_pseudo_header_def length_append assms d by simp
  have "unat (?s ?ic) = nsum (ip6_pseudo_header src_ip6 ?dst (8 + ?n) @ ?m)"
    unfolding u ps(1) nsum_append [OF e] ..
  note ok = fold_carry_inet_ok [OF v this]
  have c: "inet_checksum_ok (ip6_pseudo_header (take 16 (drop 8 (?h @ ?m))) (take 16 (drop 24 (?h @ ?m))) (8 + ?n) @ drop 40 (?h @ ?m))"
    unfolding q by (rule ok)
  have z: "(?h @ ?m) ! 0 = 0x60" "(?h @ ?m) ! 6 = 58" by (simp_all add: v6_header_def)
  have y: "(?h @ ?m) ! 40 = type" "(?h @ ?m) ! 41 = code"
    "(push_bit 24 (ucast ((?h @ ?m) ! 44)) OR push_bit 16 (ucast ((?h @ ?m) ! 45)) OR push_bit 8 (ucast ((?h @ ?m) ! 46)) OR
      ucast ((?h @ ?m) ! 47) :: u32) = mtu"
    using lh mtu32_bytes [of mtu] by (simp_all add: nth_append v6_icmp_def)
  show ?thesis unfolding p option.case Let_def by (intro conjI f c q b len y z)
qed

theorem mqvpn_icmp_send_v6_well_formed_witness:
  "\<exists>p. mqvpn_icmp_send_v6 (replicate 16 1) 2 0 1280 (0x60 # replicate 47 0) = Some p \<and> length p = 96 \<and>
     inet_checksum_ok (ip6_pseudo_header (replicate 16 1) (replicate 16 0) 56 @ drop 40 p)"
proof -
  have "length (replicate 16 (1 :: u8)) = 16" by simp
  from mqvpn_icmp_send_v6_well_formed [OF this, of "0x60 # replicate 47 0" 2 0 1280] show ?thesis
    by (cases "mqvpn_icmp_send_v6 (replicate 16 1) 2 0 1280 (0x60 # replicate 47 0)") (auto simp: Let_def)
qed

end
