(* ===== verification/Reorder_Gate.thy ===== *)
theory Reorder_Gate
  imports Reorder_Tx Icmp
begin

text \<open>
  The gate every packet from the TUN device passes (\<^verbatim>\<open>src/reorder_gate.h\<close>): stamp, send raw, or drop
  and answer Packet Too Big, with the token bucket that limits the answers. The clock in
  milliseconds is an \<open>int\<close>: the code's \<open>int64_t\<close> differences of a monotonic clock do not wrap.
\<close>

section \<open>Rate limiter of Packet Too Big\<close>

definition MQVPN_PTB_RATE_LIMIT :: int where "MQVPN_PTB_RATE_LIMIT = 10"

record mqvpn_ptb_bucket =
  pb_tokens :: int
  pb_refill_ms :: int

definition mqvpn_ptb_bucket_init :: mqvpn_ptb_bucket where
  "mqvpn_ptb_bucket_init = \<lparr>pb_tokens = MQVPN_PTB_RATE_LIMIT, pb_refill_ms = 0\<rparr>"

definition mqvpn_ptb_bucket_allow :: "mqvpn_ptb_bucket \<Rightarrow> int \<Rightarrow> mqvpn_ptb_bucket \<times> bool" where
  "mqvpn_ptb_bucket_allow b now_ms =
     (let b = (if now_ms - pb_refill_ms b \<ge> 1000
               then b\<lparr>pb_tokens := MQVPN_PTB_RATE_LIMIT, pb_refill_ms := now_ms\<rparr> else b)
      in if pb_tokens b > 0 then (b\<lparr>pb_tokens := pb_tokens b - 1\<rparr>, True) else (b, False))"

text \<open>The number of errors a series of requests at the given times lets through.\<close>

fun ptb_allowed :: "mqvpn_ptb_bucket \<Rightarrow> int list \<Rightarrow> nat" where
  "ptb_allowed b [] = 0"
| "ptb_allowed b (t # ts) =
     (let (b, ok) = mqvpn_ptb_bucket_allow b t in (if ok then 1 else 0) + ptb_allowed b ts)"

definition bucket_ok :: "mqvpn_ptb_bucket \<Rightarrow> bool" where
  "bucket_ok b \<longleftrightarrow> 0 \<le> pb_tokens b \<and> pb_tokens b \<le> MQVPN_PTB_RATE_LIMIT"

lemma bucket_allow_ok: "bucket_ok b \<Longrightarrow> bucket_ok (fst (mqvpn_ptb_bucket_allow b t))"
  by (auto simp: bucket_ok_def mqvpn_ptb_bucket_allow_def MQVPN_PTB_RATE_LIMIT_def Let_def)

lemma ptb_allowed_no_refill:
  assumes "\<forall>t \<in> set ts. t - pb_refill_ms b < 1000" and "bucket_ok b"
  shows "int (ptb_allowed b ts) \<le> pb_tokens b"
  using assms
proof (induction ts arbitrary: b)
  case (Cons t ts)
  let ?b = "fst (mqvpn_ptb_bucket_allow b t)" and ?ok = "snd (mqvpn_ptb_bucket_allow b t)"
  have eq: "?ok \<longleftrightarrow> pb_tokens b > 0" "pb_refill_ms ?b = pb_refill_ms b"
    "pb_tokens ?b = (if pb_tokens b > 0 then pb_tokens b - 1 else pb_tokens b)"
    using Cons.prems(1) by (auto simp: mqvpn_ptb_bucket_allow_def Let_def)
  have "int (ptb_allowed ?b ts) \<le> pb_tokens ?b"
    using Cons.prems eq(2) bucket_allow_ok by (intro Cons.IH) auto
  then show ?case using eq Cons.prems(2) by (auto simp: case_prod_beta bucket_ok_def Let_def split: if_splits)
qed (simp add: bucket_ok_def)

lemma ptb_allowed_span:
  assumes "sorted ts" and "\<forall>t \<in> set ts. t0 \<le> t \<and> t - t0 < 1000" and "bucket_ok b"
  shows "int (ptb_allowed b ts) \<le> pb_tokens b + MQVPN_PTB_RATE_LIMIT"
  using assms
proof (induction ts arbitrary: b)
  case Nil
  then show ?case by (simp add: bucket_ok_def MQVPN_PTB_RATE_LIMIT_def)
next
  case (Cons t ts)
  let ?b = "fst (mqvpn_ptb_bucket_allow b t)" and ?ok = "snd (mqvpn_ptb_bucket_allow b t)"
  have ok: "bucket_ok ?b" using Cons.prems(3) by (rule bucket_allow_ok)
  show ?case
  proof (cases "t - pb_refill_ms b \<ge> 1000")
    case True
    then have eq: "?ok" "pb_refill_ms ?b = t" "pb_tokens ?b = MQVPN_PTB_RATE_LIMIT - 1"
      by (auto simp: mqvpn_ptb_bucket_allow_def MQVPN_PTB_RATE_LIMIT_def Let_def)
    have "\<forall>u \<in> set ts. u - pb_refill_ms ?b < 1000" using Cons.prems(1,2) eq(2) by auto
    from ptb_allowed_no_refill [OF this ok] show ?thesis
      using eq Cons.prems(3) by (simp add: case_prod_beta Let_def bucket_ok_def)
  next
    case False
    then have eq: "?ok \<longleftrightarrow> pb_tokens b > 0" "pb_tokens ?b = (if pb_tokens b > 0 then pb_tokens b - 1 else pb_tokens b)"
      by (auto simp: mqvpn_ptb_bucket_allow_def Let_def)
    have "int (ptb_allowed ?b ts) \<le> pb_tokens ?b + MQVPN_PTB_RATE_LIMIT"
      using Cons.prems(1,2) ok by (intro Cons.IH) auto
    then show ?thesis using eq Cons.prems(3) by (auto simp: case_prod_beta Let_def split: if_splits)
  qed
qed


text \<open>
  C35: The token bucket bounds the ICMP errors: within any interval of less than a second at most
  twice the limit (20) are sent, whatever the requests and the state of the bucket, and at most the
  tokens left when the window is not renewed.
\<close>

theorem ptb_rate_bounded:
  assumes "bucket_ok b" and "sorted ts" and "\<forall>t \<in> set ts. t0 \<le> t \<and> t - t0 < 1000"
  shows "ptb_allowed b ts \<le> 20 \<and>
    ((\<forall>t \<in> set ts. t - pb_refill_ms b < 1000) \<longrightarrow> int (ptb_allowed b ts) \<le> pb_tokens b)"
  using ptb_allowed_span [OF assms(2,3,1)] ptb_allowed_no_refill [OF _ assms(1)] assms(1)
  by (auto simp: bucket_ok_def MQVPN_PTB_RATE_LIMIT_def)

theorem ptb_rate_bounded_witness:
  "ptb_allowed mqvpn_ptb_bucket_init [500, 600, 700, 1100, 1200] \<le> 20 \<and> ptb_allowed mqvpn_ptb_bucket_init (replicate 15 10) = 10"
proof -
  have "bucket_ok mqvpn_ptb_bucket_init"
    by (simp add: bucket_ok_def mqvpn_ptb_bucket_init_def MQVPN_PTB_RATE_LIMIT_def)
  from ptb_rate_bounded [OF this, of "[500, 600, 700, 1100, 1200]" 500]
  show ?thesis
    by (simp add: numeral_eq_Suc mqvpn_ptb_bucket_init_def MQVPN_PTB_RATE_LIMIT_def mqvpn_ptb_bucket_allow_def Let_def)
qed


section \<open>The gate\<close>

datatype mqvpn_rgate_verdict =
    MQVPN_RGATE_STAMP
  | MQVPN_RGATE_RAW
  | MQVPN_RGATE_DROP_REORDER_MTU
  | MQVPN_RGATE_DROP_RAW_MTU

text \<open>
  The result is the engine, the verdict, the peek (when the engine was asked) and the MTU (when it
  was written). \<open>None\<close> for the engine is the null pointer.
\<close>

definition mqvpn_rgate_decide ::
  "bool \<Rightarrow> mqvpn_reorder_tx option \<Rightarrow> bool \<Rightarrow> mqvpn_reorder_mode \<Rightarrow> u8 list \<Rightarrow> u64 \<Rightarrow> u32 \<Rightarrow>
   mqvpn_reorder_tx option \<times> mqvpn_rgate_verdict \<times> mqvpn_reorder_tx_peek option \<times> nat option" where
  "mqvpn_rgate_decide alloc_ok reorder_tx peer_reorder_supported reorder_mode pkt now_us udp_mss =
     (let raw = (\<lambda>tx peek. if udp_mss > 0 \<and> length pkt > unat udp_mss
                           then (tx, MQVPN_RGATE_DROP_RAW_MTU, peek, Some (unat udp_mss))
                           else (tx, MQVPN_RGATE_RAW, peek, None))
      in case reorder_tx of
           None \<Rightarrow> raw None None
         | Some tx \<Rightarrow>
             if peer_reorder_supported \<and> reorder_mode \<noteq> MQVPN_REORDER_OFF \<and> udp_mss > 0
             then (case mqvpn_reorder_tx_peek alloc_ok tx pkt now_us udp_mss of
                     (tx, peek) \<Rightarrow>
                       (case pk_action peek of
                          MQVPN_REORDER_TX_STAMP \<Rightarrow> (Some tx, MQVPN_RGATE_STAMP, Some peek, None)
                        | MQVPN_REORDER_TX_DROP_MTU \<Rightarrow>
                            (Some tx, MQVPN_RGATE_DROP_REORDER_MTU, Some peek,
                             Some (if unat udp_mss > MQVPN_REORDER_HDR_LEN then unat udp_mss - MQVPN_REORDER_HDR_LEN else 0))
                        | MQVPN_REORDER_TX_RAW \<Rightarrow> raw (Some tx) (Some peek)))
             else raw reorder_tx None)"

definition mqvpn_rgate_send_ptb ::
  "mqvpn_ptb_bucket \<Rightarrow> int \<Rightarrow> u8 \<Rightarrow> bool \<Rightarrow> u8 list \<Rightarrow> nat \<Rightarrow> u8 list \<Rightarrow> mqvpn_ptb_bucket \<times> bool \<times> u8 list option" where
  "mqvpn_rgate_send_ptb bucket now_ms ip_ver addr_ok src_ip mtu pkt =
     (if \<not> addr_ok then (bucket, False, None)
      else case mqvpn_ptb_bucket_allow bucket now_ms of
             (bucket, False) \<Rightarrow> (bucket, False, None)
           | (bucket, True) \<Rightarrow>
               (bucket, True,
                if ip_ver = 4
                then mqvpn_icmp_send_v4 src_ip 3 4 (if mtu > 0xFFFF then 0xFFFF else of_nat mtu) pkt
                else mqvpn_icmp_send_v6 src_ip 2 0 (of_nat mtu) pkt))"

text \<open>
  C13: With a known datagram size the gate lets nothing through that does not fit, with or without
  a reorder engine: stamped (which takes an engine, a peer that supports reordering and a mode
  other than OFF), the packet fits with its header; raw, it fits as it is. A packet that would not
  fit raw is dropped with the datagram size as the MTU. One that would not fit stamped is dropped
  with the datagram size less the 8-byte header as the MTU, and with MTU 0 when the header alone
  fills the datagram; in each case the MTU is below the packet's size. While the datagram size is
  unknown (0) there is no such guarantee: every packet goes out raw, whatever its size, and the
  engine is not asked. The engine's invariant is kept.
\<close>

theorem mqvpn_rgate_decide_fits:
  assumes "pred_option (tx_inv j) etx" and "mqvpn_rgate_decide ok etx peer mode pkt now_us mss = (etx', v, peek, mtu)"
  shows "(if mss = 0 then v = MQVPN_RGATE_RAW \<and> etx' = etx \<and> peek = None \<and> mtu = None
     else case v of
      MQVPN_RGATE_STAMP \<Rightarrow> etx \<noteq> None \<and> peer \<and> mode \<noteq> MQVPN_REORDER_OFF \<and> mtu = None \<and>
        (\<exists>pk. peek = Some pk \<and> length (pk_hdr pk @ pkt) = 8 + length pkt \<and> 8 + length pkt \<le> unat mss)
    | MQVPN_RGATE_RAW \<Rightarrow> length pkt \<le> unat mss \<and> mtu = None
    | MQVPN_RGATE_DROP_REORDER_MTU \<Rightarrow> etx \<noteq> None \<and> peer \<and> mode \<noteq> MQVPN_REORDER_OFF \<and> unat mss < 8 + length pkt \<and>
        (\<exists>m. mtu = Some m \<and> m < length pkt \<and> (if 8 < unat mss then 8 + m = unat mss else m = 0))
    | MQVPN_RGATE_DROP_RAW_MTU \<Rightarrow> mtu = Some (unat mss) \<and> unat mss < length pkt) \<and>
    (etx' = None \<longleftrightarrow> etx = None) \<and> pred_option (tx_inv j) etx'"
proof (cases "etx \<noteq> None \<and> peer \<and> mode \<noteq> MQVPN_REORDER_OFF \<and> mss > 0")
  case False
  then show ?thesis using assms
    by (auto simp: mqvpn_rgate_decide_def Let_def word_gt_0 split: if_splits option.splits)
next
  case True
  obtain tx where e: "etx = Some tx" using True by blast
  have inv0: "tx_inv j tx" using assms(1) e by simp
  have m0: "mss \<noteq> 0" using True by auto
  obtain tx1 pk where p: "mqvpn_reorder_tx_peek ok tx pkt now_us mss = (tx1, pk)" by fastforce
  note P = peek_spec [OF inv0 p]
  have K: "tx_keeps j now_us tx tx1" using P by (elim exE conjE)
  have st: "length (pk_hdr pk) = 8 \<and> 8 + length pkt \<le> unat mss" if "pk_action pk = MQVPN_REORDER_TX_STAMP"
    using P that length_encode by (elim exE conjE) (auto simp: MQVPN_REORDER_HDR_LEN_def)
  have dr: "unat mss < 8 + length pkt \<and> (\<exists>key. mqvpn_reorder_parse_5tuple pkt = Some (Some key))"
    if "pk_action pk = MQVPN_REORDER_TX_DROP_MTU"
    using P that by (elim exE conjE) auto
  have inv: "tx_inv j tx1" using K by (simp add: tx_keeps_def)
  have ne: "pkt \<noteq> []" if "pk_action pk = MQVPN_REORDER_TX_DROP_MTU"
    using dr [OF that] by (auto simp: mqvpn_reorder_parse_5tuple_def mqvpn_parse_l3l4_def)
  show ?thesis
  proof (cases "pk_action pk")
    case MQVPN_REORDER_TX_STAMP
    then show ?thesis
      using assms(2) True p st inv m0 by (auto simp: e mqvpn_rgate_decide_def Let_def)
  next
    case MQVPN_REORDER_TX_RAW
    then show ?thesis using assms(2) True p inv m0 by (auto simp: e mqvpn_rgate_decide_def Let_def split: if_splits)
  next
    case MQVPN_REORDER_TX_DROP_MTU
    then have "length pkt > 0" using ne by simp
    then show ?thesis using MQVPN_REORDER_TX_DROP_MTU
      using assms(2) True p dr inv m0 by (auto simp: e mqvpn_rgate_decide_def Let_def MQVPN_REORDER_HDR_LEN_def split: if_splits)
  qed
qed

theorem mqvpn_rgate_decide_fits_witness:
  "(\<exists>tx pk. mqvpn_rgate_decide True (Some ex_tx) True MQVPN_REORDER_ON ex_udp 5 1200 = (Some tx, MQVPN_RGATE_STAMP, Some pk, None) \<and>
     length (pk_hdr pk @ ex_udp) = 36) \<and>
   mqvpn_rgate_decide True None True MQVPN_REORDER_ON ex_udp 5 20 = (None, MQVPN_RGATE_DROP_RAW_MTU, None, Some 20) \<and>
   20 < length ex_udp"
proof -
  obtain j where j: "tx_inv j ex_tx" using ex_tx_get by blast
  obtain tx1 pk where p: "mqvpn_reorder_tx_peek True ex_tx ex_udp 5 1200 = (tx1, pk)" by fastforce
  have d: "mqvpn_rgate_decide True (Some ex_tx) True MQVPN_REORDER_ON ex_udp 5 1200 = (Some tx1, MQVPN_RGATE_STAMP, Some pk, None)"
    using ex_tx_stamp [OF p] p by (simp add: mqvpn_rgate_decide_def)
  have l: "length ex_udp = 28" by (simp add: ex_udp_def)
  have n: "mqvpn_rgate_decide True None True MQVPN_REORDER_ON ex_udp 5 20 = (None, MQVPN_RGATE_DROP_RAW_MTU, None, Some 20)"
    by (simp add: mqvpn_rgate_decide_def l)
  have ok: "pred_option (tx_inv j) (Some ex_tx)" "pred_option (tx_inv j) None" using j by simp_all
  show ?thesis
    using mqvpn_rgate_decide_fits [OF ok(1) d] mqvpn_rgate_decide_fits [OF ok(2) n] d n l by simp
qed

end
