(* ===== verification/Addr_Pool.thy ===== *)
theory Addr_Pool
  imports C_Strings
begin

text \<open>
  The pool of client addresses (\<^verbatim>\<open>src/addr_pool.c\<close>). An IPv4 address is the 32-bit number in host order
  that the code gets by \<open>ntohl\<close>, an IPv6 address the list of its 16 bytes; an array access out of
  bounds cannot happen under \<open>pool_ok\<close>, which every operation keeps. Log messages are left out.
\<close>


section \<open>State\<close>

definition MQVPN_ADDR_POOL_MAX :: nat where "MQVPN_ADDR_POOL_MAX = 254"

record mqvpn_addr_pool =
  ap_base :: u32
  ap_prefix_len :: int
  ap_pool_size :: u32
  ap_next :: u32
  ap_used :: "bool list"
  ap_base6 :: "u8 list"
  ap_prefix6 :: int
  ap_has_v6 :: bool

definition zero_pool :: mqvpn_addr_pool where
  "zero_pool = \<lparr>ap_base = 0, ap_prefix_len = 0, ap_pool_size = 0, ap_next = 0,
     ap_used = replicate (MQVPN_ADDR_POOL_MAX + 1) False, ap_base6 = replicate 16 0, ap_prefix6 = 0, ap_has_v6 = False\<rparr>"


section \<open>Operations\<close>

text \<open>\<open>pton4\<close> and \<open>pton6\<close> are \<open>inet_pton\<close> for the two families: \<open>None\<close> when it does not return 1.\<close>

definition usable_hosts :: "int \<Rightarrow> u32" where
  "usable_hosts prefix_len =
     (let host_bits = nat (32 - prefix_len);
          total_hosts = push_bit host_bits 1 - 2
      in if total_hosts > of_nat MQVPN_ADDR_POOL_MAX then of_nat MQVPN_ADDR_POOL_MAX else total_hosts)"

definition mqvpn_addr_pool_init :: "(string \<Rightarrow> u32 option) \<Rightarrow> string \<Rightarrow> mqvpn_addr_pool option" where
  "mqvpn_addr_pool_init pton4 cidr =
     (case strchr CHR ''/'' (strncpy 32 cidr) of
        None \<Rightarrow> None
      | Some (buf, ps) \<Rightarrow>
          (let (plen, endptr) = strtol ps
           in if endptr = ps \<or> endptr \<noteq> [] \<or> plen < 0 \<or> plen > 32 then None
              else case pton4 buf of
                     None \<Rightarrow> None
                   | Some base \<Rightarrow>
                       if plen < 16 \<or> plen > 30 then None
                       else (let pool_size = usable_hosts plen
                             in if base + pool_size < base then None
                                else Some (zero_pool\<lparr>ap_prefix_len := plen, ap_base := base, ap_pool_size := pool_size, ap_next := 2\<rparr>))))"

definition alloc_off :: "mqvpn_addr_pool \<Rightarrow> u32 \<Rightarrow> u32" where
  "alloc_off pool i = (ap_next pool - 1 + i) mod ap_pool_size pool + 1"

primrec alloc_loop :: "nat \<Rightarrow> u32 \<Rightarrow> mqvpn_addr_pool \<Rightarrow> u32 option" where
  "alloc_loop 0 i pool = None"
| "alloc_loop (Suc k) i pool =
     (let off = alloc_off pool i
      in if off = 1 then alloc_loop k (i + 1) pool
         else if \<not> ap_used pool ! unat off then Some off
         else alloc_loop k (i + 1) pool)"

definition mqvpn_addr_pool_alloc :: "mqvpn_addr_pool \<Rightarrow> (mqvpn_addr_pool \<times> u32) option" where
  "mqvpn_addr_pool_alloc pool =
     (case alloc_loop (unat (ap_pool_size pool)) 0 pool of
        None \<Rightarrow> None
      | Some off \<Rightarrow> Some (pool\<lparr>ap_used := (ap_used pool)[unat off := True], ap_next := off + 1\<rparr>, ap_base pool + off))"

definition mqvpn_addr_pool_release :: "mqvpn_addr_pool \<Rightarrow> u32 \<Rightarrow> mqvpn_addr_pool" where
  "mqvpn_addr_pool_release pool addr =
     (if addr < ap_base pool then pool
      else (let off = addr - ap_base pool
            in if off \<ge> 1 \<and> off \<le> ap_pool_size pool then pool\<lparr>ap_used := (ap_used pool)[unat off := False]\<rparr> else pool))"

definition mqvpn_addr_pool_server_addr :: "mqvpn_addr_pool \<Rightarrow> u32" where
  "mqvpn_addr_pool_server_addr pool = ap_base pool + 1"

text \<open>Bytes 12 to 15 in network order.\<close>

definition low32 :: "u8 list \<Rightarrow> u32" where
  "low32 a = push_bit 24 (ucast (a ! 12)) OR push_bit 16 (ucast (a ! 13)) OR push_bit 8 (ucast (a ! 14)) OR ucast (a ! 15)"

definition store_low32 :: "u8 list \<Rightarrow> u32 \<Rightarrow> u8 list" where
  "store_low32 a w = take 12 a @ [ucast (drop_bit 24 w), ucast (drop_bit 16 w), ucast (drop_bit 8 w), ucast w]"

definition v6_host_mask :: "int \<Rightarrow> u64" where
  "v6_host_mask plen = (let host_bits = nat (128 - plen) in if host_bits \<ge> 32 then 0xffffffff else push_bit host_bits 1 - 1)"

definition mqvpn_addr_pool_init6 :: "(string \<Rightarrow> u8 list option) \<Rightarrow> mqvpn_addr_pool \<Rightarrow> string \<Rightarrow> bool \<times> mqvpn_addr_pool" where
  "mqvpn_addr_pool_init6 pton6 pool cidr6 =
     (case strchr CHR ''/'' (strncpy 64 cidr6) of
        None \<Rightarrow> (False, pool)
      | Some (buf, ps) \<Rightarrow>
          (let (plen, endptr) = strtol ps
           in if endptr = ps \<or> endptr \<noteq> [] \<or> plen < 96 \<or> plen > 126 then (False, pool)
              else case pton6 buf of
                     None \<Rightarrow> (False, pool)
                   | Some base6 \<Rightarrow>
                       (let pool = pool\<lparr>ap_base6 := base6\<rparr>;
                            low = low32 base6;
                            host_mask = v6_host_mask plen
                        in if (ucast low AND host_mask) + ucast (ap_pool_size pool) > host_mask then (False, pool)
                           else (True, pool\<lparr>ap_prefix6 := plen, ap_has_v6 := True\<rparr>))))"

definition mqvpn_addr_pool_get6 :: "mqvpn_addr_pool \<Rightarrow> u32 \<Rightarrow> u8 list" where
  "mqvpn_addr_pool_get6 pool offset = store_low32 (ap_base6 pool) (low32 (ap_base6 pool) + offset)"

definition mqvpn_addr_pool_server_addr6 :: "mqvpn_addr_pool \<Rightarrow> u8 list" where
  "mqvpn_addr_pool_server_addr6 pool = mqvpn_addr_pool_get6 pool 1"

definition mqvpn_addr_pool_offset6 :: "mqvpn_addr_pool \<Rightarrow> u8 list \<Rightarrow> u32" where
  "mqvpn_addr_pool_offset6 pool addr =
     (if take 12 addr \<noteq> take 12 (ap_base6 pool) then 0
      else if low32 addr < low32 (ap_base6 pool) then 0
      else low32 addr - low32 (ap_base6 pool))"


section \<open>Invariant\<close>

definition pool_ok :: "mqvpn_addr_pool \<Rightarrow> bool" where
  "pool_ok pool \<longleftrightarrow>
     length (ap_used pool) = MQVPN_ADDR_POOL_MAX + 1 \<and>
     2 \<le> unat (ap_pool_size pool) \<and> unat (ap_pool_size pool) \<le> MQVPN_ADDR_POOL_MAX \<and>
     unat (ap_base pool) + unat (ap_pool_size pool) < 2 ^ 32 \<and>
     2 \<le> unat (ap_next pool) \<and> unat (ap_next pool) \<le> unat (ap_pool_size pool) + 1 \<and>
     \<not> ap_used pool ! 0 \<and> \<not> ap_used pool ! 1 \<and> (\<forall>i. unat (ap_pool_size pool) < i \<and> i \<le> MQVPN_ADDR_POOL_MAX \<longrightarrow> \<not> ap_used pool ! i)"

text \<open>The addresses handed out.\<close>

definition pool_held :: "mqvpn_addr_pool \<Rightarrow> u32 set" where
  "pool_held pool = {ap_base pool + of_nat i | i. i < length (ap_used pool) \<and> ap_used pool ! i}"

lemma pool_held_iff:
  assumes "pool_ok pool"
  shows "a \<in> pool_held pool \<longleftrightarrow> ap_base pool \<le> a \<and> unat (a - ap_base pool) \<le> MQVPN_ADDR_POOL_MAX \<and> ap_used pool ! unat (a - ap_base pool)"
proof -
  have off: "unat (of_nat i :: u32) = i" if "i < 255" for i
    using that by (simp add: unat_of_nat)
  show ?thesis
  proof
    assume "a \<in> pool_held pool"
    then obtain i where i: "a = ap_base pool + of_nat i" "i < 255" "ap_used pool ! i"
      using assms by (auto simp: pool_held_def pool_ok_def MQVPN_ADDR_POOL_MAX_def)
    have "\<forall>i. unat (ap_pool_size pool) < i \<and> i \<le> 254 \<longrightarrow> \<not> ap_used pool ! i"
      using assms by (simp add: pool_ok_def MQVPN_ADDR_POOL_MAX_def)
    moreover have "i \<le> 254" using i(2) by simp
    ultimately have "i \<le> unat (ap_pool_size pool)" using i(3) leI by blast
    then have "ap_base pool \<le> a"
      using i(1) off [OF i(2)] assms by (simp add: pool_ok_def word_le_nat_alt unat_word_ariths)
    then show "ap_base pool \<le> a \<and> unat (a - ap_base pool) \<le> MQVPN_ADDR_POOL_MAX \<and> ap_used pool ! unat (a - ap_base pool)"
      using i off by (simp add: MQVPN_ADDR_POOL_MAX_def)
  next
    assume r: "ap_base pool \<le> a \<and> unat (a - ap_base pool) \<le> MQVPN_ADDR_POOL_MAX \<and> ap_used pool ! unat (a - ap_base pool)"
    have "a = ap_base pool + of_nat (unat (a - ap_base pool))" by simp
    then show "a \<in> pool_held pool" using r assms unfolding pool_held_def pool_ok_def
      by (intro CollectI exI [of _ "unat (a - ap_base pool)"]) simp
  qed
qed

lemma pool_ok_init:
  assumes "mqvpn_addr_pool_init pton4 cidr = Some pool"
  shows "pool_ok pool" and "pool_held pool = {}"
proof -
  obtain plen base where p: "\<not> plen < 16" "\<not> 30 < plen" "pool = zero_pool\<lparr>ap_prefix_len := plen, ap_base := base,
      ap_pool_size := usable_hosts plen, ap_next := 2\<rparr>"
    and nw: "\<not> base + usable_hosts plen < base"
    using assms by (auto simp: mqvpn_addr_pool_init_def Let_def not_less split: option.splits prod.splits if_splits)
  have "plen = 16 \<or> plen = 17 \<or> plen = 18 \<or> plen = 19 \<or> plen = 20 \<or> plen = 21 \<or> plen = 22 \<or> plen = 23 \<or> plen = 24 \<or>
      plen = 25 \<or> plen = 26 \<or> plen = 27 \<or> plen = 28 \<or> plen = 29 \<or> plen = 30"
    using p(1,2) by presburger
  then have size: "2 \<le> unat (ap_pool_size pool) \<and> unat (ap_pool_size pool) \<le> 254"
    by (elim disjE) (simp_all add: p(3) usable_hosts_def MQVPN_ADDR_POOL_MAX_def)
  have "unat base + unat (ap_pool_size pool) < 2 ^ 32"
    using nw no_olen_add_nat [of base "usable_hosts plen"] by (simp add: p(3) not_less)
  then show ok: "pool_ok pool" using size by (simp add: pool_ok_def p(3) zero_pool_def MQVPN_ADDR_POOL_MAX_def)
  then show "pool_held pool = {}" by (auto simp: pool_held_iff p(3) zero_pool_def MQVPN_ADDR_POOL_MAX_def)
qed

lemma unat_alloc_off:
  assumes "pool_ok pool" and "unat i < unat (ap_pool_size pool)"
  shows "unat (alloc_off pool i) =
    (unat (ap_next pool) - 1 + unat i) mod unat (ap_pool_size pool) + 1"
proof -
  have b: "2 \<le> unat (ap_pool_size pool)" "unat (ap_pool_size pool) \<le> 254" "2 \<le> unat (ap_next pool)" "unat (ap_next pool) \<le> 255"
    using assms(1) by (auto simp: pool_ok_def MQVPN_ADDR_POOL_MAX_def)
  have n: "unat (ap_next pool - 1) = unat (ap_next pool) - 1"
    using b(3) by (subst unat_sub_le) (simp_all add: word_le_nat_alt)
  have s: "unat (ap_next pool - 1 + i) = unat (ap_next pool) - 1 + unat i"
    using b assms(2) n by (subst unat_add_lem [THEN iffD1]) simp_all
  have "(unat (ap_next pool) - 1 + unat i) mod unat (ap_pool_size pool) < unat (ap_pool_size pool)" using b(1) by simp
  then show ?thesis using b(2) unfolding alloc_off_def by (subst unat_add_lem [THEN iffD1]) (simp_all add: unat_mod s)
qed

lemma alloc_loop_Some:
  assumes "pool_ok pool" and "alloc_loop k i pool = Some off" and "unat i + k \<le> unat (ap_pool_size pool)"
  shows "2 \<le> unat off \<and> unat off \<le> unat (ap_pool_size pool) \<and> \<not> ap_used pool ! unat off"
  using assms(2,3)
proof (induction k arbitrary: i)
  case (Suc k)
  let ?o = "alloc_off pool i"
  have i: "unat i < unat (ap_pool_size pool)" using Suc.prems(2) by simp
  have sz: "unat (ap_pool_size pool) \<le> 254" "0 < unat (ap_pool_size pool)" using assms(1) by (auto simp: pool_ok_def MQVPN_ADDR_POOL_MAX_def)
  have i1: "unat (i + 1) = unat i + 1" using i sz(1) by (subst unat_add_lem [THEN iffD1]) simp_all
  have o: "1 \<le> unat ?o" "unat ?o \<le> unat (ap_pool_size pool)"
    using unat_alloc_off [OF assms(1) i] sz(2) by (simp_all add: Suc_leI)
  show ?case
  proof (cases "?o = 1 \<or> ap_used pool ! unat ?o")
    case True
    then have "alloc_loop k (i + 1) pool = Some off" using Suc.prems(1) by (auto simp: Let_def split: if_splits)
    then show ?thesis using Suc.IH Suc.prems(2) i1 by simp
  next
    case False
    then have off: "off = ?o" "\<not> ap_used pool ! unat ?o" "?o \<noteq> 1" using Suc.prems(1) by (auto simp: Let_def)
    have "unat ?o \<noteq> 1" using off(3) word_unat_eq_iff [of ?o 1] by simp
    then show ?thesis using o off by simp
  qed
qed simp

lemma alloc_loop_None:
  assumes "pool_ok pool" and "alloc_loop k i pool = None" and "unat i + k \<le> unat (ap_pool_size pool)" and "j < k"
  shows "let off = (unat (ap_next pool) - 1 + (unat i + j)) mod unat (ap_pool_size pool) + 1 in off = 1 \<or> ap_used pool ! off"
  using assms(2-4)
proof (induction k arbitrary: i j)
  case (Suc k)
  let ?o = "alloc_off pool i"
  have i: "unat i < unat (ap_pool_size pool)" using Suc.prems(2) by simp
  have sz: "unat (ap_pool_size pool) \<le> 254" using assms(1) by (auto simp: pool_ok_def MQVPN_ADDR_POOL_MAX_def)
  have i1: "unat (i + 1) = unat i + 1" using i sz(1) by (subst unat_add_lem [THEN iffD1]) simp_all
  have r: "alloc_loop k (i + 1) pool = None" and o: "?o = 1 \<or> ap_used pool ! unat ?o"
    using Suc.prems(1) by (auto simp: Let_def split: if_splits)
  show ?case
  proof (cases j)
    case 0
    then show ?thesis using o unat_alloc_off [OF assms(1) i] by (auto simp: Let_def)
  next
    case (Suc j')
    then show ?thesis using Suc.IH [OF r, of j'] Suc.prems i1 by simp
  qed
qed simp


text \<open>The addresses the pool has for clients: offsets 2 up to the size.\<close>

definition pool_usable :: "mqvpn_addr_pool \<Rightarrow> u32 set" where
  "pool_usable pool = {a. ap_base pool \<le> a \<and> 2 \<le> unat (a - ap_base pool) \<and> unat (a - ap_base pool) \<le> unat (ap_pool_size pool)}"

lemma pool_held_usable:
  assumes "pool_ok pool"
  shows "pool_held pool \<subseteq> pool_usable pool"
proof
  fix a assume a: "a \<in> pool_held pool"
  let ?i = "unat (a - ap_base pool)"
  have u: "ap_used pool ! ?i" "?i \<le> 254" "ap_base pool \<le> a" using a by (auto simp: pool_held_iff [OF assms] MQVPN_ADDR_POOL_MAX_def)
  then have "?i \<noteq> 0" "?i \<noteq> 1" "\<not> unat (ap_pool_size pool) < ?i"
    using assms unfolding pool_ok_def MQVPN_ADDR_POOL_MAX_def by metis+
  then show "a \<in> pool_usable pool" using u by (simp add: pool_usable_def)
qed

lemma pool_base_add:
  assumes "pool_ok pool" and "unat off \<le> unat (ap_pool_size pool)"
  shows "unat (ap_base pool + off) = unat (ap_base pool) + unat off" and "ap_base pool \<le> ap_base pool + off"
  using assms by (simp_all add: pool_ok_def unat_word_ariths word_le_nat_alt)

lemma alloc_Some:
  assumes "pool_ok pool" and "mqvpn_addr_pool_alloc pool = Some (pool', a)"
  shows "pool_ok pool' \<and> a \<notin> pool_held pool \<and> pool_held pool' = insert a (pool_held pool) \<and>
    a \<in> pool_usable pool \<and> pool_usable pool' = pool_usable pool"
proof -
  obtain off where l: "alloc_loop (unat (ap_pool_size pool)) 0 pool = Some off"
    and p': "pool' = pool\<lparr>ap_used := (ap_used pool)[unat off := True], ap_next := off + 1\<rparr>" and a: "a = ap_base pool + off"
    using assms(2) by (auto simp: mqvpn_addr_pool_alloc_def split: option.splits)
  have off: "2 \<le> unat off" "unat off \<le> unat (ap_pool_size pool)" "\<not> ap_used pool ! unat off"
    using alloc_loop_Some [OF assms(1) l] by simp_all
  have o1: "unat (off + 1) = unat off + 1" "unat off \<le> 254" "unat off < length (ap_used pool)"
    using off(2) assms(1) by (auto simp: pool_ok_def MQVPN_ADDR_POOL_MAX_def unat_word_ariths)
  have ok': "pool_ok pool'"
    using assms(1) off o1 unfolding p' pool_ok_def by (auto simp: nth_list_update)
  have "x \<in> pool_held pool' \<longleftrightarrow> x = a \<or> x \<in> pool_held pool" for x
  proof -
    have "unat off = unat (x - ap_base pool) \<longleftrightarrow> x = a"
      unfolding a by (metis add.commute diff_add_cancel add_diff_cancel_left' word_unat_eq_iff)
    then show ?thesis
      using pool_base_add(2) [OF assms(1) off(2)] o1 unfolding pool_held_iff [OF ok'] pool_held_iff [OF assms(1)]
      by (auto simp: p' nth_list_update a MQVPN_ADDR_POOL_MAX_def)
  qed
  moreover have "a \<notin> pool_held pool" using off(3) by (simp add: pool_held_iff [OF assms(1)] a)
  moreover have "a \<in> pool_usable pool" using off pool_base_add(2) [OF assms(1) off(2)] by (simp add: pool_usable_def a)
  ultimately show ?thesis using ok' by (auto simp: pool_usable_def p')
qed

lemma alloc_None:
  assumes "pool_ok pool" and "mqvpn_addr_pool_alloc pool = None"
  shows "pool_held pool = pool_usable pool"
proof
  show "pool_held pool \<subseteq> pool_usable pool" by (rule pool_held_usable [OF assms(1)])
  have l: "alloc_loop (unat (ap_pool_size pool)) 0 pool = None"
    using assms(2) by (auto simp: mqvpn_addr_pool_alloc_def split: option.splits)
  show "pool_usable pool \<subseteq> pool_held pool"
  proof
    fix a assume a: "a \<in> pool_usable pool"
    let ?s = "unat (ap_pool_size pool)" and ?n = "unat (ap_next pool) - 1" and ?i = "unat (a - ap_base pool)"
    have s: "2 \<le> ?s" "?n \<le> ?s" "2 \<le> ?i" "?i \<le> ?s" using assms(1) a by (auto simp: pool_ok_def pool_usable_def)
    have "\<exists>j < ?s. (?n + j) mod ?s + 1 = ?i"
    proof (intro exI conjI)
      let ?j = "(?i - 1 + (?s - ?n)) mod ?s"
      show "?j < ?s" using s(1) by simp
      have "(?n + ?j) mod ?s = (?n + (?i - 1 + (?s - ?n))) mod ?s" by (simp add: mod_add_right_eq)
      also have "\<dots> = (?i - 1 + ?s) mod ?s" using s(2) by (simp add: add.commute)
      also have "\<dots> = (?i - 1) mod ?s" by (rule mod_add_self2)
      also have "\<dots> = ?i - 1" using s by (intro mod_less) linarith
      finally show "(?n + ?j) mod ?s + 1 = ?i" using s(3) by simp
    qed
    then obtain j where j: "j < ?s" "(?n + j) mod ?s + 1 = ?i" by blast
    have "?i = 1 \<or> ap_used pool ! ?i"
      using alloc_loop_None [OF assms(1) l _ j(1)] j(2) by (auto simp: Let_def)
    then have "ap_used pool ! ?i" using s(3) by linarith
    then show "a \<in> pool_held pool"
      using a assms(1) unfolding pool_held_iff [OF assms(1)] by (auto simp: pool_usable_def pool_ok_def)
  qed
qed

lemma release_spec:
  assumes "pool_ok pool"
  shows "pool_ok (mqvpn_addr_pool_release pool a) \<and> pool_held (mqvpn_addr_pool_release pool a) = pool_held pool - {a} \<and>
    pool_usable (mqvpn_addr_pool_release pool a) = pool_usable pool"
proof (cases "ap_base pool \<le> a \<and> 1 \<le> a - ap_base pool \<and> a - ap_base pool \<le> ap_pool_size pool")
  case False
  then have "mqvpn_addr_pool_release pool a = pool" by (auto simp: mqvpn_addr_pool_release_def Let_def not_less)
  moreover have "a \<notin> pool_usable pool"
    using False by (auto simp: pool_usable_def word_le_nat_alt)
  ultimately show ?thesis using pool_held_usable [OF assms] assms by auto
next
  case True
  let ?p = "pool\<lparr>ap_used := (ap_used pool)[unat (a - ap_base pool) := False]\<rparr>"
  have r: "mqvpn_addr_pool_release pool a = ?p" using True by (auto simp: mqvpn_addr_pool_release_def Let_def not_less)
  have l: "unat (a - ap_base pool) < length (ap_used pool)"
    using True assms by (auto simp: pool_ok_def word_le_nat_alt)
  have ok': "pool_ok ?p" using assms l unfolding pool_ok_def by (auto simp: nth_list_update)
  have "x \<in> pool_held ?p \<longleftrightarrow> x \<in> pool_held pool \<and> x \<noteq> a" for x
  proof -
    have "unat (a - ap_base pool) = unat (x - ap_base pool) \<longleftrightarrow> x = a"
      by (metis diff_add_cancel word_unat_eq_iff)
    then show ?thesis using l unfolding pool_held_iff [OF ok'] pool_held_iff [OF assms]
      by (auto simp: nth_list_update)
  qed
  then show ?thesis using ok' unfolding r by (auto simp: pool_usable_def)
qed


section \<open>Leases\<close>

text \<open>
  The interface of a pool of identifiers: taking one gives an identifier nobody holds, unless all
  are held, and giving one back frees exactly that one.
\<close>

datatype 'a lease_event = Take | Give 'a

fun lease_step :: "('s \<Rightarrow> ('s \<times> 'a) option) \<Rightarrow> ('s \<Rightarrow> 'a \<Rightarrow> 's) \<Rightarrow> 's \<times> 'a list \<Rightarrow> 'a lease_event \<Rightarrow> 's \<times> 'a list" where
  "lease_step tk gv (s, owned) Take = (case tk s of None \<Rightarrow> (s, owned) | Some (s', a) \<Rightarrow> (s', a # owned))"
| "lease_step tk gv (s, owned) (Give a) = (gv s a, filter (\<lambda>x. x \<noteq> a) owned)"

fun leases_ok :: "('s \<Rightarrow> bool) \<Rightarrow> ('s \<Rightarrow> 'a set) \<Rightarrow> ('s \<Rightarrow> 'a set) \<Rightarrow> 'a set \<Rightarrow> 's \<times> 'a list \<Rightarrow> bool" where
  "leases_ok ok held usable U (s, owned) \<longleftrightarrow> ok s \<and> distinct owned \<and> set owned = held s \<and> held s \<subseteq> U \<and> usable s = U"

locale lease_pool =
  fixes tk :: "'s \<Rightarrow> ('s \<times> 'a) option" and gv :: "'s \<Rightarrow> 'a \<Rightarrow> 's"
    and ok :: "'s \<Rightarrow> bool" and held :: "'s \<Rightarrow> 'a set" and usable :: "'s \<Rightarrow> 'a set"
  assumes tk_Some: "ok s \<Longrightarrow> tk s = Some (s', a) \<Longrightarrow>
      ok s' \<and> a \<notin> held s \<and> held s' = insert a (held s) \<and> a \<in> usable s \<and> usable s' = usable s"
    and tk_None: "ok s \<Longrightarrow> tk s = None \<Longrightarrow> held s = usable s"
    and gv_ok: "ok s \<Longrightarrow> ok (gv s a) \<and> held (gv s a) = held s - {a} \<and> usable (gv s a) = usable s"
begin

lemma lease_step_ok: "leases_ok ok held usable U st \<Longrightarrow> leases_ok ok held usable U (lease_step tk gv st e)"
  using tk_Some gv_ok by (cases st; cases e) (auto split: option.split)

lemma tk_fails: "ok s \<Longrightarrow> tk s = None \<longleftrightarrow> held s = usable s"
  by (metis tk_Some tk_None option.exhaust surj_pair)

end

sublocale lease_pool < lease: machine "lease_step tk gv" "\<lambda>_ _. True" "leases_ok ok held usable U" for U
  by unfold_locales (rule lease_step_ok)

interpretation ap: lease_pool mqvpn_addr_pool_alloc mqvpn_addr_pool_release pool_ok pool_held pool_usable
proof
  show "pool_ok s' \<and> a \<notin> pool_held s \<and> pool_held s' = insert a (pool_held s) \<and> a \<in> pool_usable s \<and> pool_usable s' = pool_usable s"
    if "pool_ok s" "mqvpn_addr_pool_alloc s = Some (s', a)" for s s' a
    using that by (rule alloc_Some)
  show "pool_held s = pool_usable s" if "pool_ok s" "mqvpn_addr_pool_alloc s = None" for s
    using that by (rule alloc_None)
  show "pool_ok (mqvpn_addr_pool_release s a) \<and> pool_held (mqvpn_addr_pool_release s a) = pool_held s - {a} \<and>
      pool_usable (mqvpn_addr_pool_release s a) = pool_usable s" if "pool_ok s" for s a
    using that by (rule release_spec)
qed


section \<open>The IPv6 pool\<close>

text \<open>What \<open>inet_pton\<close> writes for an IPv6 address is 16 bytes.\<close>

definition pton6_bytes :: "(string \<Rightarrow> u8 list option) \<Rightarrow> bool" where
  "pton6_bytes pton6 \<longleftrightarrow> (\<forall>s a. pton6 s = Some a \<longrightarrow> length a = 16)"

lemma low32_store:
  assumes "length a = 16"
  shows "low32 (store_low32 a w) = w" and "take 12 (store_low32 a w) = take 12 a" and "length (store_low32 a w) = 16"
proof -
  have "bit (low32 (store_low32 a w)) n \<longleftrightarrow> bit w n" if "n < 32" for n
  proof -
    consider "n < 8" | "8 \<le> n" "n < 16" | "16 \<le> n" "n < 24" | "24 \<le> n" by linarith
    then show ?thesis
      using that assms by cases (auto simp: low32_def store_low32_def bit_simps nth_append)
  qed
  then show "low32 (store_low32 a w) = w" by (intro bit_word_eqI) simp
qed (use assms in \<open>simp_all add: store_low32_def\<close>)

lemma v6_host_mask:
  assumes "nat (128 - plen) \<le> 32"
  shows "unat (v6_host_mask plen) = 2 ^ nat (128 - plen) - 1"
    and "unat (ucast w AND v6_host_mask plen :: u64) = unat (w :: u32) mod 2 ^ nat (128 - plen)"
proof -
  have m: "v6_host_mask plen = mask (nat (128 - plen))"
    using assms by (cases "nat (128 - plen) = 32") (auto simp: v6_host_mask_def Let_def mask_eq_exp_minus_1)
  have "int (unat (mask (nat (128 - plen)) :: u64)) = int (2 ^ nat (128 - plen) - 1)"
    using assms unfolding of_nat_unat uint_mask_eq by (simp add: mask_eq_exp_minus_1 min_def of_nat_diff)
  then show "unat (v6_host_mask plen) = 2 ^ nat (128 - plen) - 1" unfolding m of_nat_eq_iff .
  have "unat (take_bit (nat (128 - plen)) (ucast w :: u64)) = unat w mod 2 ^ nat (128 - plen)"
    unfolding unsigned_take_bit_eq by (simp add: take_bit_eq_mod)
  then show "unat (ucast w AND v6_host_mask plen :: u64) = unat w mod 2 ^ nat (128 - plen)"
    unfolding m take_bit_eq_mask .
qed

lemma init6_room:
  assumes "mqvpn_addr_pool_init6 pton6 pool cidr6 = (True, pool6)"
  shows "\<exists>b. ap_base6 pool6 = b \<and> (\<exists>s. pton6 s = Some b) \<and> ap_pool_size pool6 = ap_pool_size pool \<and>
    96 \<le> ap_prefix6 pool6 \<and> ap_prefix6 pool6 \<le> 126 \<and> ap_has_v6 pool6 \<and>
    unat (low32 b) mod 2 ^ nat (128 - ap_prefix6 pool6) + unat (ap_pool_size pool) < 2 ^ nat (128 - ap_prefix6 pool6)"
proof -
  obtain buf ps plen b where sp: "strchr CHR ''/'' (strncpy 64 cidr6) = Some (buf, ps)" and pt: "pton6 buf = Some b"
    and pl: "strtol ps = (plen, [])" "\<not> plen < 96" "\<not> plen > 126"
    and p6: "pool6 = pool\<lparr>ap_base6 := b, ap_prefix6 := plen, ap_has_v6 := True\<rparr>"
    and fit: "\<not> v6_host_mask plen < (ucast (low32 b) AND v6_host_mask plen) + ucast (ap_pool_size pool)"
    using assms by (auto simp: mqvpn_addr_pool_init6_def Let_def split: option.splits prod.splits if_splits)
  let ?h = "nat (128 - plen)"
  have h: "?h \<le> 32" using pl(2) by linarith
  have "unat (low32 b) mod 2 ^ ?h + unat (ap_pool_size pool) < 18446744073709551616"
  proof -
    have "unat (low32 b) mod 2 ^ ?h \<le> unat (low32 b)" by (rule mod_less_eq_dividend)
    then show ?thesis using unat_u32_lt [of "low32 b"] unat_u32_lt [of "ap_pool_size pool"] by linarith
  qed
  then have "unat (low32 b) mod 2 ^ ?h + unat (ap_pool_size pool) < 2 ^ ?h"
    using fit by (simp add: word_less_nat_alt unat_word_ariths v6_host_mask [OF h] not_less)
       (metis Suc_pred le_imp_less_Suc zero_less_numeral zero_less_power)
  then show ?thesis using pt pl by (auto simp: p6)
qed


section \<open>Properties\<close>

lemma div_mult_add: "r < p \<Longrightarrow> (p * q + r) div p = q" for p q r :: nat
  by simp

lemma card_pool_usable:
  assumes "pool_ok pool"
  shows "card (pool_usable pool) = unat (ap_pool_size pool) - 1" and "finite (pool_usable pool)"
proof -
  let ?f = "\<lambda>i. ap_base pool + (of_nat i :: u32)" and ?s = "unat (ap_pool_size pool)"
  have u: "unat (of_nat i :: u32) = i" if "i \<le> ?s" for i
    using that assms by (simp add: unat_of_nat pool_ok_def MQVPN_ADDR_POOL_MAX_def)
  have "pool_usable pool = ?f ` {2..?s}"
  proof
    show "?f ` {2..?s} \<subseteq> pool_usable pool"
      using u pool_base_add(2) [OF assms] by (auto simp: pool_usable_def)
    show "pool_usable pool \<subseteq> ?f ` {2..?s}"
    proof
      fix a assume "a \<in> pool_usable pool"
      moreover have "a = ?f (unat (a - ap_base pool))" by simp
      ultimately show "a \<in> ?f ` {2..?s}" unfolding pool_usable_def by (intro image_eqI) auto
    qed
  qed
  moreover have "inj_on ?f {2..?s}" using u by (intro inj_onI) (metis add_left_cancel atLeastAtMost_iff)
  ultimately show "card (pool_usable pool) = ?s - 1" "finite (pool_usable pool)" by (simp_all add: card_image)
qed

text \<open>
  C12: The address pool leases each address to one client at a time: from any accepted CIDR, over
  any sequence of allocations and releases (also releases of addresses that were never handed out),
  the addresses out on lease are pairwise different, all lie between base + 2 and base + size without
  wrapping, none is the server's, and an allocation fails exactly when all size - 1 are on lease.
\<close>

theorem addr_pool_leases_distinct:
  assumes "mqvpn_addr_pool_init pton4 cidr = Some pool0"
    and "run (lease_step mqvpn_addr_pool_alloc mqvpn_addr_pool_release) (pool0, []) es = (pool, owned)"
  shows "distinct owned \<and> mqvpn_addr_pool_server_addr pool0 \<notin> set owned \<and>
    list_all (\<lambda>a. unat (ap_base pool0) + 2 \<le> unat a \<and> unat a \<le> unat (ap_base pool0) + unat (ap_pool_size pool0)) owned \<and>
    (mqvpn_addr_pool_alloc pool = None \<longleftrightarrow> length owned = unat (ap_pool_size pool0) - 1)"
proof -
  note I = pool_ok_init [OF assms(1)]
  have "leases_ok pool_ok pool_held pool_usable (pool_usable pool0) (pool0, [])" using I by simp
  from ap.lease.run_inv [OF this, of es] have L: "leases_ok pool_ok pool_held pool_usable (pool_usable pool0) (pool, owned)"
    using assms(2) by (simp add: run_ok_True)
  have range: "unat (ap_base pool0) + 2 \<le> unat a \<and> unat a \<le> unat (ap_base pool0) + unat (ap_pool_size pool0)"
    if "a \<in> pool_usable pool0" for a
    using that by (auto simp: pool_usable_def unat_sub_le word_le_nat_alt)
  have "unat (ap_base pool0 + 1) = unat (ap_base pool0) + 1"
    using pool_base_add(1) [OF I(1), of 1] I(1) by (simp add: pool_ok_def)
  then have srv: "ap_base pool0 + 1 \<notin> pool_usable pool0" using range by fastforce
  have "mqvpn_addr_pool_alloc pool = None \<longleftrightarrow> pool_held pool = pool_usable pool0"
    using L ap.tk_fails by auto
  also have "\<dots> \<longleftrightarrow> length owned = unat (ap_pool_size pool0) - 1"
    using L card_pool_usable [OF I(1)] distinct_card [of owned] card_subset_eq [of "pool_usable pool0" "pool_held pool"] by auto
  finally show ?thesis using L range srv by (auto simp: list_all_iff mqvpn_addr_pool_server_addr_def)
qed

text \<open>
  C36: Where the IPv6 pool is accepted, every offset of the IPv4 pool has an IPv6 address of its own
  inside the configured prefix, which differs from the base only in the host bits and without
  wrapping, and the offset is recovered from the address.
\<close>

theorem addr_pool6_roundtrip:
  assumes "pton6_bytes pton6" and "mqvpn_addr_pool_init6 pton6 pool cidr6 = (True, pool6)"
    and "unat off \<le> unat (ap_pool_size pool)"
  shows "mqvpn_addr_pool_offset6 pool6 (mqvpn_addr_pool_get6 pool6 off) = off \<and>
    length (mqvpn_addr_pool_get6 pool6 off) = 16 \<and>
    take 12 (mqvpn_addr_pool_get6 pool6 off) = take 12 (ap_base6 pool6) \<and>
    unat (low32 (mqvpn_addr_pool_get6 pool6 off)) = unat (low32 (ap_base6 pool6)) + unat off \<and>
    unat (low32 (mqvpn_addr_pool_get6 pool6 off)) div 2 ^ nat (128 - ap_prefix6 pool6) =
      unat (low32 (ap_base6 pool6)) div 2 ^ nat (128 - ap_prefix6 pool6)"
proof -
  let ?b = "ap_base6 pool6" and ?h = "nat (128 - ap_prefix6 pool6)"
  have R: "\<exists>s. pton6 s = Some ?b" "ap_pool_size pool6 = ap_pool_size pool" "96 \<le> ap_prefix6 pool6"
    "unat (low32 ?b) mod 2 ^ ?h + unat (ap_pool_size pool) < 2 ^ ?h"
    using init6_room [OF assms(2)] by auto
  have len: "length ?b = 16" using R(1) assms(1) by (auto simp: pton6_bytes_def)
  note st = low32_store [OF len]
  let ?l = "unat (low32 ?b)" and ?o = "unat off"
  have m: "?l mod 2 ^ ?h + ?o < 2 ^ ?h" using R(4) assms(3) by linarith
  have split: "?l + ?o = 2 ^ ?h * (?l div 2 ^ ?h) + (?l mod 2 ^ ?h + ?o)" by simp
  have d: "(?l + ?o) div 2 ^ ?h = ?l div 2 ^ ?h" unfolding split by (rule div_mult_add [OF m])
  have "?l + ?o < 2 ^ 32"
  proof -
    have p: "(2 :: nat) ^ 32 = 2 ^ ?h * 2 ^ (32 - ?h)" using R(3) by (simp flip: power_add)
    have "?l div 2 ^ ?h < 2 ^ (32 - ?h)"
      using unat_u32_lt [of "low32 ?b"] p by (simp add: less_mult_imp_div_less mult.commute)
    then have "(?l + ?o) div 2 ^ ?h < 2 ^ (32 - ?h)" using d by simp
    then show ?thesis unfolding p by (simp add: div_less_iff_less_mult mult.commute)
  qed
  then have s: "unat (low32 ?b + off) = ?l + ?o" by (simp add: unat_word_ariths)
  then have lt: "(low32 ?b + off < low32 ?b) = False" by (simp add: word_less_nat_alt)
  show ?thesis
    using s d by (simp add: lt mqvpn_addr_pool_offset6_def mqvpn_addr_pool_get6_def st)
qed

definition ex_pton4 :: "string \<Rightarrow> u32 option" where
  "ex_pton4 s = (if s = ''10.0.0.0'' then Some 0x0A000000 else None)"

definition ex_pton6 :: "string \<Rightarrow> u8 list option" where
  "ex_pton6 s = (if s = ''fd00::'' then Some (0xfd # replicate 15 0) else None)"

definition ex_pool :: mqvpn_addr_pool where
  "ex_pool = the (mqvpn_addr_pool_init ex_pton4 ''10.0.0.0/30'')"

lemma ex_pool_init: "mqvpn_addr_pool_init ex_pton4 ''10.0.0.0/30'' = Some ex_pool"
  by code_simp

theorem addr_pool_leases_distinct_witness:
  "snd (run (lease_step mqvpn_addr_pool_alloc mqvpn_addr_pool_release) (ex_pool, []) [Take, Take, Give 0x0A000002, Take]) = [0x0A000002] \<and>
   mqvpn_addr_pool_server_addr ex_pool \<notin> {0x0A000002} \<and>
   mqvpn_addr_pool_alloc (fst (run (lease_step mqvpn_addr_pool_alloc mqvpn_addr_pool_release) (ex_pool, []) [Take])) = None"
proof -
  have r: "run (lease_step mqvpn_addr_pool_alloc mqvpn_addr_pool_release) (ex_pool, []) [Take, Take, Give 0x0A000002, Take] =
      (fst (run (lease_step mqvpn_addr_pool_alloc mqvpn_addr_pool_release) (ex_pool, []) [Take]), [0x0A000002])"
    by code_simp
  have z: "ap_pool_size ex_pool = 2" by code_simp
  from addr_pool_leases_distinct [OF ex_pool_init r] show ?thesis by (simp only: r z) simp
qed

theorem addr_pool6_roundtrip_witness:
  "\<exists>pool6. mqvpn_addr_pool_init6 ex_pton6 ex_pool ''fd00::/112'' = (True, pool6) \<and>
     mqvpn_addr_pool_offset6 pool6 (mqvpn_addr_pool_get6 pool6 2) = 2"
proof -
  have i: "mqvpn_addr_pool_init6 ex_pton6 ex_pool ''fd00::/112'' = (True, snd (mqvpn_addr_pool_init6 ex_pton6 ex_pool ''fd00::/112''))"
    by code_simp
  have b: "pton6_bytes ex_pton6" by (simp add: pton6_bytes_def ex_pton6_def)
  have "unat (2 :: u32) \<le> unat (ap_pool_size ex_pool)" by code_simp
  from addr_pool6_roundtrip [OF b i this] i show ?thesis by blast
qed

end
