(* ===== verification/Probe_Table.thy ===== *)
theory Probe_Table
  imports Prelude
begin

text \<open>
  The open-addressing table of the redundant sender (\<^verbatim>\<open>src/redundant_tx.c\<close>): linear probing, no
  eviction, and removal by shifting the following entries back. A pointer to an entry is its index.
  The loops carry a bound of one round over the slots; \<open>find_loop_spec\<close>, \<open>free_loop_spec\<close> and
  \<open>shift_loop_spec\<close> show that under the invariant they end by their own exits within it.
\<close>

section \<open>Tables\<close>

definition RTX_CAP :: nat where "RTX_CAP = 16384"
definition RTX_SLOTS :: nat where "RTX_SLOTS = 2 * RTX_CAP"

record rtx_ent =
  re_key :: u64
  re_a :: u64
  re_b :: int
  re_used :: bool
  re_len :: u16

record rtx_tab =
  tb_e :: "rtx_ent list"
  tb_n :: int

definition zero_ent :: rtx_ent where
  "zero_ent = \<lparr>re_key = 0, re_a = 0, re_b = 0, re_used = False, re_len = 0\<rparr>"

definition rtx_slot :: "u64 \<Rightarrow> nat" where
  "rtx_slot k = unat ((ucast (drop_bit 40 (k * 0x9E3779B97F4A7C15)) :: u32) AND (of_nat RTX_SLOTS - 1))"

definition slot_next :: "nat \<Rightarrow> nat" where
  "slot_next i = (i + 1) AND (RTX_SLOTS - 1)"

primrec find_loop :: "nat \<Rightarrow> rtx_ent list \<Rightarrow> u64 \<Rightarrow> nat \<Rightarrow> nat option" where
  "find_loop 0 e key i = None"
| "find_loop (Suc k) e key i =
     (if \<not> re_used (e ! i) then None
      else if re_key (e ! i) = key then Some i
      else find_loop k e key (slot_next i))"

definition tab_find :: "rtx_tab \<Rightarrow> u64 \<Rightarrow> nat option" where
  "tab_find t key = find_loop RTX_SLOTS (tb_e t) key (rtx_slot key)"

primrec free_loop :: "nat \<Rightarrow> rtx_ent list \<Rightarrow> nat \<Rightarrow> nat" where
  "free_loop 0 e i = i"
| "free_loop (Suc k) e i = (if re_used (e ! i) then free_loop k e (slot_next i) else i)"

definition tab_insert :: "rtx_tab \<Rightarrow> u64 \<Rightarrow> rtx_tab \<times> nat option" where
  "tab_insert t key =
     (if tb_n t \<ge> int RTX_CAP then (t, None)
      else (let i = free_loop RTX_SLOTS (tb_e t) (rtx_slot key)
            in (t\<lparr>tb_e := (tb_e t)[i := zero_ent\<lparr>re_used := True, re_key := key\<rparr>], tb_n := tb_n t + 1\<rparr>, Some i)))"

text \<open>The test that the home \<open>h\<close> lies cyclically in (i, j].\<close>

definition home_within :: "nat \<Rightarrow> nat \<Rightarrow> nat \<Rightarrow> bool" where
  "home_within i j h = (if i \<le> j then h > i \<and> h \<le> j else h > i \<or> h \<le> j)"

primrec shift_loop :: "nat \<Rightarrow> rtx_ent list \<Rightarrow> nat \<Rightarrow> nat \<Rightarrow> rtx_ent list \<times> nat" where
  "shift_loop 0 e i j = (e, i)"
| "shift_loop (Suc k) e i j =
     (let j = slot_next j
      in if \<not> re_used (e ! j) then (e, i)
         else if home_within i j (rtx_slot (re_key (e ! j))) then shift_loop k e i j
         else shift_loop k (e[i := e ! j]) j j)"

definition tab_remove :: "rtx_tab \<Rightarrow> nat \<Rightarrow> rtx_tab" where
  "tab_remove t i =
     (let (e, i) = shift_loop RTX_SLOTS (tb_e t) i i
      in t\<lparr>tb_e := e[i := (e ! i)\<lparr>re_used := False\<rparr>], tb_n := tb_n t - 1\<rparr>)"

text \<open>A write through the pointer to entry \<open>i\<close>.\<close>

definition tab_put :: "rtx_tab \<Rightarrow> nat \<Rightarrow> (rtx_ent \<Rightarrow> rtx_ent) \<Rightarrow> rtx_tab" where
  "tab_put t i f = t\<lparr>tb_e := (tb_e t)[i := f (tb_e t ! i)]\<rparr>"


section \<open>Cyclic distance\<close>

lemma RTX_SLOTS_pos: "1 < RTX_SLOTS" "RTX_CAP < RTX_SLOTS"
  by (simp_all add: RTX_SLOTS_def RTX_CAP_def)

lemma and_slots: "n AND (RTX_SLOTS - 1) = n mod RTX_SLOTS"
proof -
  have m: "RTX_SLOTS - 1 = mask 15" "RTX_SLOTS = 2 ^ 15" by (simp_all add: RTX_SLOTS_def RTX_CAP_def mask_eq_exp_minus_1)
  show ?thesis unfolding m(1) by (simp add: m(2) take_bit_eq_mod flip: take_bit_eq_mask)
qed

lemma slot_next: "i < RTX_SLOTS \<Longrightarrow> slot_next i = (if i + 1 = RTX_SLOTS then 0 else i + 1)"
  unfolding slot_next_def and_slots by auto

lemma rtx_slot_less: "rtx_slot k < RTX_SLOTS"
proof -
  have "unat (of_nat RTX_SLOTS :: u32) = 2 ^ 15" by (simp add: RTX_SLOTS_def RTX_CAP_def)
  then have "rtx_slot k = unat (ucast (drop_bit 40 (k * 0x9E3779B97F4A7C15)) :: u32) mod 2 ^ 15"
    unfolding rtx_slot_def by (rule and_pow2_mod)
  then show ?thesis by (simp add: RTX_SLOTS_def RTX_CAP_def)
qed

text \<open>How far a probe from \<open>h\<close> goes to reach \<open>x\<close>.\<close>

definition dist :: "nat \<Rightarrow> nat \<Rightarrow> nat" where
  "dist h x = (if h \<le> x then x - h else x + RTX_SLOTS - h)"

lemma dist_next: "h < RTX_SLOTS \<Longrightarrow> i < RTX_SLOTS \<Longrightarrow> dist h i < RTX_SLOTS - 1 \<Longrightarrow> dist h (slot_next i) = dist h i + 1"
  using RTX_SLOTS_pos by (auto simp: dist_def slot_next split: if_splits)

lemma dist_less: "h < RTX_SLOTS \<Longrightarrow> i < RTX_SLOTS \<Longrightarrow> dist h i < RTX_SLOTS"
  by (auto simp: dist_def)

lemma dist_inj: "h < RTX_SLOTS \<Longrightarrow> i < RTX_SLOTS \<Longrightarrow> j < RTX_SLOTS \<Longrightarrow> dist h i = dist h j \<Longrightarrow> i = j"
  by (auto simp: dist_def split: if_splits)

lemma dist_self [simp]: "dist h h = 0"
  by (simp add: dist_def)

lemma slot_next_less: "i < RTX_SLOTS \<Longrightarrow> slot_next i < RTX_SLOTS"
  using RTX_SLOTS_pos by (simp add: slot_next)

lemma home_within_dist:
  assumes "i < RTX_SLOTS" "j < RTX_SLOTS" "h < RTX_SLOTS" "i \<noteq> j"
  shows "home_within i j h \<longleftrightarrow> \<not> dist h i < dist h j"
  using assms by (auto simp: home_within_def dist_def split: if_splits)


section \<open>Invariant\<close>

definition slots_ok :: "rtx_ent list \<Rightarrow> bool" where
  "slots_ok e \<longleftrightarrow> length e = RTX_SLOTS \<and>
     (\<forall>i < RTX_SLOTS. \<forall>y < RTX_SLOTS. re_used (e ! i) \<and> dist (rtx_slot (re_key (e ! i))) y < dist (rtx_slot (re_key (e ! i))) i \<longrightarrow> re_used (e ! y)) \<and>
     (\<forall>i < RTX_SLOTS. \<forall>j < RTX_SLOTS. re_used (e ! i) \<and> re_used (e ! j) \<and> re_key (e ! i) = re_key (e ! j) \<longrightarrow> i = j) \<and>
     (\<exists>z < RTX_SLOTS. \<not> re_used (e ! z))"

lemma slots_okD:
  assumes "slots_ok e"
  shows "length e = RTX_SLOTS"
    and "\<And>i y. i < RTX_SLOTS \<Longrightarrow> y < RTX_SLOTS \<Longrightarrow> re_used (e ! i) \<Longrightarrow>
       dist (rtx_slot (re_key (e ! i))) y < dist (rtx_slot (re_key (e ! i))) i \<Longrightarrow> re_used (e ! y)"
    and "\<And>i j. i < RTX_SLOTS \<Longrightarrow> j < RTX_SLOTS \<Longrightarrow> re_used (e ! i) \<Longrightarrow> re_used (e ! j) \<Longrightarrow> re_key (e ! i) = re_key (e ! j) \<Longrightarrow> i = j"
    and "\<exists>z < RTX_SLOTS. \<not> re_used (e ! z)"
  using assms unfolding slots_ok_def by blast+

text \<open>A probe that has met only used slots has not yet come round to its start.\<close>

lemma probe_step:
  assumes "h < RTX_SLOTS" "i < RTX_SLOTS" "\<And>y. y < RTX_SLOTS \<Longrightarrow> dist h y \<le> dist h i \<Longrightarrow> U y" and "z < RTX_SLOTS" "\<not> U z"
  shows "dist h (slot_next i) = dist h i + 1" and "dist h i < dist h z"
proof -
  show lt: "dist h i < dist h z" using assms(3) [OF assms(4)] assms(5) by linarith
  then show "dist h (slot_next i) = dist h i + 1"
    using dist_less [OF assms(1,4)] by (intro dist_next assms(1,2)) linarith
qed

lemma find_loop_spec:
  assumes "slots_ok e" and "h < RTX_SLOTS" and "h = rtx_slot key"
    and "i < RTX_SLOTS" and "RTX_SLOTS \<le> k + dist h i"
    and "\<And>y. y < RTX_SLOTS \<Longrightarrow> dist h y < dist h i \<Longrightarrow> re_used (e ! y) \<and> re_key (e ! y) \<noteq> key"
  shows "case find_loop k e key i of
      Some x \<Rightarrow> x < RTX_SLOTS \<and> re_used (e ! x) \<and> re_key (e ! x) = key
    | None \<Rightarrow> \<not> (\<exists>x < RTX_SLOTS. re_used (e ! x) \<and> re_key (e ! x) = key)"
  using assms(4-)
proof (induction k arbitrary: i)
  case 0
  then show ?case using dist_less [OF assms(2)] by simp fastforce
next
  case (Suc k)
  note O = slots_okD [OF assms(1)]
  consider (free) "\<not> re_used (e ! i)" | (hit) "re_used (e ! i)" "re_key (e ! i) = key" | (on) "re_used (e ! i)" "re_key (e ! i) \<noteq> key" by blast
  then show ?case
  proof cases
    case free
    have "\<not> (re_used (e ! x) \<and> re_key (e ! x) = key)" if "x < RTX_SLOTS" for x
    proof
      assume x: "re_used (e ! x) \<and> re_key (e ! x) = key"
      have "\<not> dist h x < dist h i" using Suc.prems(3) [OF that] x by blast
      moreover have "\<not> dist h i < dist h x" using O(2) [OF that Suc.prems(1)] x free assms(3) by blast
      ultimately have "x = i" using dist_inj [OF assms(2) that Suc.prems(1)] by linarith
      then show False using x free by simp
    qed
    then show ?thesis using free by auto
  next
    case hit
    then show ?thesis using Suc.prems(1) by simp
  next
    case on
    obtain z where z: "z < RTX_SLOTS" "\<not> re_used (e ! z)" using O(4) by blast
    have u: "re_used (e ! y) \<and> re_key (e ! y) \<noteq> key" if "y < RTX_SLOTS" "dist h y \<le> dist h i" for y
      using Suc.prems(3) [OF that(1)] that dist_inj [OF assms(2) that(1) Suc.prems(1)] on by (cases "dist h y = dist h i") auto
    have d: "dist h (slot_next i) = dist h i + 1"
      by (rule probe_step(1) [OF assms(2) Suc.prems(1), of "\<lambda>y. re_used (e ! y)", OF _ z]) (use u in blast)
    have "case find_loop k e key (slot_next i) of
        Some x \<Rightarrow> x < RTX_SLOTS \<and> re_used (e ! x) \<and> re_key (e ! x) = key
      | None \<Rightarrow> \<not> (\<exists>x < RTX_SLOTS. re_used (e ! x) \<and> re_key (e ! x) = key)"
      by (rule Suc.IH) (use slot_next_less [OF Suc.prems(1)] Suc.prems(2) d u in auto)
    then show ?thesis using on by simp
  qed
qed

lemma free_loop_spec:
  assumes "h < RTX_SLOTS" and "z < RTX_SLOTS" "\<not> re_used (e ! z)"
    and "i < RTX_SLOTS" and "RTX_SLOTS \<le> k + dist h i" and "\<And>y. y < RTX_SLOTS \<Longrightarrow> dist h y < dist h i \<Longrightarrow> re_used (e ! y)"
  shows "free_loop k e i < RTX_SLOTS \<and> \<not> re_used (e ! free_loop k e i) \<and>
    (\<forall>y < RTX_SLOTS. dist h y < dist h (free_loop k e i) \<longrightarrow> re_used (e ! y))"
  using assms(4-)
proof (induction k arbitrary: i)
  case 0
  then show ?case using dist_less [OF assms(1)] by simp fastforce
next
  case (Suc k)
  show ?case
  proof (cases "re_used (e ! i)")
    case True
    have u: "re_used (e ! y)" if "y < RTX_SLOTS" "dist h y \<le> dist h i" for y
      using Suc.prems(3) [OF that(1)] that dist_inj [OF assms(1) that(1) Suc.prems(1)] True by (cases "dist h y = dist h i") auto
    have d: "dist h (slot_next i) = dist h i + 1"
      by (rule probe_step(1) [OF assms(1) Suc.prems(1), of "\<lambda>y. re_used (e ! y)", OF _ assms(2,3)]) (use u in blast)
    show ?thesis using True Suc.IH [of "slot_next i"] slot_next_less [OF Suc.prems(1)] Suc.prems(2) d u by auto
  next
    case False
    then show ?thesis using Suc.prems by simp
  qed
qed



section \<open>Backward shift\<close>

text \<open>
  While entries are shifted back, slot \<open>i\<close> is a hole, though still marked used: every entry but the
  hole's is reachable, and the entries between the hole and \<open>j\<close> are reachable without the hole.
  Positions are compared by their distance from the slot \<open>s\<close> the removal started at.
\<close>

definition reach_ok :: "rtx_ent list \<Rightarrow> nat \<Rightarrow> bool" where
  "reach_ok e i \<longleftrightarrow> length e = RTX_SLOTS \<and> i < RTX_SLOTS \<and> re_used (e ! i) \<and>
     (\<forall>k < RTX_SLOTS. \<forall>y < RTX_SLOTS. k \<noteq> i \<and> re_used (e ! k) \<and> dist (rtx_slot (re_key (e ! k))) y < dist (rtx_slot (re_key (e ! k))) k \<longrightarrow> re_used (e ! y)) \<and>
     (\<forall>k < RTX_SLOTS. \<forall>l < RTX_SLOTS. k \<noteq> i \<and> l \<noteq> i \<and> re_used (e ! k) \<and> re_used (e ! l) \<and> re_key (e ! k) = re_key (e ! l) \<longrightarrow> k = l)"

definition avoids :: "rtx_ent list \<Rightarrow> nat \<Rightarrow> nat \<Rightarrow> bool" where
  "avoids e i k \<longleftrightarrow> \<not> dist (rtx_slot (re_key (e ! k))) i < dist (rtx_slot (re_key (e ! k))) k"

definition off_hole :: "rtx_ent list \<Rightarrow> nat \<Rightarrow> rtx_ent set" where
  "off_hole e i = {e ! k | k. k < RTX_SLOTS \<and> k \<noteq> i \<and> re_used (e ! k)}"

lemma reach_okD:
  assumes "reach_ok e i"
  shows "length e = RTX_SLOTS" "i < RTX_SLOTS" "re_used (e ! i)"
    "\<And>k y. k < RTX_SLOTS \<Longrightarrow> y < RTX_SLOTS \<Longrightarrow> k \<noteq> i \<Longrightarrow> re_used (e ! k) \<Longrightarrow>
       dist (rtx_slot (re_key (e ! k))) y < dist (rtx_slot (re_key (e ! k))) k \<Longrightarrow> re_used (e ! y)"
    "\<And>k l. k < RTX_SLOTS \<Longrightarrow> l < RTX_SLOTS \<Longrightarrow> k \<noteq> i \<Longrightarrow> l \<noteq> i \<Longrightarrow> re_used (e ! k) \<Longrightarrow> re_used (e ! l) \<Longrightarrow> re_key (e ! k) = re_key (e ! l) \<Longrightarrow> k = l"
  using assms unfolding reach_ok_def by blast+

lemma move_used:
  assumes "reach_ok e i" and "j < RTX_SLOTS" "re_used (e ! j)"
  shows "y < RTX_SLOTS \<Longrightarrow> re_used (e[i := e ! j] ! y) \<longleftrightarrow> re_used (e ! y)"
  using reach_okD(1-3) [OF assms(1)] assms(3) by (auto simp: nth_list_update)

lemma move_reach:
  assumes "reach_ok e i" and "j < RTX_SLOTS" "re_used (e ! j)" "i \<noteq> j" and "\<not> avoids e i j"
  shows "reach_ok (e[i := e ! j]) j" and "off_hole (e[i := e ! j]) j = off_hole e i"
proof -
  note R = reach_okD [OF assms(1)] and U = move_used [OF assms(1-3)]
  let ?e = "e[i := e ! j]"
  have nth: "?e ! y = (if y = i then e ! j else e ! y)" if "y < RTX_SLOTS" for y
    using that R(1,2) by (simp add: nth_list_update)
  have path: "re_used (?e ! y)"
    if "k < RTX_SLOTS" "y < RTX_SLOTS" "k \<noteq> j" "re_used (?e ! k)" "dist (rtx_slot (re_key (?e ! k))) y < dist (rtx_slot (re_key (?e ! k))) k" for k y
  proof (cases "k = i")
    case True
    then have "dist (rtx_slot (re_key (e ! j))) y < dist (rtx_slot (re_key (e ! j))) j"
      using that(5) nth [OF R(2)] assms(5) by (simp add: avoids_def)
    then show ?thesis using R(4) [OF assms(2) that(2)] assms(3,4) U [OF that(2)] by auto
  next
    case False
    then show ?thesis using R(4) [OF that(1,2)] that nth [OF that(1)] U [OF that(2)] by auto
  qed
  have inj: "k = l"
    if "k < RTX_SLOTS" "l < RTX_SLOTS" "k \<noteq> j" "l \<noteq> j" "re_used (?e ! k)" "re_used (?e ! l)" "re_key (?e ! k) = re_key (?e ! l)" for k l
    using that R(5) [of k l] R(5) [of j l] R(5) [of k j] assms(2-4) by (auto simp: nth split: if_splits)
  show "reach_ok ?e j"
    unfolding reach_ok_def using R(1) assms(2) U [OF assms(2)] assms(3) path inj by (auto simp del: nth_list_update_eq)
  show "off_hole ?e j = off_hole e i"
  proof
    show "off_hole ?e j \<subseteq> off_hole e i"
      unfolding off_hole_def using assms(2-4) by (auto simp: nth split: if_splits)
    show "off_hole e i \<subseteq> off_hole ?e j"
    proof
      fix x assume "x \<in> off_hole e i"
      then obtain k where k: "k < RTX_SLOTS" "k \<noteq> i" "re_used (e ! k)" "x = e ! k" by (auto simp: off_hole_def)
      show "x \<in> off_hole ?e j"
        using k nth [OF k(1)] nth [OF R(2)] R(2) assms(3,4) unfolding off_hole_def
        by (cases "k = j") (auto intro: exI [of _ i] exI [of _ k])
    qed
  qed
qed

lemma last_avoids:
  assumes "reach_ok e i" and "s < RTX_SLOTS" "j' < RTX_SLOTS" "\<not> re_used (e ! j')" and "dist s i < dist s j'"
    and "k < RTX_SLOTS" "k \<noteq> i" "re_used (e ! k)" and "dist s k < dist s i \<or> dist s j' < dist s k"
  shows "avoids e i k"
proof (rule ccontr)
  let ?h = "rtx_slot (re_key (e ! k))"
  assume "\<not> avoids e i k"
  then have "dist ?h i < dist ?h k" by (simp add: avoids_def)
  moreover have "\<not> dist ?h j' < dist ?h k"
    using reach_okD(4) [OF assms(1,6,3,7,8)] assms(4) by blast
  ultimately show False
    using assms(2,3,5,6,9) rtx_slot_less [of "re_key (e ! k)"] reach_okD(2) [OF assms(1)]
    by (auto simp: dist_def split: if_splits)
qed

lemma shift_loop_spec:
  assumes "s < RTX_SLOTS" and "z < RTX_SLOTS" "\<not> re_used (e ! z)"
    and "reach_ok e i" and "j < RTX_SLOTS" and "dist s i \<le> dist s j" and "RTX_SLOTS \<le> n + dist s j"
    and "\<And>y. y < RTX_SLOTS \<Longrightarrow> dist s y \<le> dist s j \<Longrightarrow> re_used (e ! y)"
    and "\<And>k. k < RTX_SLOTS \<Longrightarrow> dist s i < dist s k \<Longrightarrow> dist s k \<le> dist s j \<Longrightarrow> avoids e i k"
    and "shift_loop n e i j = (e', i')"
  shows "reach_ok e' i' \<and> off_hole e' i' = off_hole e i \<and> (\<forall>y < RTX_SLOTS. re_used (e' ! y) \<longleftrightarrow> re_used (e ! y)) \<and>
    (\<forall>k < RTX_SLOTS. k \<noteq> i' \<and> re_used (e' ! k) \<longrightarrow> avoids e' i' k)"
  using assms(3-)
proof (induction n arbitrary: e i j)
  case 0
  then show ?case using dist_less [OF assms(1)] by simp fastforce
next
  case (Suc n)
  let ?j = "slot_next j"
  note R = reach_okD [OF Suc.prems(2)]
  have nx: "dist s ?j = dist s j + 1" and jz: "dist s j < dist s z"
    using probe_step [OF assms(1) Suc.prems(3), of "\<lambda>y. re_used (e ! y)", OF _ assms(2) Suc.prems(1)] Suc.prems(6) by blast+
  have jl: "?j < RTX_SLOTS" by (rule slot_next_less [OF Suc.prems(3)])
  have ij: "dist s i < dist s ?j" and ne: "i \<noteq> ?j" using nx Suc.prems(4) by auto
  show ?case
  proof (cases "re_used (e ! ?j)")
    case False
    have "avoids e i k" if "k < RTX_SLOTS" "k \<noteq> i" "re_used (e ! k)" for k
    proof (cases "dist s i < dist s k \<and> dist s k \<le> dist s j")
      case True
      then show ?thesis using Suc.prems(7) that(1) by blast
    next
      case out: False
      have "dist s k \<noteq> dist s i" "dist s k \<noteq> dist s ?j"
        using dist_inj [OF assms(1) that(1)] R(2) jl that False by auto
      then show ?thesis using last_avoids [OF Suc.prems(2) assms(1) jl False ij that] out nx by linarith
    qed
    then show ?thesis using False Suc.prems(2,8) by (simp add: Let_def)
  next
    case used: True
    have all: "re_used (e ! y)" if "y < RTX_SLOTS" "dist s y \<le> dist s ?j" for y
      using Suc.prems(6) [OF that(1)] that dist_inj [OF assms(1) that(1) jl] nx used by (cases "dist s y = dist s ?j") auto
    have hw: "home_within i ?j (rtx_slot (re_key (e ! ?j))) \<longleftrightarrow> avoids e i ?j"
      using home_within_dist [OF R(2) jl rtx_slot_less ne] by (simp add: avoids_def)
    show ?thesis
    proof (cases "avoids e i ?j")
      case True
      have "avoids e i k" if "k < RTX_SLOTS" "dist s i < dist s k" "dist s k \<le> dist s ?j" for k
        using Suc.prems(7) [OF that(1,2)] that True dist_inj [OF assms(1) that(1) jl] nx by (cases "dist s k = dist s ?j") auto
      moreover have "shift_loop n e i ?j = (e', i')" using Suc.prems(8) used hw True by (simp add: Let_def)
      ultimately show ?thesis
        using Suc.IH [OF Suc.prems(1,2) jl _ _ all] ij nx Suc.prems(5) by auto
    next
      case False
      note M = move_reach [OF Suc.prems(2) jl used ne False] and U = move_used [OF Suc.prems(2) jl used]
      have "shift_loop n (e[i := e ! ?j]) ?j ?j = (e', i')" using Suc.prems(8) used hw False by (simp add: Let_def)
      then have "reach_ok e' i' \<and> off_hole e' i' = off_hole (e[i := e ! ?j]) ?j \<and>
          (\<forall>y < RTX_SLOTS. re_used (e' ! y) \<longleftrightarrow> re_used (e[i := e ! ?j] ! y)) \<and> (\<forall>k < RTX_SLOTS. k \<noteq> i' \<and> re_used (e' ! k) \<longrightarrow> avoids e' i' k)"
        using Suc.IH [OF _ M(1) jl order_refl] U assms(2) Suc.prems(1,5) nx all by (simp del: nth_list_update_eq nth_list_update_neq)
      then show ?thesis using M(2) U by blast
    qed
  qed
qed



end
