(* ===== verification/Rtx_Table.thy ===== *)
theory Rtx_Table
  imports Probe_Table
begin

text \<open>
  The table of \<^verbatim>\<open>src/redundant_tx.c\<close> as a finite map: lookup, insertion, a write through an entry's pointer and
  removal, the interface \<open>entry_table\<close> the redundant sender relies on, and the weights by which it
  counts entries.
\<close>


section \<open>Tables as maps\<close>

definition ents :: "rtx_ent list \<Rightarrow> rtx_ent set" where
  "ents e = {e ! k | k. k < RTX_SLOTS \<and> re_used (e ! k)}"

definition tab_ok :: "rtx_tab \<Rightarrow> bool" where
  "tab_ok t \<longleftrightarrow> slots_ok (tb_e t) \<and> tb_n t = int (card {i. i < RTX_SLOTS \<and> re_used (tb_e t ! i)}) \<and> tb_n t \<le> int RTX_CAP"

definition tab_abs :: "rtx_tab \<Rightarrow> u64 \<Rightarrow> rtx_ent option" where
  "tab_abs t key = map_option (\<lambda>i. tb_e t ! i) (tab_find t key)"

lemma tab_find_Some:
  assumes "tab_ok t"
  shows "tab_find t key = Some i \<longleftrightarrow> i < RTX_SLOTS \<and> re_used (tb_e t ! i) \<and> re_key (tb_e t ! i) = key"
proof -
  have ok: "slots_ok (tb_e t)" using assms by (simp add: tab_ok_def)
  have "case tab_find t key of
      Some x \<Rightarrow> x < RTX_SLOTS \<and> re_used (tb_e t ! x) \<and> re_key (tb_e t ! x) = key
    | None \<Rightarrow> \<not> (\<exists>x < RTX_SLOTS. re_used (tb_e t ! x) \<and> re_key (tb_e t ! x) = key)"
    unfolding tab_find_def by (rule find_loop_spec [OF ok rtx_slot_less refl rtx_slot_less]) auto
  then show ?thesis using slots_okD(3) [OF ok] by (auto split: option.splits)
qed

lemma tab_abs_Some:
  assumes "tab_ok t"
  shows "tab_abs t key = Some x \<longleftrightarrow> x \<in> ents (tb_e t) \<and> re_key x = key"
  using tab_find_Some [OF assms, of key] unfolding tab_abs_def ents_def by auto

lemma option_eqI: "(\<And>x. a = Some x \<longleftrightarrow> b = Some x) \<Longrightarrow> a = b"
  by (cases a; cases b) auto

lemma tab_abs_update:
  assumes "tab_ok t" and "tab_ok t'" and "\<And>x. x \<in> ents (tb_e t') \<longleftrightarrow> x = new \<or> x \<in> ents (tb_e t) \<and> re_key x \<noteq> re_key new"
  shows "tab_abs t' = (tab_abs t)(re_key new \<mapsto> new)"
  by (intro ext option_eqI) (auto simp: tab_abs_Some [OF assms(2)] tab_abs_Some [OF assms(1)] assms(3))

lemma tab_abs_delete:
  assumes "tab_ok t" and "tab_ok t'" and "\<And>x. x \<in> ents (tb_e t') \<longleftrightarrow> x \<in> ents (tb_e t) \<and> re_key x \<noteq> key"
  shows "tab_abs t' = (tab_abs t)(key := None)"
  by (intro ext option_eqI) (auto simp: tab_abs_Some [OF assms(2)] tab_abs_Some [OF assms(1)] assms(3))

lemma ents_update:
  assumes "length e = RTX_SLOTS" and "i < RTX_SLOTS"
  shows "ents (e[i := x]) = (if re_used x then {x} else {}) \<union> off_hole e i"
proof -
  have nth: "e[i := x] ! k = (if k = i then x else e ! k)" if "k < RTX_SLOTS" for k
    using that assms by (simp add: nth_list_update)
  have E: "ents e = (!) e ` {k. k < RTX_SLOTS \<and> re_used (e ! k)}" and H: "off_hole e i = (!) e ` {k. k < RTX_SLOTS \<and> k \<noteq> i \<and> re_used (e ! k)}" for e
    unfolding ents_def off_hole_def by auto
  have "{k. k < RTX_SLOTS \<and> re_used (e[i := x] ! k)} = (if re_used x then {i} else {}) \<union> {k. k < RTX_SLOTS \<and> k \<noteq> i \<and> re_used (e ! k)}"
    using assms(2) by (auto simp: nth split: if_splits)
  moreover have "(!) (e[i := x]) ` {k. k < RTX_SLOTS \<and> k \<noteq> i \<and> re_used (e ! k)} = off_hole e i"
    unfolding H by (rule image_cong) (auto simp: nth)
  moreover have "e[i := x] ! i = x" using nth [OF assms(2)] by simp
  ultimately show ?thesis unfolding E by simp
qed

lemma off_hole_ents:
  assumes "slots_ok e" and "i < RTX_SLOTS" and "re_used (e ! i)"
  shows "off_hole e i = {x \<in> ents e. re_key x \<noteq> re_key (e ! i)}"
  using slots_okD(3) [OF assms(1) _ assms(2) _ assms(3)] unfolding off_hole_def ents_def by blast

lemma slots_okI:
  assumes "length e = RTX_SLOTS"
    and "\<And>i y. i < RTX_SLOTS \<Longrightarrow> y < RTX_SLOTS \<Longrightarrow> re_used (e ! i) \<Longrightarrow>
       dist (rtx_slot (re_key (e ! i))) y < dist (rtx_slot (re_key (e ! i))) i \<Longrightarrow> re_used (e ! y)"
    and "\<And>i j. i < RTX_SLOTS \<Longrightarrow> j < RTX_SLOTS \<Longrightarrow> re_used (e ! i) \<Longrightarrow> re_used (e ! j) \<Longrightarrow> re_key (e ! i) = re_key (e ! j) \<Longrightarrow> i = j"
    and "\<exists>z < RTX_SLOTS. \<not> re_used (e ! z)"
  shows "slots_ok e"
  unfolding slots_ok_def using assms by blast

lemma free_slot:
  assumes "int (card {i. i < RTX_SLOTS \<and> re_used (e ! i)}) \<le> int RTX_CAP"
  shows "\<exists>z < RTX_SLOTS. \<not> re_used (e ! z)"
proof (rule ccontr)
  assume "\<not> (\<exists>z < RTX_SLOTS. \<not> re_used (e ! z))"
  then have "{i. i < RTX_SLOTS \<and> re_used (e ! i)} = {..<RTX_SLOTS}" by auto
  then show False using assms RTX_SLOTS_pos(2) by simp
qed

lemma tab_insert_spec:
  assumes "tab_ok t" and "tb_n t < int RTX_CAP" and "tab_abs t key = None" and "tab_insert t key = (t', r)"
  shows "\<exists>i. r = Some i \<and> tab_ok t' \<and> tab_find t' key = Some i \<and> tb_n t' = tb_n t + 1 \<and>
    tab_abs t' = (tab_abs t)(key \<mapsto> zero_ent\<lparr>re_used := True, re_key := key\<rparr>)"
proof -
  let ?e = "tb_e t" and ?x = "zero_ent\<lparr>re_used := True, re_key := key\<rparr>"
  have ok: "slots_ok ?e" using assms(1) by (simp add: tab_ok_def)
  note O = slots_okD [OF ok]
  obtain z where z: "z < RTX_SLOTS" "\<not> re_used (?e ! z)" using O(4) by blast
  define i where "i = free_loop RTX_SLOTS ?e (rtx_slot key)"
  have F: "free_loop RTX_SLOTS ?e (rtx_slot key) < RTX_SLOTS \<and> \<not> re_used (?e ! free_loop RTX_SLOTS ?e (rtx_slot key)) \<and>
      (\<forall>y < RTX_SLOTS. dist (rtx_slot key) y < dist (rtx_slot key) (free_loop RTX_SLOTS ?e (rtx_slot key)) \<longrightarrow> re_used (?e ! y))"
    by (rule free_loop_spec [OF rtx_slot_less z rtx_slot_less]) simp_all
  have i: "i < RTX_SLOTS" "\<not> re_used (?e ! i)" "\<And>y. y < RTX_SLOTS \<Longrightarrow> dist (rtx_slot key) y < dist (rtx_slot key) i \<Longrightarrow> re_used (?e ! y)"
    using F by (auto simp: i_def)
  have t': "t' = t\<lparr>tb_e := ?e[i := ?x], tb_n := tb_n t + 1\<rparr>" and r: "r = Some i"
    using assms(2,4) by (auto simp: tab_insert_def i_def Let_def)
  have nth: "?e[i := ?x] ! y = (if y = i then ?x else ?e ! y)" if "y < RTX_SLOTS" for y
    using that O(1) i(1) by (simp add: nth_list_update)
  have nokey: "re_key (?e ! k) \<noteq> key" if "k < RTX_SLOTS" "re_used (?e ! k)" for k
    using assms(3) that tab_find_Some [OF assms(1), of key k] by (auto simp: tab_abs_def)
  have "{k. k < RTX_SLOTS \<and> re_used (?e[i := ?x] ! k)} = insert i {k. k < RTX_SLOTS \<and> re_used (?e ! k)}"
    using i(1) by (auto simp: nth split: if_splits)
  then have card: "card {k. k < RTX_SLOTS \<and> re_used (?e[i := ?x] ! k)} = card {k. k < RTX_SLOTS \<and> re_used (?e ! k)} + 1"
    using i(2) by (simp add: card_insert_if)
  then have n: "int (card {k. k < RTX_SLOTS \<and> re_used (?e[i := ?x] ! k)}) = tb_n t + 1" using assms(1) by (simp add: tab_ok_def)
  have path: "re_used (?e[i := ?x] ! y)"
    if "k < RTX_SLOTS" "y < RTX_SLOTS" "re_used (?e[i := ?x] ! k)"
      "dist (rtx_slot (re_key (?e[i := ?x] ! k))) y < dist (rtx_slot (re_key (?e[i := ?x] ! k))) k" for k y
    using that i(3) [OF that(2)] O(2) [OF that(1,2)] by (auto simp: nth split: if_splits)
  have inj: "k = l" if "k < RTX_SLOTS" "l < RTX_SLOTS" "re_used (?e[i := ?x] ! k)" "re_used (?e[i := ?x] ! l)"
      "re_key (?e[i := ?x] ! k) = re_key (?e[i := ?x] ! l)" for k l
    using that O(3) [OF that(1,2)] nokey [OF that(1)] nokey [OF that(2)] by (auto simp: nth split: if_splits)
  have free: "\<exists>z < RTX_SLOTS. \<not> re_used (?e[i := ?x] ! z)"
    by (rule free_slot) (use n assms(2) in linarith)
  have "slots_ok (?e[i := ?x])" by (rule slots_okI [OF _ path inj free]) (simp_all add: O(1))
  then have ok': "tab_ok t'" using n assms(2) by (simp add: tab_ok_def t')
  have "x \<in> ents (tb_e t') \<longleftrightarrow> x = ?x \<or> x \<in> ents ?e \<and> re_key x \<noteq> re_key ?x" for x
  proof -
    have "off_hole ?e i = ents ?e" using i(2) unfolding off_hole_def ents_def by auto
    moreover have "re_key x \<noteq> key" if "x \<in> ents ?e" using nokey that unfolding ents_def by auto
    ultimately show ?thesis unfolding t' using ents_update [OF O(1) i(1), of ?x] by auto
  qed
  from tab_abs_update [OF assms(1) ok' this] have "tab_abs t' = (tab_abs t)(key \<mapsto> ?x)" by simp
  moreover have "tab_find t' key = Some i" unfolding tab_find_Some [OF ok'] using i(1) by (simp add: t' nth)
  ultimately show ?thesis using ok' r by (simp add: t')
qed

lemma tab_put_spec:
  assumes "tab_ok t" and "tab_find t key = Some i" and "\<And>x. re_key (f x) = re_key x \<and> re_used (f x) = re_used x"
  shows "tab_ok (tab_put t i f) \<and> tab_find (tab_put t i f) = tab_find t \<and> tb_n (tab_put t i f) = tb_n t \<and>
    tab_abs (tab_put t i f) = (tab_abs t)(key \<mapsto> f (tb_e t ! i))"
proof -
  let ?e = "tb_e t"
  have i: "i < RTX_SLOTS" "re_used (?e ! i)" "re_key (?e ! i) = key" using assms(2) by (simp_all add: tab_find_Some [OF assms(1)])
  have len: "length ?e = RTX_SLOTS" using assms(1) by (simp add: tab_ok_def slots_ok_def)
  have nth: "?e[i := f (?e ! i)] ! y = (if y = i then f (?e ! i) else ?e ! y)" if "y < RTX_SLOTS" for y
    using that len i(1) by (simp add: nth_list_update)
  have same: "re_used (?e[i := f (?e ! i)] ! y) = re_used (?e ! y)" "re_key (?e[i := f (?e ! i)] ! y) = re_key (?e ! y)"
    if "y < RTX_SLOTS" for y
    using nth [OF that] assms(3) by auto
  have c: "{k. k < RTX_SLOTS \<and> re_used (?e[i := f (?e ! i)] ! k)} = {k. k < RTX_SLOTS \<and> re_used (?e ! k)}"
    using same(1) by blast
  have ok: "slots_ok ?e" using assms(1) by (simp add: tab_ok_def)
  note O = slots_okD [OF ok]
  have "slots_ok (?e[i := f (?e ! i)])"
  proof (rule slots_okI)
    show "length (?e[i := f (?e ! i)]) = RTX_SLOTS" by (simp add: len)
    show "\<exists>z < RTX_SLOTS. \<not> re_used (?e[i := f (?e ! i)] ! z)" using O(4) same(1) by blast
    show "re_used (?e[i := f (?e ! i)] ! y)" if "k < RTX_SLOTS" "y < RTX_SLOTS" "re_used (?e[i := f (?e ! i)] ! k)"
      "dist (rtx_slot (re_key (?e[i := f (?e ! i)] ! k))) y < dist (rtx_slot (re_key (?e[i := f (?e ! i)] ! k))) k" for k y
      using O(2) [OF that(1,2)] that(3,4) unfolding same [OF that(1)] same [OF that(2)] by blast
    show "k = l" if "k < RTX_SLOTS" "l < RTX_SLOTS" "re_used (?e[i := f (?e ! i)] ! k)" "re_used (?e[i := f (?e ! i)] ! l)"
      "re_key (?e[i := f (?e ! i)] ! k) = re_key (?e[i := f (?e ! i)] ! l)" for k l
      using O(3) [OF that(1,2)] that(3-) unfolding same [OF that(1)] same [OF that(2)] by blast
  qed
  then have ok': "tab_ok (tab_put t i f)" using assms(1) by (simp add: tab_ok_def tab_put_def c)
  have pe: "tb_e (tab_put t i f) = ?e[i := f (?e ! i)]" "tb_n (tab_put t i f) = tb_n t" by (simp_all add: tab_put_def)
  have fe: "tab_find (tab_put t i f) k = tab_find t k" for k
  proof (rule option_eqI)
    fix x
    show "tab_find (tab_put t i f) k = Some x \<longleftrightarrow> tab_find t k = Some x"
      unfolding tab_find_Some [OF ok'] tab_find_Some [OF assms(1)] pe by (rule conj_cong [OF refl]) (simp only: same)
  qed
  have "tab_abs (tab_put t i f) k = ((tab_abs t)(key \<mapsto> f (?e ! i))) k" for k
  proof (cases "tab_find t k")
    case None
    then have "k \<noteq> key" using assms(2) by auto
    then show ?thesis using None by (simp add: tab_abs_def fe)
  next
    case (Some j)
    then have j: "j < RTX_SLOTS" "re_key (?e ! j) = k" by (simp_all add: tab_find_Some [OF assms(1)])
    have "j = i \<longleftrightarrow> k = key" using i(3) assms(2) Some j(2) by (metis option.inject)
    then show ?thesis using Some nth [OF j(1)] unfolding tab_abs_def fe pe by simp
  qed
  then have "tab_abs (tab_put t i f) = (tab_abs t)(key \<mapsto> f (?e ! i))" by (rule ext)
  moreover have "tab_find (tab_put t i f) = tab_find t" by (rule ext) (rule fe)
  ultimately show ?thesis using ok' pe(2) by (intro conjI)
qed

lemma tab_remove_spec:
  assumes "tab_ok t" and "tab_find t key = Some i"
  shows "tab_ok (tab_remove t i) \<and> tb_n (tab_remove t i) = tb_n t - 1 \<and> tab_abs (tab_remove t i) = (tab_abs t)(key := None)"
proof -
  let ?e = "tb_e t"
  have i: "i < RTX_SLOTS" "re_used (?e ! i)" "re_key (?e ! i) = key" using assms(2) by (simp_all add: tab_find_Some [OF assms(1)])
  have ok: "slots_ok ?e" using assms(1) by (simp add: tab_ok_def)
  note O = slots_okD [OF ok]
  obtain z where z: "z < RTX_SLOTS" "\<not> re_used (?e ! z)" using O(4) by blast
  obtain e' i' where sl: "shift_loop RTX_SLOTS ?e i i = (e', i')" by fastforce
  have re: "reach_ok ?e i" unfolding reach_ok_def using O(1-3) i by blast
  have S: "reach_ok e' i' \<and> off_hole e' i' = off_hole ?e i \<and> (\<forall>y < RTX_SLOTS. re_used (e' ! y) \<longleftrightarrow> re_used (?e ! y)) \<and>
    (\<forall>k < RTX_SLOTS. k \<noteq> i' \<and> re_used (e' ! k) \<longrightarrow> avoids e' i' k)"
  proof (rule shift_loop_spec [OF i(1) z re i(1) order_refl _ _ _ sl])
    show "re_used (?e ! y)" if "y < RTX_SLOTS" "dist i y \<le> dist i i" for y
    proof -
      have "dist i y = dist i i" using that(2) by simp
      then show ?thesis using dist_inj [OF i(1) that(1) i(1)] i(2) by blast
    qed
  qed simp_all
  then have R: "reach_ok e' i'" and off: "off_hole e' i' = off_hole ?e i" and used: "\<And>y. y < RTX_SLOTS \<Longrightarrow> re_used (e' ! y) \<longleftrightarrow> re_used (?e ! y)"
    and av: "\<And>k. k < RTX_SLOTS \<Longrightarrow> k \<noteq> i' \<Longrightarrow> re_used (e' ! k) \<Longrightarrow> avoids e' i' k"
    by blast+
  note Q = reach_okD [OF R]
  let ?x = "(e' ! i')\<lparr>re_used := False\<rparr>"
  let ?f = "e'[i' := ?x]"
  have t': "tab_remove t i = t\<lparr>tb_e := ?f, tb_n := tb_n t - 1\<rparr>" by (simp add: tab_remove_def sl)
  have nth: "?f ! y = (if y = i' then ?x else e' ! y)" if "y < RTX_SLOTS" for y
    using that Q(1,2) by (simp add: nth_list_update)
  have U: "re_used (?f ! y) \<longleftrightarrow> y \<noteq> i' \<and> re_used (e' ! y)" if "y < RTX_SLOTS" for y
    using nth [OF that] by simp
  have K: "re_key (?f ! y) = re_key (e' ! y)" if "y < RTX_SLOTS" for y
    using nth [OF that] by simp
  have ok': "slots_ok ?f"
  proof (rule slots_okI)
    show "length ?f = RTX_SLOTS" using Q(1) by simp
    show "\<exists>z < RTX_SLOTS. \<not> re_used (?f ! z)" using U [OF Q(2)] Q(2) by blast
    show "re_used (?f ! y)" if "k < RTX_SLOTS" "y < RTX_SLOTS" "re_used (?f ! k)"
      "dist (rtx_slot (re_key (?f ! k))) y < dist (rtx_slot (re_key (?f ! k))) k" for k y
      using that Q(4) [OF that(1,2)] av [OF that(1)] unfolding U [OF that(1)] U [OF that(2)] K [OF that(1)] avoids_def by blast
    show "k = l" if "k < RTX_SLOTS" "l < RTX_SLOTS" "re_used (?f ! k)" "re_used (?f ! l)" "re_key (?f ! k) = re_key (?f ! l)" for k l
      using that Q(5) [OF that(1,2)] unfolding U [OF that(1)] U [OF that(2)] K [OF that(1)] K [OF that(2)] by blast
  qed
  let ?A = "{k. k < RTX_SLOTS \<and> re_used (?e ! k)}"
  have f: "{k. k < RTX_SLOTS \<and> re_used (?f ! k)} = ?A - {i'}" using U used by blast
  have mem: "i' \<in> ?A" using Q(2,3) used by blast
  have "finite ?A" by simp
  then have "card ?A = Suc (card (?A - {i'}))" using mem by (rule card.remove)
  moreover have "tb_n t = int (card ?A)" using assms(1) unfolding tab_ok_def by blast
  ultimately have "int (card {k. k < RTX_SLOTS \<and> re_used (?f ! k)}) = tb_n t - 1" unfolding f by linarith
  then have tok: "tab_ok (tab_remove t i)" using ok' assms(1) by (simp add: tab_ok_def t')
  have "ents ?f = {x \<in> ents ?e. re_key x \<noteq> key}"
    using ents_update [OF Q(1,2), of ?x] off off_hole_ents [OF ok i(1,2)] i(3) by simp
  then have "tab_abs (tab_remove t i) = (tab_abs t)(key := None)"
    by (intro tab_abs_delete [OF assms(1) tok]) (simp add: t')
  then show ?thesis using tok by (simp add: t')
qed


lemma tab_n_dom:
  assumes "tab_ok t"
  shows "tb_n t = int (card (dom (tab_abs t)))" and "finite (dom (tab_abs t))"
proof -
  let ?A = "{k. k < RTX_SLOTS \<and> re_used (tb_e t ! k)}"
  have d: "dom (tab_abs t) = (\<lambda>k. re_key (tb_e t ! k)) ` ?A"
  proof
    show "dom (tab_abs t) \<subseteq> (\<lambda>k. re_key (tb_e t ! k)) ` ?A"
    proof
      fix k assume "k \<in> dom (tab_abs t)"
      then obtain i where "tab_find t k = Some i" by (auto simp: tab_abs_def)
      then show "k \<in> (\<lambda>k. re_key (tb_e t ! k)) ` ?A" unfolding tab_find_Some [OF assms] by blast
    qed
    show "(\<lambda>k. re_key (tb_e t ! k)) ` ?A \<subseteq> dom (tab_abs t)"
    proof
      fix k assume "k \<in> (\<lambda>k. re_key (tb_e t ! k)) ` ?A"
      then obtain i where "tab_find t k = Some i" using tab_find_Some [OF assms] by blast
      then show "k \<in> dom (tab_abs t)" by (simp add: tab_abs_def dom_def)
    qed
  qed
  have ok: "slots_ok (tb_e t)" and n: "tb_n t = int (card ?A)" using assms unfolding tab_ok_def by blast+
  have "inj_on (\<lambda>k. re_key (tb_e t ! k)) ?A"
    by (rule inj_onI) (use slots_okD(3) [OF ok] in blast)
  then show "tb_n t = int (card (dom (tab_abs t)))" "finite (dom (tab_abs t))"
    using n by (simp_all add: d card_image)
qed

definition empty_tab :: rtx_tab where
  "empty_tab = \<lparr>tb_e = replicate RTX_SLOTS zero_ent, tb_n = 0\<rparr>"

lemma empty_tab_ok: "tab_ok empty_tab" and tab_abs_empty: "tab_abs empty_tab = (\<lambda>_. None)"
proof -
  have u: "\<not> re_used (replicate RTX_SLOTS zero_ent ! i)" if "i < RTX_SLOTS" for i
    using that by (simp add: zero_ent_def)
  have "slots_ok (replicate RTX_SLOTS zero_ent)"
    by (rule slots_okI) (use u RTX_SLOTS_pos in auto)
  moreover have "{i. i < RTX_SLOTS \<and> re_used (replicate RTX_SLOTS zero_ent ! i)} = {}" using u by blast
  ultimately show ok: "tab_ok empty_tab" by (simp add: tab_ok_def empty_tab_def)
  show "tab_abs empty_tab = (\<lambda>_. None)"
  proof (intro ext option_eqI)
    show "tab_abs empty_tab k = Some x \<longleftrightarrow> None = Some x" for k x
      unfolding tab_abs_Some [OF ok] using u by (auto simp: empty_tab_def ents_def)
  qed
qed


section \<open>Weights of the entries\<close>

text \<open>The total weight of the entries of a map, and how each operation changes it.\<close>

definition weight :: "('k \<Rightarrow> 'e option) \<Rightarrow> ('e \<Rightarrow> nat) \<Rightarrow> nat" where
  "weight m w = (\<Sum>k \<in> dom m. w (the (m k)))"

lemma weight_insert:
  assumes "finite (dom m)" and "m k = None"
  shows "weight (m(k \<mapsto> x)) w = weight m w + w x"
proof -
  have "k \<notin> dom m" using assms(2) by auto
  moreover have "(\<Sum>j \<in> dom m. w (the ((m(k \<mapsto> x)) j))) = (\<Sum>j \<in> dom m. w (the (m j)))"
    by (rule sum.cong) (use assms(2) in auto)
  ultimately show ?thesis using assms(1) by (simp add: weight_def)
qed

lemma weight_delete:
  assumes "finite (dom m)" and "m k = Some y"
  shows "weight (m(k := None)) w + w y = weight m w"
proof -
  have "m = (m(k := None))(k \<mapsto> y)" using assms(2) by auto
  then have "weight m w = weight ((m(k := None))(k \<mapsto> y)) w" by simp
  also have "\<dots> = weight (m(k := None)) w + w y" by (rule weight_insert) (use assms(1) in auto)
  finally show ?thesis by simp
qed

lemma weight_update:
  assumes "finite (dom m)" and "m k = Some y"
  shows "weight (m(k \<mapsto> x)) w + w y = weight m w + w x"
proof -
  have "weight ((m(k := None))(k \<mapsto> x)) w = weight (m(k := None)) w + w x" by (rule weight_insert) (use assms(1) in auto)
  then show ?thesis using weight_delete [OF assms, of w] by simp
qed

lemma weight_pos: "finite (dom m) \<Longrightarrow> m k = Some x \<Longrightarrow> w x \<le> weight m w"
  unfolding weight_def by (metis domI member_le_sum option.sel zero_le)

lemma weight_zero: "finite (dom m) \<Longrightarrow> weight m w = 0 \<longleftrightarrow> (\<forall>k x. m k = Some x \<longrightarrow> w x = 0)"
  by (auto simp: weight_def dom_def)


section \<open>The interface of the tables\<close>

locale entry_table =
  fixes ok :: "'t \<Rightarrow> bool" and entries :: "'t \<Rightarrow> 'k \<Rightarrow> 'e option" and count :: "'t \<Rightarrow> int" and cap :: int
    and find :: "'t \<Rightarrow> 'k \<Rightarrow> 'p option" and ins :: "'t \<Rightarrow> 'k \<Rightarrow> 't \<times> 'p option"
    and put :: "'t \<Rightarrow> 'p \<Rightarrow> ('e \<Rightarrow> 'e) \<Rightarrow> 't" and rem :: "'t \<Rightarrow> 'p \<Rightarrow> 't"
    and fresh :: "'k \<Rightarrow> 'e" and keeps :: "('e \<Rightarrow> 'e) \<Rightarrow> bool"
  assumes find_None: "ok t \<Longrightarrow> find t k = None \<longleftrightarrow> entries t k = None"
    and count_entries: "ok t \<Longrightarrow> count t = int (card (dom (entries t))) \<and> finite (dom (entries t)) \<and> count t \<le> cap"
    and ins_ok: "ok t \<Longrightarrow> count t < cap \<Longrightarrow> entries t k = None \<Longrightarrow> ins t k = (t', r) \<Longrightarrow>
      \<exists>p. r = Some p \<and> ok t' \<and> find t' k = Some p \<and> entries t' = (entries t)(k \<mapsto> fresh k)"
    and put_ok: "ok t \<Longrightarrow> find t k = Some p \<Longrightarrow> keeps f \<Longrightarrow>
      ok (put t p f) \<and> find (put t p f) = find t \<and> entries (put t p f) = (entries t)(k \<mapsto> f (the (entries t k)))"
    and rem_ok: "ok t \<Longrightarrow> find t k = Some p \<Longrightarrow> ok (rem t p) \<and> entries (rem t p) = (entries t)(k := None)"
begin

lemma find_Some: "ok t \<Longrightarrow> find t k = Some p \<Longrightarrow> \<exists>x. entries t k = Some x"
  using find_None [of t k] by auto

text \<open>A new entry written at once: the table gains one entry and every weight the new entry's.\<close>

lemma ins_put:
  assumes "ok t" "count t < cap" "entries t k = None" "ins t k = (t', r)" "keeps f"
  shows "\<exists>p. r = Some p \<and> ok (put t' p f) \<and> find (put t' p f) k = Some p \<and> entries (put t' p f) = (entries t)(k \<mapsto> f (fresh k)) \<and>
    count (put t' p f) = count t + 1 \<and> (\<forall>w. weight (entries (put t' p f)) w = weight (entries t) w + w (f (fresh k)))"
proof -
  obtain p where p: "r = Some p" "ok t'" "find t' k = Some p" "entries t' = (entries t)(k \<mapsto> fresh k)"
    using ins_ok [OF assms(1-4)] by blast
  have q: "ok (put t' p f)" "find (put t' p f) = find t'" "entries (put t' p f) = (entries t)(k \<mapsto> f (fresh k))"
    using put_ok [OF p(2,3) assms(5)] by (auto simp: p(4))
  have fin: "finite (dom (entries t))" using count_entries [OF assms(1)] by blast
  have "card (dom (entries (put t' p f))) = card (dom (entries t)) + 1"
    unfolding q(3) using fin assms(3) by (simp add: card_insert_if domIff)
  then have "count (put t' p f) = count t + 1" using count_entries [OF q(1)] count_entries [OF assms(1)] by simp
  then show ?thesis using p q weight_insert [OF fin assms(3)] by auto
qed

lemma put_weight:
  assumes "ok t" "find t k = Some p" "keeps f"
  shows "weight (entries (put t p f)) w + w (the (entries t k)) = weight (entries t) w + w (f (the (entries t k)))"
    and "count (put t p f) = count t"
proof -
  obtain x where x: "entries t k = Some x" using find_Some [OF assms(1,2)] by blast
  note P = put_ok [OF assms] and C = count_entries [OF assms(1)]
  show "weight (entries (put t p f)) w + w (the (entries t k)) = weight (entries t) w + w (f (the (entries t k)))"
    using weight_update [of "entries t" k x "f x" w] C P x by simp
  have "dom (entries (put t p f)) = dom (entries t)" using P x by auto
  then show "count (put t p f) = count t" using count_entries [of "put t p f"] P C by simp
qed

lemma rem_weight:
  assumes "ok t" "find t k = Some p"
  shows "weight (entries (rem t p)) w + w (the (entries t k)) = weight (entries t) w"
    and "count (rem t p) = count t - 1"
proof -
  obtain x where x: "entries t k = Some x" using find_Some [OF assms] by blast
  note P = rem_ok [OF assms] and C = count_entries [OF assms(1)]
  show "weight (entries (rem t p)) w + w (the (entries t k)) = weight (entries t) w"
    using weight_delete [of "entries t" k x w] C P x by simp
  have "card (dom (entries t)) = Suc (card (dom (entries t) - {k}))"
    by (rule card.remove) (use C x in auto)
  moreover have "count (rem t p) = int (card (dom (entries (rem t p))))" using count_entries [of "rem t p"] P by blast
  moreover have "dom (entries (rem t p)) = dom (entries t) - {k}" using P by auto
  moreover have "count t = int (card (dom (entries t)))" using C by blast
  ultimately show "count (rem t p) = count t - 1" by simp
qed

end

definition fresh_ent :: "u64 \<Rightarrow> rtx_ent" where
  "fresh_ent key = zero_ent\<lparr>re_used := True, re_key := key\<rparr>"

definition keeps_key :: "(rtx_ent \<Rightarrow> rtx_ent) \<Rightarrow> bool" where
  "keeps_key f \<longleftrightarrow> (\<forall>x. re_key (f x) = re_key x \<and> re_used (f x) = re_used x)"

interpretation tb: entry_table tab_ok tab_abs tb_n "int RTX_CAP" tab_find tab_insert tab_put tab_remove fresh_ent keeps_key
proof
  show "tab_find t k = None \<longleftrightarrow> tab_abs t k = None" for t k
    by (simp add: tab_abs_def)
  show "tb_n t = int (card (dom (tab_abs t))) \<and> finite (dom (tab_abs t)) \<and> tb_n t \<le> int RTX_CAP" if "tab_ok t" for t
    using tab_n_dom [OF that] that by (simp add: tab_ok_def)
  show "\<exists>p. r = Some p \<and> tab_ok t' \<and> tab_find t' k = Some p \<and> tab_abs t' = (tab_abs t)(k \<mapsto> fresh_ent k)"
    if "tab_ok t" "tb_n t < int RTX_CAP" "tab_abs t k = None" "tab_insert t k = (t', r)" for t k t' r
    using tab_insert_spec [OF that] unfolding fresh_ent_def by blast
  show "tab_ok (tab_put t p f) \<and> tab_find (tab_put t p f) = tab_find t \<and> tab_abs (tab_put t p f) = (tab_abs t)(k \<mapsto> f (the (tab_abs t k)))"
    if "tab_ok t" "tab_find t k = Some p" "keeps_key f" for t k p f
  proof -
    have "the (tab_abs t k) = tb_e t ! p" using that(2) by (simp add: tab_abs_def)
    then show ?thesis using tab_put_spec [OF that(1,2)] that(3) unfolding keeps_key_def by simp
  qed
  show "tab_ok (tab_remove t p) \<and> tab_abs (tab_remove t p) = (tab_abs t)(k := None)"
    if "tab_ok t" "tab_find t k = Some p" for t k p
    using tab_remove_spec [OF that] by blast
qed

text \<open>
  C8: The hash table is a finite map of at most 16384 entries: a lookup finds an entry exactly when
  the key is in the map, within one round of probing; inserting a new key adds it and nothing
  else; and removing an entry, whatever entries it shifts back, removes exactly that key, so every
  other entry is still found. The counter is the number of entries.
\<close>

theorem rtx_table_refines_map:
  assumes "tab_ok t"
  shows "(case tab_find t k of
      None \<Rightarrow> (\<forall>e \<in> set (tb_e t). re_used e \<longrightarrow> re_key e \<noteq> k) \<and>
        (tb_n t < int RTX_CAP \<longrightarrow>
           tab_ok (fst (tab_insert t k)) \<and> tab_abs (fst (tab_insert t k)) = (tab_abs t)(k \<mapsto> fresh_ent k))
    | Some i \<Rightarrow> re_used (tb_e t ! i) \<and> re_key (tb_e t ! i) = k \<and> tab_abs t k = Some (tb_e t ! i) \<and>
        tab_ok (tab_remove t i) \<and> tab_abs (tab_remove t i) = (tab_abs t)(k := None)) \<and>
    tb_n t = int (card (dom (tab_abs t)))"
proof (cases "tab_find t k")
  case None
  have "re_key e \<noteq> k" if "e \<in> set (tb_e t)" "re_used e" for e
  proof -
    have "length (tb_e t) = RTX_SLOTS" using assms by (simp add: tab_ok_def slots_ok_def)
    then obtain i where "i < RTX_SLOTS" "tb_e t ! i = e" using \<open>e \<in> set (tb_e t)\<close> by (auto simp: in_set_conv_nth)
    then show ?thesis using None tab_find_Some [OF assms, of k i] that(2) by auto
  qed
  moreover have "tab_abs t k = None" using None by (simp add: tab_abs_def)
  ultimately show ?thesis
    using None tb.ins_ok [OF assms, of k] tab_n_dom(1) [OF assms] by (auto simp: prod_eq_iff)
next
  case (Some i)
  then show ?thesis
    using tab_find_Some [OF assms, of k i] tb.rem_ok [OF assms Some] tab_n_dom(1) [OF assms] by (simp add: tab_abs_def)
qed

theorem rtx_table_refines_map_witness:
  "let t = fst (tab_insert empty_tab 7) in tab_abs t = [7 \<mapsto> fresh_ent 7] \<and>
     (\<exists>i. tab_find t 7 = Some i \<and> tab_abs (tab_remove t i) = Map.empty \<and> tab_find (tab_remove t i) 7 = None)"
proof -
  let ?t = "fst (tab_insert empty_tab 7)"
  have f: "tab_find empty_tab 7 = None" using tab_abs_empty by (metis tab_abs_def option.map_disc_iff)
  have z: "tb_n empty_tab < int RTX_CAP" by (simp add: empty_tab_def RTX_CAP_def)
  have t: "tab_ok ?t" "tab_abs ?t = [7 \<mapsto> fresh_ent 7]"
    using rtx_table_refines_map [OF empty_tab_ok, of 7] f z tab_abs_empty by auto
  obtain i where i: "tab_find ?t 7 = Some i" using t by (metis fun_upd_same map_option_eq_Some tab_abs_def)
  have r: "tab_ok (tab_remove ?t i)" "tab_abs (tab_remove ?t i) = Map.empty"
    using rtx_table_refines_map [OF t(1), of 7] i t(2) by auto
  then have "tab_find (tab_remove ?t i) 7 = None" by (metis tab_abs_def option.map_disc_iff)
  then show ?thesis using t i r by (simp add: Let_def)
qed

end
