(* ===== verification/Redundant_Tx.thy ===== *)
theory Redundant_Tx
  imports Rtx_Table C_Strings Wire
begin

text \<open>
  The redundant sender (\<^verbatim>\<open>src/redundant_tx.c\<close>): the port list and the packets it selects, the tracking of
  the copies of each packet and of what became of them, the choice of the paths to copy to, and the
  overload mode. Counts of C type \<open>int\<close> are \<open>int\<close>, with their bounds in the invariant; a null engine is
  not modelled.
\<close>

section \<open>Port list\<close>

definition port_blank :: "char \<Rightarrow> bool" where
  "port_blank c \<longleftrightarrow> c = CHR '' '' \<or> c = CHR 0x09 \<or> c = CHR 0x0D \<or> c = CHR 0x0A"

text \<open>The digit loop: the value stops growing once it is above 65535.\<close>

fun port_digits :: "nat \<Rightarrow> string \<Rightarrow> nat" where
  "port_digits v [] = v"
| "port_digits v (c # cs) = port_digits (if v \<le> 65535 then v * 10 + digit_val c else v) cs"

text \<open>
  One iteration per token. The result is the list of ports, \<open>None\<close> for -1; \<open>n_tok\<close> counts the tokens
  and \<open>out\<close> holds the ports so far.
\<close>

function parse_tokens :: "string \<Rightarrow> int \<Rightarrow> u16 list \<Rightarrow> int \<Rightarrow> u16 list option" where
  "parse_tokens p n_tok out mx =
     (let p = dropWhile port_blank p;
          ds = takeWhile isdigit p;
          v = port_digits 0 ds;
          p = dropWhile port_blank (dropWhile isdigit p)
      in if ds = [] \<or> v < 1 \<or> v > 65535 then None
         else if n_tok + 1 > mx then None
         else (let out = (if list_ex (\<lambda>x. unat x = v) out then out else out @ [of_nat v])
               in case p of
                    [] \<Rightarrow> Some out
                  | c # r \<Rightarrow> if c \<noteq> CHR '','' then None else parse_tokens r (n_tok + 1) out mx))"
  by auto
termination
proof (relation "measure (\<lambda>(p, _). length p)", simp, goal_cases)
  case (1 p n_tok out mx p1 ds v p2 out1 c r)
  have "length (dropWhile port_blank (dropWhile isdigit (dropWhile port_blank p))) \<le> length p"
    by (meson dual_order.trans length_dropWhile_le)
  moreover have "dropWhile port_blank (dropWhile isdigit (dropWhile port_blank p)) = c # r" using 1 by simp
  ultimately show ?case by simp
qed

declare parse_tokens.simps [simp del]

definition mqvpn_redundant_parse_ports :: "string option \<Rightarrow> int \<Rightarrow> u16 list option" where
  "mqvpn_redundant_parse_ports s mx =
     (case s of
        None \<Rightarrow> Some []
      | Some s \<Rightarrow> if dropWhile port_blank s = [] then Some [] else parse_tokens s 0 [] mx)"

text \<open>Reads go through \<open>rd\<close>: \<open>None\<close> is a read past the packet.\<close>

definition match_port :: "u16 list \<Rightarrow> u8 list \<Rightarrow> nat \<Rightarrow> bool option" where
  "match_port ports pkt off =
     (if off + 4 > length pkt then Some False
      else do { dport \<leftarrow> rd16 pkt (off + 2); Some (dport \<in> set ports) })"

definition mqvpn_redundant_match :: "u16 list \<Rightarrow> u8 list \<Rightarrow> bool option" where
  "mqvpn_redundant_match ports pkt =
     (if length pkt < 1 then Some False
      else do {
        b0 \<leftarrow> rd pkt 0;
        if drop_bit 4 b0 = 4
        then (if length pkt < 20 then Some False
              else do {
                proto \<leftarrow> rd pkt 9;
                if proto \<noteq> 17 then Some False
                else if ports = [] then Some True
                else do {
                  frag \<leftarrow> rd16 pkt 6;
                  if frag AND 0x1fff \<noteq> 0 then Some False
                  else (let off = unat (b0 AND 0x0f) * 4
                        in if off < 20 then Some False else match_port ports pkt off) } })
        else if drop_bit 4 b0 = 6
        then (if length pkt < 40 then Some False
              else do {
                nh \<leftarrow> rd pkt 6;
                if nh \<noteq> 17 then Some False
                else if ports = [] then Some True
                else match_port ports pkt 40 })
        else Some False })"


section \<open>State\<close>

definition MQVPN_MAX_PATHS :: nat where "MQVPN_MAX_PATHS = 8"
definition RTX_LAG :: u64 where "RTX_LAG = 250000"
definition RTX_RTT_UNKNOWN :: u64 where "RTX_RTT_UNKNOWN = 10000000"
definition RTX_RATE_BUCKET :: u64 where "RTX_RATE_BUCKET = 100000"
definition RTX_PKT_BYTES :: u64 where "RTX_PKT_BYTES = 1400"
definition RTX_MODE_WIN :: u64 where "RTX_MODE_WIN = 200000"
definition RTX_IDLE :: u64 where "RTX_IDLE = 1000000"
definition RTX_START_GRACE :: u64 where "RTX_START_GRACE = 2000000"
definition RTX_ENTER_N :: int where "RTX_ENTER_N = 5"
definition RTX_REENTER_N :: int where "RTX_REENTER_N = 2"
definition RTX_HOLD_FIRST :: u64 where "RTX_HOLD_FIRST = 10000000"
definition RTX_HOLD_MAX :: u64 where "RTX_HOLD_MAX = 32000000"
definition RTX_PROBE_OK :: u64 where "RTX_PROBE_OK = 10000000"
definition RTX_HIST :: nat where "RTX_HIST = 10"
definition RTX_MIN_JUDGED :: u64 where "RTX_MIN_JUDGED = 40"

datatype rtx_mode = RTX_NORMAL | RTX_PROBE | RTX_OVERLOAD

record rtx_path =
  rp_bound :: bool
  rp_xqc_id :: u64
  rp_outstanding :: int
  rp_out_bytes :: u64
  rp_min_rtt_us :: u64
  rp_first :: nat
  rp_acked :: u64
  rp_est_bw :: u64
  rp_inflight :: u64
  rp_hit :: bool

record mqvpn_redundant_tx =
  rt_copies :: rtx_tab
  rt_origs :: rtx_tab
  rt_next_orig :: u64
  rt_path :: "rtx_path list"
  rt_have_win :: bool
  rt_win_sec :: u64
  rt_win_count :: u32
  rt_prev_count :: u32
  rt_last_us :: u64
  rt_bkt_id :: u64
  rt_bkt_count :: u32
  rt_prev_bkt_count :: u32
  rt_mode :: rtx_mode
  rt_short_n :: int
  rt_win_start_us :: u64
  rt_flow_since_us :: u64
  rt_since_us :: u64
  rt_hold_us :: u64
  rt_sec_hist :: "u32 list"
  rt_sent :: "u64 list list"

definition zero_path :: rtx_path where
  "zero_path = \<lparr>rp_bound = False, rp_xqc_id = 0, rp_outstanding = 0, rp_out_bytes = 0, rp_min_rtt_us = 0, rp_first = 0,
     rp_acked = 0, rp_est_bw = 0, rp_inflight = 0, rp_hit = False\<rparr>"

definition rtx_mode_reset :: "mqvpn_redundant_tx \<Rightarrow> mqvpn_redundant_tx" where
  "rtx_mode_reset t =
     t\<lparr>rt_mode := RTX_NORMAL, rt_short_n := 0, rt_win_start_us := 0, rt_flow_since_us := 0,
       rt_hold_us := RTX_HOLD_FIRST, rt_sec_hist := replicate RTX_HIST 0\<rparr>"

text \<open>The flags are the outcomes of the three allocations.\<close>

definition mqvpn_redundant_tx_new :: "bool \<Rightarrow> bool \<Rightarrow> bool \<Rightarrow> mqvpn_redundant_tx option" where
  "mqvpn_redundant_tx_new t_ok copies_ok origs_ok =
     (if \<not> t_ok \<or> \<not> copies_ok \<or> \<not> origs_ok then None
      else Some (rtx_mode_reset
        \<lparr>rt_copies = empty_tab, rt_origs = empty_tab, rt_next_orig = 0, rt_path = replicate MQVPN_MAX_PATHS zero_path,
         rt_have_win = False, rt_win_sec = 0, rt_win_count = 0, rt_prev_count = 0, rt_last_us = 0, rt_bkt_id = 0,
         rt_bkt_count = 0, rt_prev_bkt_count = 0, rt_mode = RTX_NORMAL, rt_short_n = 0, rt_win_start_us = 0,
         rt_flow_since_us = 0, rt_since_us = 0, rt_hold_us = 0, rt_sec_hist = replicate RTX_HIST 0,
         rt_sent = replicate MQVPN_MAX_PATHS (replicate RTX_CAP 0)\<rparr>))"

definition path_ok :: "int \<Rightarrow> bool" where
  "path_ok path \<longleftrightarrow> path \<ge> 0 \<and> path < int MQVPN_MAX_PATHS"

abbreviation the_path :: "mqvpn_redundant_tx \<Rightarrow> int \<Rightarrow> rtx_path" where
  "the_path t p \<equiv> rt_path t ! nat p"

definition upd_path :: "mqvpn_redundant_tx \<Rightarrow> int \<Rightarrow> (rtx_path \<Rightarrow> rtx_path) \<Rightarrow> mqvpn_redundant_tx" where
  "upd_path t p f = t\<lparr>rt_path := (rt_path t)[nat p := f (rt_path t ! nat p)]\<rparr>"


section \<open>Copies and originals\<close>

definition tab_detach :: "rtx_tab \<Rightarrow> int \<Rightarrow> rtx_tab" where
  "tab_detach t path = t\<lparr>tb_e := map (\<lambda>x. if re_used x \<and> re_b x = path then x\<lparr>re_b := - 1\<rparr> else x) (tb_e t)\<rparr>"

definition mqvpn_redundant_tx_detach_path :: "mqvpn_redundant_tx \<Rightarrow> int \<Rightarrow> mqvpn_redundant_tx" where
  "mqvpn_redundant_tx_detach_path t path =
     (if \<not> path_ok path then t
      else if rp_outstanding (the_path t path) = 0 then t
      else upd_path (t\<lparr>rt_copies := tab_detach (rt_copies t) path\<rparr>) path (\<lambda>p. p\<lparr>rp_outstanding := 0, rp_out_bytes := 0\<rparr>))"

definition mqvpn_redundant_tx_bind_path :: "mqvpn_redundant_tx \<Rightarrow> int \<Rightarrow> u64 \<Rightarrow> mqvpn_redundant_tx" where
  "mqvpn_redundant_tx_bind_path t path xqc_path_id =
     (if \<not> path_ok path then t
      else (let p = the_path t path;
                t = (if rp_bound p \<and> rp_xqc_id p \<noteq> xqc_path_id then mqvpn_redundant_tx_detach_path t path else t)
            in upd_path t path (\<lambda>p. p\<lparr>rp_bound := True, rp_xqc_id := xqc_path_id\<rparr>)))"

definition mqvpn_redundant_tx_set_path_metrics :: "mqvpn_redundant_tx \<Rightarrow> int \<Rightarrow> u64 \<Rightarrow> u64 \<Rightarrow> u64 \<Rightarrow> mqvpn_redundant_tx" where
  "mqvpn_redundant_tx_set_path_metrics t path min_rtt_us est_bw inflight =
     (if \<not> path_ok path then t
      else upd_path t path (\<lambda>p. p\<lparr>rp_min_rtt_us := (if min_rtt_us < RTX_RTT_UNKNOWN then min_rtt_us else 0),
                                   rp_est_bw := est_bw, rp_inflight := inflight\<rparr>))"

definition mqvpn_redundant_tx_outstanding :: "mqvpn_redundant_tx \<Rightarrow> int \<Rightarrow> int" where
  "mqvpn_redundant_tx_outstanding t path = (if path_ok path then rp_outstanding (the_path t path) else 0)"

definition rtx_stream_pps :: "mqvpn_redundant_tx \<Rightarrow> u64" where
  "rtx_stream_pps t =
     (let pps = ucast (rt_prev_count t);
          bkt = ucast (rt_prev_bkt_count t) * (1000000 div RTX_RATE_BUCKET)
      in if bkt > pps then bkt else pps)"

definition rtx_queued_us :: "mqvpn_redundant_tx \<Rightarrow> int \<Rightarrow> u64 \<Rightarrow> u64" where
  "rtx_queued_us t path now_us =
     (let p = the_path t path
      in if rp_outstanding p = 0 then 0
         else (let due = rt_sent t ! nat path ! rp_first p + rp_min_rtt_us p
               in if now_us > due then now_us - due else 0))"

text \<open>The first loop of the choice: the least queued path, then fewer copies, then the lower index.\<close>

definition less_queued :: "mqvpn_redundant_tx \<Rightarrow> u64 \<Rightarrow> int \<Rightarrow> int \<Rightarrow> bool" where
  "less_queued t now_us p best \<longleftrightarrow>
     (let q = (\<lambda>p. rtx_queued_us t p now_us); o1 = rp_outstanding (the_path t p); o2 = rp_outstanding (the_path t best)
      in q p < q best \<or> q p = q best \<and> (o1 < o2 \<or> o1 = o2 \<and> p < best))"

fun select_best :: "mqvpn_redundant_tx \<Rightarrow> u64 \<Rightarrow> int list \<Rightarrow> int option \<Rightarrow> int option" where
  "select_best t now_us [] best = best"
| "select_best t now_us (p # ps) best =
     (if \<not> path_ok p then select_best t now_us ps best
      else select_best t now_us ps
        (case best of None \<Rightarrow> Some p | Some b \<Rightarrow> if less_queued t now_us p b then Some p else best))"

definition keeps_up :: "mqvpn_redundant_tx \<Rightarrow> u64 \<Rightarrow> int \<Rightarrow> int \<Rightarrow> bool" where
  "keeps_up t now_us best p =
     (if rtx_queued_us t best now_us > RTX_LAG then p = best
      else rtx_queued_us t p now_us \<le> rtx_queued_us t best now_us + RTX_LAG)"

definition mark_hit :: "mqvpn_redundant_tx \<Rightarrow> int \<Rightarrow> mqvpn_redundant_tx" where
  "mark_hit t p = upd_path t p (\<lambda>r. r\<lparr>rp_hit := True\<rparr>)"

definition mqvpn_redundant_tx_select :: "mqvpn_redundant_tx \<Rightarrow> int list \<Rightarrow> u64 \<Rightarrow> mqvpn_redundant_tx \<times> int list" where
  "mqvpn_redundant_tx_select t usable now_us =
     (if usable = [] then (t, [])
      else if tb_n (rt_origs t) \<ge> int RTX_CAP then (t, [])
      else case select_best t now_us usable None of
             None \<Rightarrow> (t, [])
           | Some best \<Rightarrow>
               (let ok = filter path_ok usable;
                    out = filter (keeps_up t now_us best) ok;
                    t' = fold (\<lambda>p t. mark_hit t p) (filter (\<lambda>p. \<not> keeps_up t now_us best p) ok) t;
                    room = int RTX_CAP - tb_n (rt_copies t)
                in (t', take (nat (if int (length out) < room then int (length out) else room)) out)))"

text \<open>The counting of an original toward the stream rate.\<close>

definition count_second :: "mqvpn_redundant_tx \<Rightarrow> u64 \<Rightarrow> mqvpn_redundant_tx" where
  "count_second t sec =
     (let contiguous = (rt_have_win t \<and> sec = rt_win_sec t + 1);
          t = (if contiguous then t\<lparr>rt_sec_hist := (rt_sec_hist t)[unat (rt_win_sec t mod of_nat RTX_HIST) := rt_win_count t]\<rparr> else t)
      in t\<lparr>rt_prev_count := (if contiguous then rt_win_count t else 0), rt_have_win := True, rt_win_sec := sec, rt_win_count := 0\<rparr>)"

definition rtx_count_rate :: "mqvpn_redundant_tx \<Rightarrow> u64 \<Rightarrow> mqvpn_redundant_tx" where
  "rtx_count_rate t now_us =
     (let sec = now_us div 1000000;
          t = (if rt_have_win t \<and> now_us < rt_last_us t then t\<lparr>rt_have_win := False\<rparr> else t);
          fresh = (\<not> rt_have_win t);
          t = (if \<not> rt_have_win t \<or> sec \<noteq> rt_win_sec t then count_second t sec else t);
          t = t\<lparr>rt_win_count := rt_win_count t + 1\<rparr>;
          b = now_us div RTX_RATE_BUCKET;
          t = (if fresh \<or> b \<noteq> rt_bkt_id t
               then t\<lparr>rt_prev_bkt_count := (if \<not> fresh \<and> b = rt_bkt_id t + 1 then rt_bkt_count t else 0), rt_bkt_id := b, rt_bkt_count := 0\<rparr>
               else t)
      in t\<lparr>rt_bkt_count := rt_bkt_count t + 1, rt_last_us := now_us\<rparr>)"

text \<open>
  Recording one copy and one original; \<open>None\<close> stands for a write through a null pointer, which a
  full table would cause.
\<close>

definition sent_put :: "mqvpn_redundant_tx \<Rightarrow> int \<Rightarrow> u64 \<Rightarrow> mqvpn_redundant_tx" where
  "sent_put t b now_us =
     (let p = the_path t b; i = (rp_first p + nat (rp_outstanding p)) AND (RTX_CAP - 1)
      in t\<lparr>rt_sent := (rt_sent t)[nat b := (rt_sent t ! nat b)[i := now_us]]\<rparr>)"

definition commit_copy :: "u64 \<Rightarrow> u16 \<Rightarrow> u64 \<Rightarrow> u64 \<times> int \<Rightarrow> mqvpn_redundant_tx \<Rightarrow> mqvpn_redundant_tx option" where
  "commit_copy okey bytes now_us = (\<lambda>(id, path) t.
     (case tab_insert (rt_copies t) id of
        (copies, None) \<Rightarrow> None
      | (copies, Some c) \<Rightarrow>
          (let b = (if path_ok path then path else - 1);
               t = t\<lparr>rt_copies := tab_put copies c (\<lambda>x. x\<lparr>re_a := okey, re_b := b, re_len := bytes\<rparr>)\<rparr>
           in Some (if b \<ge> 0
                    then upd_path (sent_put t b now_us) b
                           (\<lambda>p. p\<lparr>rp_outstanding := rp_outstanding p + 1, rp_out_bytes := rp_out_bytes p + ucast bytes\<rparr>)
                    else t))))"

fun commit_copies :: "u64 \<Rightarrow> u16 \<Rightarrow> u64 \<Rightarrow> (u64 \<times> int) list \<Rightarrow> mqvpn_redundant_tx \<Rightarrow> mqvpn_redundant_tx option" where
  "commit_copies okey bytes now_us [] t = Some t"
| "commit_copies okey bytes now_us (c # cs) t = Option.bind (commit_copy okey bytes now_us c t) (commit_copies okey bytes now_us cs)"

definition mqvpn_redundant_tx_commit :: "mqvpn_redundant_tx \<Rightarrow> (u64 \<times> int) list \<Rightarrow> u64 \<Rightarrow> nat \<Rightarrow> mqvpn_redundant_tx option" where
  "mqvpn_redundant_tx_commit t cs now_us len =
     (if cs = [] \<or> tb_n (rt_origs t) \<ge> int RTX_CAP \<or> tb_n (rt_copies t) + int (length cs) > int RTX_CAP then Some t
      else (let t = rtx_count_rate t now_us;
                bytes = (if len > 65535 then 65535 else of_nat len) :: u16;
                okey = rt_next_orig t + 1
            in case tab_insert (rt_origs t) okey of
                 (origs, None) \<Rightarrow> None
               | (origs, Some oi) \<Rightarrow>
                   commit_copies okey bytes now_us cs
                     (t\<lparr>rt_next_orig := okey, rt_origs := tab_put origs oi (\<lambda>x. x\<lparr>re_a := of_nat (length cs)\<rparr>)\<rparr>)))"

text \<open>
  Dropping one resolved copy: the original's index and whether it was the last copy. The outer
  \<open>None\<close> is a null original, the inner one an untracked copy.
\<close>

definition resolve :: "mqvpn_redundant_tx \<Rightarrow> u64 \<Rightarrow> bool \<Rightarrow> (mqvpn_redundant_tx \<times> (nat \<times> bool) option) option" where
  "resolve t dgram_id acked =
     (case tab_find (rt_copies t) dgram_id of
        None \<Rightarrow> Some (t, None)
      | Some ci \<Rightarrow>
          (let c = tb_e (rt_copies t) ! ci
           in case tab_find (rt_origs t) (re_a c) of
                None \<Rightarrow> None
              | Some oi \<Rightarrow>
                  (let t = (if re_b c \<ge> 0
                            then upd_path t (re_b c) (\<lambda>p. p\<lparr>rp_outstanding := rp_outstanding p - 1,
                                   rp_out_bytes := rp_out_bytes p - ucast (re_len c),
                                   rp_acked := (if acked then rp_acked p + 1 else rp_acked p),
                                   rp_first := (rp_first p + 1) AND (RTX_CAP - 1)\<rparr>)
                            else t);
                       t = t\<lparr>rt_copies := tab_remove (rt_copies t) ci,
                             rt_origs := tab_put (rt_origs t) oi (\<lambda>x. x\<lparr>re_a := re_a x - 1\<rparr>)\<rparr>
                   in Some (t, Some (oi, re_a (tb_e (rt_origs t) ! oi) = 0)))))"

definition mqvpn_redundant_tx_on_acked :: "mqvpn_redundant_tx \<Rightarrow> u64 \<Rightarrow> (mqvpn_redundant_tx \<times> int) option" where
  "mqvpn_redundant_tx_on_acked t dgram_id =
     (case resolve t dgram_id True of
        None \<Rightarrow> None
      | Some (t, None) \<Rightarrow> Some (t, - 1)
      | Some (t, Some (oi, is_last)) \<Rightarrow>
          (let first = (if re_b (tb_e (rt_origs t) ! oi) = 0 then 1 else 0);
               t = t\<lparr>rt_origs := tab_put (rt_origs t) oi (\<lambda>x. x\<lparr>re_b := 1\<rparr>)\<rparr>;
               t = (if is_last then t\<lparr>rt_origs := tab_remove (rt_origs t) oi\<rparr> else t)
           in Some (t, first)))"

definition mqvpn_redundant_tx_on_lost :: "mqvpn_redundant_tx \<Rightarrow> u64 \<Rightarrow> (mqvpn_redundant_tx \<times> int) option" where
  "mqvpn_redundant_tx_on_lost t dgram_id =
     (case resolve t dgram_id False of
        None \<Rightarrow> None
      | Some (t, None) \<Rightarrow> Some (t, - 1)
      | Some (t, Some (oi, is_last)) \<Rightarrow>
          (let r = (if is_last \<and> re_b (tb_e (rt_origs t) ! oi) = 0 then 1 else 0);
               t = (if is_last then t\<lparr>rt_origs := tab_remove (rt_origs t) oi\<rparr> else t)
           in Some (t, r)))"


section \<open>Overload mode\<close>

definition rtx_window_start :: "mqvpn_redundant_tx \<Rightarrow> u64 \<Rightarrow> mqvpn_redundant_tx" where
  "rtx_window_start t now_us =
     t\<lparr>rt_win_start_us := (if now_us \<noteq> 0 then now_us else 1),
       rt_path := map (\<lambda>p. p\<lparr>rp_acked := 0, rp_hit := False\<rparr>) (rt_path t)\<rparr>"

definition mode_stale :: "mqvpn_redundant_tx \<Rightarrow> u64 \<Rightarrow> bool" where
  "mode_stale t now_us \<longleftrightarrow>
     \<not> rt_have_win t \<or> now_us < rt_last_us t \<or> now_us - rt_last_us t \<ge> RTX_IDLE \<or> now_us < rt_win_start_us t \<or>
     rt_win_start_us t \<noteq> 0 \<and> now_us - rt_win_start_us t \<ge> RTX_IDLE"

definition base_rate :: "mqvpn_redundant_tx \<Rightarrow> u64" where
  "base_rate t =
     (let base = fold (\<lambda>h base. if h \<noteq> 0 \<and> (base = 0 \<or> ucast h < base) then ucast h else base) (rt_sec_hist t) 0
      in if base = 0 then rtx_stream_pps t else base)"

definition path_short :: "mqvpn_redundant_tx \<Rightarrow> u64 \<Rightarrow> int \<Rightarrow> bool" where
  "path_short t el i =
     (let p = the_path t i;
          acked_pps = rp_acked p * 1000000 div el;
          fed = (rp_hit p \<or> rp_out_bytes p > rp_inflight p + rp_inflight p div 10)
      in \<not> (\<not> fed \<or> acked_pps * 100 \<ge> rtx_stream_pps t * 95))"

definition path_fits :: "mqvpn_redundant_tx \<Rightarrow> int \<Rightarrow> bool" where
  "path_fits t i \<longleftrightarrow> rp_est_bw (the_path t i) div RTX_PKT_BYTES * 100 \<ge> base_rate t * 105"

text \<open>The judgement of a whole window, and the mode's reaction to it.\<close>

definition judge_window :: "mqvpn_redundant_tx \<Rightarrow> int list \<Rightarrow> u64 \<Rightarrow> bool \<times> bool" where
  "judge_window t usable el =
     (let ok = filter path_ok usable
      in (list_all (path_short t el) ok \<and> \<not> rtx_stream_pps t * el < RTX_MIN_JUDGED * 1000000, list_ex (path_fits t) ok))"

definition mode_react :: "mqvpn_redundant_tx \<Rightarrow> u64 \<Rightarrow> bool \<Rightarrow> bool \<Rightarrow> mqvpn_redundant_tx \<times> int" where
  "mode_react t now_us all_short fit =
     (if rt_mode t = RTX_OVERLOAD
      then (if now_us - rt_since_us t < rt_hold_us t \<or> \<not> fit then (t, 0)
            else (t\<lparr>rt_mode := RTX_PROBE, rt_since_us := now_us, rt_short_n := 0\<rparr>, - 1))
      else (let t = t\<lparr>rt_short_n := (if all_short \<and> now_us - rt_flow_since_us t \<ge> RTX_START_GRACE then rt_short_n t + 1 else 0)\<rparr>
            in if rt_short_n t \<ge> (if rt_mode t = RTX_PROBE then RTX_REENTER_N else RTX_ENTER_N)
               then (let hold = (if rt_mode t = RTX_PROBE
                                 then (if rt_hold_us t * 2 > RTX_HOLD_MAX then RTX_HOLD_MAX else rt_hold_us t * 2)
                                 else rt_hold_us t)
                     in (t\<lparr>rt_hold_us := hold, rt_mode := RTX_OVERLOAD, rt_since_us := now_us\<rparr>, 1))
               else if rt_mode t = RTX_PROBE \<and> now_us - rt_since_us t \<ge> RTX_PROBE_OK
               then (t\<lparr>rt_mode := RTX_NORMAL, rt_hold_us := RTX_HOLD_FIRST\<rparr>, 0)
               else (t, 0)))"

definition mqvpn_redundant_tx_update_mode :: "mqvpn_redundant_tx \<Rightarrow> int list \<Rightarrow> u64 \<Rightarrow> mqvpn_redundant_tx \<times> int" where
  "mqvpn_redundant_tx_update_mode t usable now_us =
     (if usable = [] then (t, 0)
      else if mode_stale t now_us then (rtx_mode_reset t, if rt_mode t = RTX_OVERLOAD then - 1 else 0)
      else if rt_win_start_us t = 0
      then (let t = rtx_window_start t now_us in (t\<lparr>rt_flow_since_us := rt_win_start_us t\<rparr>, 0))
      else (let el = now_us - rt_win_start_us t
            in if el < RTX_MODE_WIN then (t, 0)
               else (let (all_short, fit) = judge_window t usable el; pps = rtx_stream_pps t; t = rtx_window_start t now_us
                     in if pps = 0 then (t, 0) else mode_react t now_us all_short fit)))"

definition mqvpn_redundant_tx_overload_bypass :: "mqvpn_redundant_tx \<Rightarrow> u64 \<Rightarrow> mqvpn_redundant_tx \<times> bool" where
  "mqvpn_redundant_tx_overload_bypass t now_us =
     (if rt_mode t \<noteq> RTX_OVERLOAD then (t, False) else (rtx_count_rate t now_us, True))"

end
