(* ===== verification/Redundant_Props.thy ===== *)
theory Redundant_Props
  imports Redundant_Tx
begin

text \<open>
  Properties of the redundant sender's port list, packet filter, choice of paths and overload mode
  (\<^verbatim>\<open>src/redundant_tx.c\<close>).
\<close>

section \<open>Port lists\<close>

lemma port_digits_snoc: "port_digits v (xs @ [c]) = (let w = port_digits v xs in if w \<le> 65535 then w * 10 + digit_val c else w)"
  by (induction xs arbitrary: v) (simp_all add: Let_def)

text \<open>A comma-separated list, as a configuration writes it.\<close>

fun port_list :: "u16 list \<Rightarrow> string" where
  "port_list [] = []"
| "port_list [p] = decimal (unat p)"
| "port_list (p # q # ps) = decimal (unat p) @ CHR '','' # port_list (q # ps)"

lemma decimal_val: "n \<le> 65535 \<Longrightarrow> port_digits 0 (decimal n) = n"
proof (induction n rule: decimal.induct)
  case (1 n)
  have "n div 10 \<le> 65535" using "1.prems" by linarith
  then show ?case using 1 digit_char [of "n mod 10"] by (simp add: decimal.simps [of n] digit_char port_digits_snoc Let_def)
qed

lemma blank_not_digit: "isdigit c \<Longrightarrow> \<not> port_blank c"
  by (auto simp: isdigit_def port_blank_def)

lemma comma_char: "\<not> isdigit CHR '',''" "\<not> port_blank CHR '',''"
  by (simp_all add: isdigit_def port_blank_def)

lemma token_split:
  assumes "r = [] \<or> (\<exists>q. r = CHR '','' # q)"
  shows "dropWhile port_blank (decimal n @ r) = decimal n @ r" "takeWhile isdigit (decimal n @ r) = decimal n"
    "dropWhile port_blank (dropWhile isdigit (decimal n @ r)) = r"
proof -
  have d: "list_all isdigit (decimal n)" "decimal n \<noteq> []" using decimal_digits by simp_all
  then obtain c cs where c: "decimal n = c # cs" "isdigit c" by (cases "decimal n") auto
  show "dropWhile port_blank (decimal n @ r) = decimal n @ r" using blank_not_digit [OF c(2)] by (simp add: c(1))
  have all: "\<forall>x \<in> set (decimal n). isdigit x" using d(1) by (simp add: list_all_iff)
  show "takeWhile isdigit (decimal n @ r) = decimal n"
    using assms comma_char all by (subst takeWhile_append2) auto
  show "dropWhile port_blank (dropWhile isdigit (decimal n @ r)) = r"
    using assms comma_char all by (subst dropWhile_append2) auto
qed

lemma parse_token:
  assumes "r = [] \<or> (\<exists>q. r = CHR '','' # q)" and "p \<noteq> 0" and "p \<notin> set out" and "k + 1 \<le> mx"
  shows "parse_tokens (decimal (unat p) @ r) k out mx =
    (case r of [] \<Rightarrow> Some (out @ [p]) | c # q \<Rightarrow> if c \<noteq> CHR '','' then None else parse_tokens q (k + 1) (out @ [p]) mx)"
proof -
  have p: "1 \<le> unat p" "unat p \<le> 65535" using assms(2) unat_u16_lt [of p] by (auto simp: Suc_le_eq unat_gt_0)
  have n: "\<not> list_ex (\<lambda>x. unat x = unat p) out" using assms(3) by (auto simp: list_ex_iff simp flip: word_unat_eq_iff)
  have d: "decimal (unat p) \<noteq> []" using decimal_digits by simp
  have t: "(decimal (unat p) = [] \<or> unat p < 1 \<or> unat p > 65535) = False" "(k + 1 > mx) = False" using p d assms(4) by auto
  show ?thesis
    unfolding parse_tokens.simps [of "decimal (unat p) @ r"] token_split [OF assms(1)] Let_def decimal_val [OF p(2)] t if_False
    using n by (cases r) simp_all
qed

lemma parse_tokens_list:
  assumes "ps \<noteq> []" and "distinct (out @ ps)" and "0 \<notin> set ps" and "n + int (length ps) \<le> mx"
  shows "parse_tokens (port_list ps) n out mx = Some (out @ ps)"
  using assms
proof (induction ps arbitrary: n out rule: port_list.induct)
  case (2 p)
  then show ?case using parse_token [of "[]" p out n mx] by auto
next
  case (3 p q ps)
  have "parse_tokens (port_list (q # ps)) (n + 1) (out @ [p]) mx = Some ((out @ [p]) @ q # ps)"
    by (rule "3.IH") (use 3 in auto)
  then show ?case using parse_token [of "CHR '','' # port_list (q # ps)" p out n mx] 3 by auto
qed simp

lemma parse_tokens_sound:
  assumes "parse_tokens p n out mx = Some r" and "distinct out" "0 \<notin> set out" "int (length out) \<le> n"
  shows "distinct r \<and> 0 \<notin> set r \<and> int (length r) \<le> mx"
  using assms
proof (induction p n out mx rule: parse_tokens.induct)
  case (1 p n_tok out mx)
  let ?p = "dropWhile port_blank p" let ?ds = "takeWhile isdigit ?p" let ?v = "port_digits 0 ?ds"
  let ?q = "dropWhile port_blank (dropWhile isdigit ?p)"
  define out1 where "out1 = (if list_ex (\<lambda>x. unat x = ?v) out then out else out @ [of_nat ?v :: u16])"
  define rest where "rest = (case ?q of [] \<Rightarrow> Some out1 | c # r' \<Rightarrow> if c \<noteq> CHR '','' then None else parse_tokens r' (n_tok + 1) out1 mx)"
  have "(if ?ds = [] \<or> ?v < 1 \<or> ?v > 65535 then None else if n_tok + 1 > mx then None else rest) = Some r"
    using "1.prems"(1) unfolding parse_tokens.simps [of p] Let_def out1_def rest_def .
  then have c: "?ds \<noteq> []" "1 \<le> ?v" "?v \<le> 65535" "n_tok + 1 \<le> mx" and r: "rest = Some r"
    by (auto split: if_splits)
  have v: "unat (of_nat ?v :: u16) = ?v" using c(3) by (simp add: unat_of_nat)
  have o: "distinct out1" "0 \<notin> set out1" "int (length out1) \<le> n_tok + 1"
    unfolding out1_def using "1.prems"(2-) c(2) v by (auto simp: list_ex_iff simp flip: word_unat_eq_iff)
  show ?case
  proof (cases ?q)
    case Nil
    have "out1 = r" using r unfolding rest_def Nil list.case option.inject .
    then show ?thesis using o c(4) by simp
  next
    case (Cons ch r')
    have ch: "ch = CHR '',''" and p: "parse_tokens r' (n_tok + 1) out1 mx = Some r" using r unfolding rest_def Cons list.case by (auto split: if_splits)
    show ?thesis
      by (rule "1.IH" [OF refl refl refl refl _ _ out1_def Cons _ p o]) (use c ch in auto)
  qed
qed

text \<open>
  C37: A port list is read back as it was written: parsing the comma-separated decimal notation of
  distinct ports gives those ports in order. Whatever text is accepted, the result holds no
  duplicate, no port 0 and at most the given number of ports.
\<close>

theorem parse_ports_roundtrip:
  assumes "ps \<noteq> []" and "distinct ps" and "0 \<notin> set ps" and "int (length ps) \<le> mx"
  shows "mqvpn_redundant_parse_ports (Some (port_list ps)) mx = Some ps \<and>
    (\<forall>s. case mqvpn_redundant_parse_ports (Some s) mx of
       None \<Rightarrow> True | Some r \<Rightarrow> distinct r \<and> 0 \<notin> set r \<and> int (length r) \<le> mx)"
proof (intro conjI allI)
  obtain p qs where ps: "ps = p # qs" using assms(1) by (cases ps) auto
  obtain r where l: "port_list ps = decimal (unat p) @ r" by (cases qs) (auto simp: ps)
  obtain c cs where c: "decimal (unat p) = c # cs" "isdigit c" using decimal_digits [of "unat p"] by (cases "decimal (unat p)") auto
  have ne: "dropWhile port_blank (port_list ps) \<noteq> []" using blank_not_digit [OF c(2)] by (simp add: l c(1))
  have "parse_tokens (port_list ps) 0 [] mx = Some ([] @ ps)" by (rule parse_tokens_list) (use assms in auto)
  then show "mqvpn_redundant_parse_ports (Some (port_list ps)) mx = Some ps"
    by (simp only: mqvpn_redundant_parse_ports_def option.case ne if_False append_Nil)
  show "case mqvpn_redundant_parse_ports (Some s) mx of None \<Rightarrow> True | Some r \<Rightarrow> distinct r \<and> 0 \<notin> set r \<and> int (length r) \<le> mx" for s
    using parse_tokens_sound [of s 0 "[]" mx] assms(4)
    by (auto simp: mqvpn_redundant_parse_ports_def split: option.split)
qed

theorem parse_ports_roundtrip_witness:
  "mqvpn_redundant_parse_ports (Some ''53,80'') 16 = Some [53, 80]"
proof -
  have "port_list [53, 80] = ''53,80''" by code_simp
  then show ?thesis using parse_ports_roundtrip [of "[53, 80]" 16] by simp
qed


section \<open>Matching packets\<close>

lemma match_port_in: "off + 4 \<le> length pkt \<Longrightarrow> match_port ports pkt off = Some (be16 (pkt ! (off + 2)) (pkt ! (off + 3)) \<in> set ports)"
  by (simp add: match_port_def rd16_def rd_def numeral_3_eq_3)

lemma match_total: "mqvpn_redundant_match ports pkt \<noteq> None"
proof
  assume "mqvpn_redundant_match ports pkt = None"
  then show False
    by (auto simp: mqvpn_redundant_match_def match_port_def rd16_def rd_def Let_def split: if_splits)
qed

lemma frag_mask: "w AND 0x3fff = 0 \<Longrightarrow> w AND 0x1fff = 0" for w :: u16
proof -
  assume a: "w AND 0x3fff = 0"
  have "(0x1fff :: u16) = 0x3fff AND 0x1fff" by simp
  then have "w AND 0x1fff = (w AND 0x3fff) AND 0x1fff" by (metis and.assoc)
  then show ?thesis using a by simp
qed

lemma parse_v4_UDP:
  assumes "parse_v4 pkt = Some (MQVPN_L4_UDP, Some key)"
  defines "h \<equiv> unat (pkt ! 0 AND 0x0f) * 4"
  shows "20 \<le> length pkt \<and> \<not> (pkt ! 0 AND 0x0f) < 5 \<and> be16 (pkt ! 6) (pkt ! 7) AND 0x3fff = 0 \<and> pkt ! 9 = 17 \<and> h + 8 \<le> length pkt \<and>
    fk_dst_port key = be16 (pkt ! (h + 2)) (pkt ! (h + 3)) \<and> fk_ip_version key = 4"
proof -
  have l: "20 \<le> length pkt" using assms(1) by (auto simp: parse_v4_def split: if_splits)
  then have r: "rd pkt 0 = Some (pkt ! 0)" "rd16 pkt 6 = Some (be16 (pkt ! 6) (pkt ! 7))" "rd pkt 9 = Some (pkt ! 9)"
    "rd_bytes pkt 12 4 = Some (take 4 (drop 12 pkt))" "rd_bytes pkt 16 4 = Some (take 4 (drop 16 pkt))"
    by (auto simp: rd_def rd16_def rd_bytes_def)
  have i: "\<not> (pkt ! 0 AND 0x0f) < 5" "\<not> length pkt < h" "be16 (pkt ! 6) (pkt ! 7) AND 0x3fff = 0" "pkt ! 9 = 17 \<or> pkt ! 9 = 6"
    "\<not> length pkt < h + l4_min (pkt ! 9)"
    using assms(1) l unfolding parse_v4_def h_def
    by (auto simp: r Let_def MQVPN_IPPROTO_UDP_def MQVPN_IPPROTO_TCP_def split: if_splits)
  have m: "8 \<le> l4_min (pkt ! 9)" by (simp add: l4_min_def)
  then have b: "h + 8 \<le> length pkt" using i(5) by linarith
  then have p: "rd16 pkt h = Some (be16 (pkt ! h) (pkt ! (h + 1)))" "rd16 pkt (h + 2) = Some (be16 (pkt ! (h + 2)) (pkt ! (h + 3)))"
    by (simp_all add: rd16_def rd_def numeral_3_eq_3)
  have "parse_v4 pkt = Some (l4_verdict_of (pkt ! 9), Some \<lparr>fk_ip_version = 4, fk_proto = pkt ! 9, fk_src_port = be16 (pkt ! h) (pkt ! (h + 1)),
      fk_dst_port = be16 (pkt ! (h + 2)) (pkt ! (h + 3)), fk_src_ip = take 4 (drop 12 pkt) @ replicate 12 0, fk_dst_ip = take 4 (drop 16 pkt) @ replicate 12 0\<rparr>)"
    using l i unfolding parse_v4_def by (simp add: r p Let_def MQVPN_IPPROTO_UDP_def MQVPN_IPPROTO_TCP_def del: add_2_eq_Suc' flip: h_def)
  then have k: "l4_verdict_of (pkt ! 9) = MQVPN_L4_UDP" "fk_dst_port key = be16 (pkt ! (h + 2)) (pkt ! (h + 3))" "fk_ip_version key = 4"
    using assms(1) by auto
  then have "pkt ! 9 = 17" using i(4) by (auto simp: l4_verdict_of_def MQVPN_IPPROTO_TCP_def)
  then show ?thesis using l i k b by blast
qed

lemma match_v4:
  assumes "parse_v4 pkt = Some (MQVPN_L4_UDP, Some key)" and "drop_bit 4 (pkt ! 0) = 4"
  shows "mqvpn_redundant_match ports pkt = Some (ports = [] \<or> fk_dst_port key \<in> set ports)"
proof -
  define h where "h = unat (pkt ! 0 AND 0x0f) * 4"
  note L = parse_v4_UDP [OF assms(1), folded h_def]
  have "\<not> h < 20" using L by (simp add: word_less_nat_alt h_def)
  moreover have r: "rd pkt 0 = Some (pkt ! 0)" "rd16 pkt 6 = Some (be16 (pkt ! 6) (pkt ! 7))" "rd pkt 9 = Some (pkt ! 9)"
    using L by (auto simp: rd_def rd16_def)
  moreover have "pkt \<noteq> []" using L by auto
  ultimately show ?thesis
    using L assms(2) frag_mask [of "be16 (pkt ! 6) (pkt ! 7)"]
    by (simp add: mqvpn_redundant_match_def r Let_def match_port_in flip: h_def)
qed

lemma parse_v6_walk_version: "parse_v6_walk pkt n nxt off = Some (v, Some key) \<Longrightarrow> fk_ip_version key = 6"
  by (induction pkt n nxt off rule: parse_v6_walk.induct) (auto simp: Let_def split: if_splits bind_splits)

lemma match_v6:
  assumes "parse_v6 pkt = Some (MQVPN_L4_UDP, Some key)" and "drop_bit 4 (pkt ! 0) = 6" and "pkt ! 6 = 17"
  shows "mqvpn_redundant_match ports pkt = Some (ports = [] \<or> fk_dst_port key \<in> set ports)"
proof -
  have l: "40 \<le> length pkt" using assms(1) by (auto simp: parse_v6_def split: if_splits)
  then have r: "rd pkt 0 = Some (pkt ! 0)" "rd pkt 6 = Some (pkt ! 6)" by (auto simp: rd_def)
  have "parse_v6_walk pkt 16 17 40 = Some (MQVPN_L4_UDP, Some key)"
    using assms(1,3) l unfolding parse_v6_def by (simp add: r)
  moreover have "parse_v6_walk pkt 16 17 40 = parse_v6_walk pkt (Suc 15) 17 40" by simp
  ultimately have w: "(if length pkt < 40 + l4_min 17 then Some (MQVPN_L4_MALFORMED, None)
      else do { src \<leftarrow> rd_bytes pkt 8 16; dst \<leftarrow> rd_bytes pkt 24 16; sport \<leftarrow> rd16 pkt 40; dport \<leftarrow> rd16 pkt (40 + 2);
        Some (l4_verdict_of 17, Some \<lparr>fk_ip_version = 6, fk_proto = 17, fk_src_port = sport, fk_dst_port = dport, fk_src_ip = src, fk_dst_ip = dst\<rparr>) }) =
      Some (MQVPN_L4_UDP, Some key)"
    unfolding parse_v6_walk.simps MQVPN_IPPROTO_UDP_def by simp
  then have b: "48 \<le> length pkt" by (auto simp: MQVPN_IPPROTO_TCP_def l4_min_def split: if_splits)
  then have "rd16 pkt (40 + 2) = Some (be16 (pkt ! 42) (pkt ! 43))" "rd16 pkt 40 = Some (be16 (pkt ! 40) (pkt ! 41))"
      "rd_bytes pkt 8 16 = Some (take 16 (drop 8 pkt))" "rd_bytes pkt 24 16 = Some (take 16 (drop 24 pkt))"
    by (simp_all add: rd16_def rd_def rd_bytes_def)
  then have "fk_dst_port key = be16 (pkt ! 42) (pkt ! 43)"
    using w b by (auto simp: MQVPN_IPPROTO_TCP_def l4_min_def)
  moreover have "pkt \<noteq> []" using l by auto
  ultimately show ?thesis using l b assms(2,3) by (simp add: mqvpn_redundant_match_def r match_port_in)
qed

text \<open>
  C38: The packet filter of the redundant mode reads no byte outside the packet, and where the flow
  parser of the reorder shim sees a UDP packet (for IPv6: one whose first header is UDP, since
  the filter does not walk extension headers) it selects the packet exactly when the list is empty
  or holds the destination port the parser found.
\<close>

theorem redundant_match_agrees_with_parser:
  "mqvpn_redundant_match ports pkt \<noteq> None \<and>
   (mqvpn_reorder_parse_5tuple pkt = Some (Some key) \<and> (fk_ip_version key = 4 \<or> pkt ! 6 = 17) \<longrightarrow>
      mqvpn_redundant_match ports pkt = Some (ports = [] \<or> fk_dst_port key \<in> set ports))"
proof (intro conjI impI match_total)
  assume a: "mqvpn_reorder_parse_5tuple pkt = Some (Some key) \<and> (fk_ip_version key = 4 \<or> pkt ! 6 = 17)"
  obtain rs where rs: "mqvpn_parse_l3l4 pkt = Some rs" using mqvpn_parse_l3l4_total by blast
  then have p: "mqvpn_parse_l3l4 pkt = Some (MQVPN_L4_UDP, Some key)"
    using a by (cases rs) (auto simp: mqvpn_reorder_parse_5tuple_def split: if_splits)
  then have ne: "pkt \<noteq> []" by (auto simp: mqvpn_parse_l3l4_def)
  then have r0: "rd pkt 0 = Some (pkt ! 0)" by (simp add: rd_def)
  consider (v4) "drop_bit 4 (pkt ! 0) = 4" "parse_v4 pkt = Some (MQVPN_L4_UDP, Some key)"
    | (v6) "drop_bit 4 (pkt ! 0) = 6" "parse_v6 pkt = Some (MQVPN_L4_UDP, Some key)"
    using p ne by (auto simp: mqvpn_parse_l3l4_def r0 Let_def split: if_splits)
  then show "mqvpn_redundant_match ports pkt = Some (ports = [] \<or> fk_dst_port key \<in> set ports)"
  proof cases
    case v4
    then show ?thesis by (intro match_v4)
  next
    case v6
    have "fk_ip_version key = 6"
      using v6(2) parse_v6_walk_version [of pkt 16] by (auto simp: parse_v6_def split: if_splits option.splits bind_splits)
    then show ?thesis using a v6 by (intro match_v6) auto
  qed
qed

definition ex_rtx_pkt :: "u8 list" where
  "ex_rtx_pkt = [0x45, 0, 0, 28, 0, 0, 0, 0, 64, 17, 0, 0, 10, 0, 0, 2, 10, 0, 0, 1, 0x0f, 0xa0, 0x11, 0x51, 0, 8, 0, 0]"

theorem redundant_match_agrees_with_parser_witness:
  "mqvpn_redundant_match [53, 4433] ex_rtx_pkt = Some True \<and> mqvpn_redundant_match [53] ex_rtx_pkt = Some False"
proof -
  define k where "k = the (the (mqvpn_reorder_parse_5tuple ex_rtx_pkt))"
  have p: "mqvpn_reorder_parse_5tuple ex_rtx_pkt = Some (Some k)" unfolding k_def by code_simp
  have f: "fk_ip_version k = 4" "fk_dst_port k = 4433" unfolding k_def by code_simp+
  show ?thesis
    using redundant_match_agrees_with_parser [of "[53, 4433]" ex_rtx_pkt k] redundant_match_agrees_with_parser [of "[53]" ex_rtx_pkt k] p f
    by simp
qed


section \<open>Choosing the paths\<close>

lemma less_queued_le:
  "less_queued t now p b \<Longrightarrow> rtx_queued_us t p now \<le> rtx_queued_us t b now"
  "\<not> less_queued t now p b \<Longrightarrow> rtx_queued_us t b now \<le> rtx_queued_us t p now"
  by (auto simp: less_queued_def Let_def not_less)

lemma select_best_Some:
  assumes "path_ok b"
  shows "\<exists>c. select_best t now ps (Some b) = Some c \<and> path_ok c \<and> (c = b \<or> c \<in> set ps) \<and>
    rtx_queued_us t c now \<le> rtx_queued_us t b now \<and> (\<forall>p \<in> set ps. path_ok p \<longrightarrow> rtx_queued_us t c now \<le> rtx_queued_us t p now)"
  using assms
proof (induction ps arbitrary: b)
  case (Cons p ps)
  let ?n = "if path_ok p \<and> less_queued t now p b then p else b"
  have n: "path_ok ?n" "rtx_queued_us t ?n now \<le> rtx_queued_us t b now" "path_ok p \<Longrightarrow> rtx_queued_us t ?n now \<le> rtx_queued_us t p now"
    using Cons.prems less_queued_le by (auto split: if_splits)
  obtain c where c: "select_best t now ps (Some ?n) = Some c" "path_ok c" "c = ?n \<or> c \<in> set ps"
    "rtx_queued_us t c now \<le> rtx_queued_us t ?n now" "\<forall>p \<in> set ps. path_ok p \<longrightarrow> rtx_queued_us t c now \<le> rtx_queued_us t p now"
    using Cons.IH [OF n(1)] by blast
  have "select_best t now (p # ps) (Some b) = Some c" using c(1) by (auto split: if_splits)
  moreover have "c = b \<or> c \<in> set (p # ps)" using c(3) by (auto split: if_splits)
  moreover have "rtx_queued_us t c now \<le> rtx_queued_us t b now" by (rule order_trans [OF c(4) n(2)])
  moreover have "rtx_queued_us t c now \<le> rtx_queued_us t p now" if "path_ok p" by (rule order_trans [OF c(4) n(3) [OF that]])
  ultimately show ?case using c(2,5) by auto
qed auto

lemma select_best_None:
  assumes "list_ex path_ok ps"
  shows "\<exists>c. select_best t now ps None = Some c \<and> path_ok c \<and> c \<in> set ps \<and>
    (\<forall>p \<in> set ps. path_ok p \<longrightarrow> rtx_queued_us t c now \<le> rtx_queued_us t p now)"
  using assms
proof (induction ps)
  case (Cons p ps)
  show ?case
  proof (cases "path_ok p")
    case True
    then show ?thesis using select_best_Some [OF True, of t now ps] by auto
  next
    case False
    then show ?thesis using Cons by auto
  qed
qed simp

lemma mark_hits:
  assumes "length (rt_path t) = MQVPN_MAX_PATHS" and "list_all path_ok ps" and "path_ok p"
  shows "rp_hit (the_path (fold (\<lambda>p t. mark_hit t p) ps t) p) \<longleftrightarrow> rp_hit (the_path t p) \<or> p \<in> set ps"
  using assms(1,2)
proof (induction ps arbitrary: t)
  case (Cons a ps)
  have "nat p < MQVPN_MAX_PATHS" "nat a < MQVPN_MAX_PATHS" "nat a = nat p \<longleftrightarrow> a = p"
    using assms(3) Cons.prems(2) by (auto simp: path_ok_def)
  then have "rp_hit (the_path (mark_hit t a) p) \<longleftrightarrow> rp_hit (the_path t p) \<or> a = p"
    using Cons.prems(1) by (auto simp: mark_hit_def upd_path_def nth_list_update)
  moreover have "length (rt_path (mark_hit t a)) = MQVPN_MAX_PATHS" using Cons.prems(1) by (simp add: mark_hit_def upd_path_def)
  ultimately show ?case using Cons.IH Cons.prems(2) by auto
qed simp

text \<open>
  C39: The choice of paths for a packet: among the usable paths there is a least queued one, and the
  packet goes, in the order given and up to the free room for copies, to exactly the paths
  that are queued at most 250 ms more than it, or to it alone when it is itself queued longer
  than 250 ms; exactly the other usable paths are marked as left out.
\<close>

theorem select_copies_to_least_queued:
  assumes "list_ex path_ok usable" and "tb_n (rt_origs t) < int RTX_CAP" and "length (rt_path t) = MQVPN_MAX_PATHS"
    and "mqvpn_redundant_tx_select t usable now = (t', out)"
  shows "\<exists>best. best \<in> set usable \<and> path_ok best \<and>
    (\<forall>p \<in> set usable. path_ok p \<longrightarrow> rtx_queued_us t best now \<le> rtx_queued_us t p now) \<and>
    (let chosen = (\<lambda>p. path_ok p \<and> (if rtx_queued_us t best now > 250000 then p = best
                                 else unat (rtx_queued_us t p now) \<le> unat (rtx_queued_us t best now) + 250000))
     in out = take (nat (int RTX_CAP - tb_n (rt_copies t))) (filter chosen usable) \<and>
        (\<forall>p \<in> set usable. path_ok p \<longrightarrow> (rp_hit (the_path t' p) \<longleftrightarrow> rp_hit (the_path t p) \<or> \<not> chosen p)))"
proof -
  obtain best where b: "select_best t now usable None = Some best" "path_ok best" "best \<in> set usable"
    "\<forall>p \<in> set usable. path_ok p \<longrightarrow> rtx_queued_us t best now \<le> rtx_queued_us t p now"
    using select_best_None [OF assms(1), of t now] by blast
  define C where "C = (\<lambda>p. path_ok p \<and> (if rtx_queued_us t best now > 250000 then p = best
                                 else unat (rtx_queued_us t p now) \<le> unat (rtx_queued_us t best now) + 250000))"
  have k: "path_ok p \<and> keeps_up t now best p \<longleftrightarrow> C p" for p
  proof (cases "rtx_queued_us t best now > 250000")
    case True
    then show ?thesis by (simp add: C_def keeps_up_def RTX_LAG_def)
  next
    case False
    then have q: "unat (rtx_queued_us t best now) \<le> 250000" by (simp add: word_less_nat_alt not_less)
    then have "unat (rtx_queued_us t best now + 250000) = unat (rtx_queued_us t best now) + 250000"
      by (subst unat_add_lem [THEN iffD1]) simp_all
    then show ?thesis using False by (simp add: C_def keeps_up_def RTX_LAG_def word_le_nat_alt)
  qed
  have ne: "usable \<noteq> []" using assms(1) by auto
  have room: "take (nat (if int (length xs) < r then int (length xs) else r)) xs = take (nat r) xs" for xs :: "int list" and r
    by auto
  have f: "filter (keeps_up t now best) (filter path_ok usable) = filter C usable"
    unfolding filter_filter by (rule filter_cong [OF refl]) (use k in blast)
  have out: "out = take (nat (int RTX_CAP - tb_n (rt_copies t))) (filter C usable)"
    and t': "t' = fold (\<lambda>p t. mark_hit t p) (filter (\<lambda>p. \<not> keeps_up t now best p) (filter path_ok usable)) t"
    using assms(2,4) ne unfolding mqvpn_redundant_tx_select_def b(1) option.case Let_def room f by (simp_all split: if_splits)
  have hit: "rp_hit (the_path t' p) \<longleftrightarrow> rp_hit (the_path t p) \<or> \<not> C p" if "p \<in> set usable" "path_ok p" for p
  proof -
    have "rp_hit (the_path t' p) \<longleftrightarrow> rp_hit (the_path t p) \<or> p \<in> set (filter (\<lambda>p. \<not> keeps_up t now best p) (filter path_ok usable))"
      unfolding t' by (rule mark_hits [OF assms(3) _ that(2)]) (simp add: list_all_iff)
    moreover have "p \<in> set (filter (\<lambda>p. \<not> keeps_up t now best p) (filter path_ok usable)) \<longleftrightarrow> \<not> keeps_up t now best p"
      using that by simp
    ultimately show ?thesis using k that(2) by blast
  qed
  show ?thesis
    unfolding Let_def
    by (intro exI [of _ best] conjI ballI impI b(2,3) b(4) [rule_format] out [unfolded C_def] hit [unfolded C_def])
qed


definition ex_rtx :: mqvpn_redundant_tx where
  "ex_rtx = the (mqvpn_redundant_tx_new True True True)"

lemma ex_rtx_sel:
  "rt_path ex_rtx = replicate MQVPN_MAX_PATHS zero_path" "tb_n (rt_origs ex_rtx) = 0" "tb_n (rt_copies ex_rtx) = 0"
  "rt_mode ex_rtx = RTX_NORMAL" "rt_short_n ex_rtx = 0" "rt_hold_us ex_rtx = RTX_HOLD_FIRST" "rt_prev_bkt_count ex_rtx = 0"
  by (simp_all add: ex_rtx_def mqvpn_redundant_tx_new_def rtx_mode_reset_def empty_tab_def)

theorem select_copies_to_least_queued_witness:
  "snd (mqvpn_redundant_tx_select ex_rtx [0, 9, 2] 1000) = [0, 2]"
proof -
  obtain t' out where s: "mqvpn_redundant_tx_select ex_rtx [0, 9, 2] 1000 = (t', out)" by fastforce
  have p: "path_ok 0" "path_ok 2" "\<not> path_ok 9" by (simp_all add: path_ok_def MQVPN_MAX_PATHS_def)
  have q: "rtx_queued_us ex_rtx 0 1000 = 0" "rtx_queued_us ex_rtx 2 1000 = 0"
    by (simp_all add: rtx_queued_us_def ex_rtx_sel zero_path_def MQVPN_MAX_PATHS_def)
  have e: "list_ex path_ok [0, 9, 2]" "tb_n (rt_origs ex_rtx) < int RTX_CAP" "length (rt_path ex_rtx) = MQVPN_MAX_PATHS"
    using p by (simp_all add: ex_rtx_sel RTX_CAP_def)
  show ?thesis
    using select_copies_to_least_queued [OF e s] p q by (auto simp: s Let_def ex_rtx_sel RTX_CAP_def)
qed


section \<open>Overload mode\<close>

definition mode_inv :: "mqvpn_redundant_tx \<Rightarrow> bool" where
  "mode_inv t \<longleftrightarrow> RTX_HOLD_FIRST \<le> rt_hold_us t \<and> rt_hold_us t \<le> RTX_HOLD_MAX \<and>
     (rt_mode t \<noteq> RTX_OVERLOAD \<longrightarrow> 0 \<le> rt_short_n t \<and> rt_short_n t < (if rt_mode t = RTX_PROBE then 2 else 5))"

lemma window_start_sel [simp]:
  "rt_mode (rtx_window_start t now) = rt_mode t" "rt_short_n (rtx_window_start t now) = rt_short_n t"
  "rt_hold_us (rtx_window_start t now) = rt_hold_us t" "rt_since_us (rtx_window_start t now) = rt_since_us t"
  "rt_flow_since_us (rtx_window_start t now) = rt_flow_since_us t"
  by (simp_all add: rtx_window_start_def)

lemma hold_double:
  assumes "RTX_HOLD_FIRST \<le> h" "h \<le> RTX_HOLD_MAX"
  shows "RTX_HOLD_FIRST \<le> h * 2"
proof -
  have "unat h \<le> 32000000" using assms(2) by (simp add: RTX_HOLD_MAX_def word_le_nat_alt)
  then have "unat (h * 2) = unat h * 2" by (subst unat_mult_lem [THEN iffD1]) simp_all
  then show ?thesis using assms(1) by (simp add: RTX_HOLD_FIRST_def word_le_nat_alt)
qed

lemma mode_react_spec:
  assumes "mode_inv t" and "mode_react t now all_short fit = (t', r)"
  defines "short \<equiv> all_short \<and> RTX_START_GRACE \<le> now - rt_flow_since_us t"
  shows "mode_inv t' \<and>
    (r = 1 \<longleftrightarrow> rt_mode t \<noteq> RTX_OVERLOAD \<and> short \<and> rt_short_n t = (if rt_mode t = RTX_PROBE then 1 else 4)) \<and>
    (r = - 1 \<longleftrightarrow> rt_mode t = RTX_OVERLOAD \<and> rt_hold_us t \<le> now - rt_since_us t \<and> fit) \<and>
    rt_mode t' = (if r = 1 then RTX_OVERLOAD else if r = - 1 then RTX_PROBE
      else if rt_mode t = RTX_PROBE \<and> RTX_PROBE_OK \<le> now - rt_since_us t then RTX_NORMAL else rt_mode t) \<and>
    (rt_mode t \<noteq> RTX_OVERLOAD \<longrightarrow> rt_short_n t' = (if short then rt_short_n t + 1 else 0)) \<and>
    (r = - 1 \<longrightarrow> rt_short_n t' = 0) \<and> (r \<noteq> 0 \<longrightarrow> rt_since_us t' = now)"
proof -
  have f: "RTX_HOLD_FIRST \<le> RTX_HOLD_MAX" by (simp add: RTX_HOLD_FIRST_def RTX_HOLD_MAX_def)
  have hold: "RTX_HOLD_FIRST \<le> rt_hold_us t" "rt_hold_us t \<le> RTX_HOLD_MAX" using assms(1) by (simp_all add: mode_inv_def)
  show ?thesis
  proof (cases "rt_mode t = RTX_OVERLOAD")
    case True
    then show ?thesis using assms(2) hold by (auto simp: mode_react_def mode_inv_def not_less split: if_splits)
  next
    case False
    define n where "n = (if short then rt_short_n t + 1 else 0)"
    define lim where "lim = (if rt_mode t = RTX_PROBE then 2 else 5 :: int)"
    have s: "0 \<le> rt_short_n t" "rt_short_n t < lim" using assms(1) False by (simp_all add: mode_inv_def lim_def)
    define T where "T = t\<lparr>rt_short_n := n\<rparr>"
    have T: "rt_short_n T = n" "rt_mode T = rt_mode t" "rt_hold_us T = rt_hold_us t" "rt_since_us T = rt_since_us t"
      by (simp_all add: T_def)
    have u: "mode_react t now all_short fit =
      (if n \<ge> lim
       then (T\<lparr>rt_hold_us := (if rt_mode t = RTX_PROBE
               then (if rt_hold_us t * 2 > RTX_HOLD_MAX then RTX_HOLD_MAX else rt_hold_us t * 2) else rt_hold_us t),
             rt_mode := RTX_OVERLOAD, rt_since_us := now\<rparr>, 1)
       else if rt_mode t = RTX_PROBE \<and> now - rt_since_us t \<ge> RTX_PROBE_OK
       then (T\<lparr>rt_mode := RTX_NORMAL, rt_hold_us := RTX_HOLD_FIRST\<rparr>, 0)
       else (T, 0))"
      unfolding mode_react_def Let_def short_def [symmetric] n_def [symmetric] T_def [symmetric] T lim_def RTX_REENTER_N_def RTX_ENTER_N_def
      by (simp only: False if_False)
    have nl: "lim \<le> n \<longleftrightarrow> short \<and> rt_short_n t = (if rt_mode t = RTX_PROBE then 1 else 4)"
      using s by (auto simp: n_def lim_def)
    show ?thesis
    proof (cases "n \<ge> lim")
      case True
      have t': "rt_mode t' = RTX_OVERLOAD" "rt_since_us t' = now" "r = 1" "rt_short_n t' = n"
        "rt_hold_us t' = (if rt_mode t = RTX_PROBE then (if rt_hold_us t * 2 > RTX_HOLD_MAX then RTX_HOLD_MAX else rt_hold_us t * 2) else rt_hold_us t)"
        using assms(2) True T by (auto simp: u)
      have "mode_inv t'" using hold hold_double [OF hold] f by (simp add: mode_inv_def t' not_less)
      then show ?thesis using t' False nl True by (simp add: n_def)
    next
      case low: False
      have n: "0 \<le> n" "n < lim" using low s by (simp_all add: n_def)
      have "r = 0" "rt_mode t' \<noteq> RTX_OVERLOAD" "mode_inv t'" "rt_short_n t' = n"
        "rt_mode t' = (if rt_mode t = RTX_PROBE \<and> RTX_PROBE_OK \<le> now - rt_since_us t then RTX_NORMAL else rt_mode t)"
        using assms(2) low False n f hold T by (auto simp: u mode_inv_def lim_def split: if_splits)
      then show ?thesis using False nl low by (simp add: n_def)
    qed
  qed
qed

text \<open>
  A window is judged when it has run for 200 milliseconds, the stream is neither idle nor at rate 0
  and the clock did not step back; the judgement is short when the stream is older than the start grace,
  enough packets were counted, and every usable path was backed up and delivered under 95 per cent
  of the stream.
\<close>

definition window_judged :: "mqvpn_redundant_tx \<Rightarrow> int list \<Rightarrow> u64 \<Rightarrow> bool" where
  "window_judged t usable now \<longleftrightarrow> usable \<noteq> [] \<and> \<not> mode_stale t now \<and> rt_win_start_us t \<noteq> 0 \<and>
     RTX_MODE_WIN \<le> now - rt_win_start_us t \<and> rtx_stream_pps t \<noteq> 0"

definition window_short :: "mqvpn_redundant_tx \<Rightarrow> int list \<Rightarrow> u64 \<Rightarrow> bool" where
  "window_short t usable now \<longleftrightarrow>
     (let el = now - rt_win_start_us t; pps = rtx_stream_pps t
      in RTX_START_GRACE \<le> now - rt_flow_since_us t \<and> RTX_MIN_JUDGED * 1000000 \<le> pps * el \<and>
         list_all (\<lambda>i. let p = the_path t i
                        in (rp_hit p \<or> rp_inflight p + rp_inflight p div 10 < rp_out_bytes p) \<and>
                           rp_acked p * 1000000 div el * 100 < pps * 95) (filter path_ok usable))"

lemma update_mode_judged:
  assumes "window_judged t usable now"
  shows "mqvpn_redundant_tx_update_mode t usable now =
    mode_react (rtx_window_start t now) now (fst (judge_window t usable (now - rt_win_start_us t)))
      (list_ex (path_fits t) (filter path_ok usable))"
    "window_short t usable now \<longleftrightarrow>
       fst (judge_window t usable (now - rt_win_start_us t)) \<and> RTX_START_GRACE \<le> now - rt_flow_since_us t"
proof -
  have "\<not> now - rt_win_start_us t < RTX_MODE_WIN" using assms by (simp add: window_judged_def not_less)
  then show "mqvpn_redundant_tx_update_mode t usable now =
    mode_react (rtx_window_start t now) now (fst (judge_window t usable (now - rt_win_start_us t)))
      (list_ex (path_fits t) (filter path_ok usable))"
    using assms by (simp add: window_judged_def mqvpn_redundant_tx_update_mode_def judge_window_def Let_def)
  show "window_short t usable now \<longleftrightarrow>
       fst (judge_window t usable (now - rt_win_start_us t)) \<and> RTX_START_GRACE \<le> now - rt_flow_since_us t"
    unfolding window_short_def judge_window_def path_short_def Let_def by (auto simp: not_less not_le)
qed

lemma update_mode_unjudged:
  assumes "\<not> window_judged t usable now" and "mqvpn_redundant_tx_update_mode t usable now = (t', r)"
  shows "if usable \<noteq> [] \<and> mode_stale t now
    then rt_mode t' = RTX_NORMAL \<and> rt_short_n t' = 0 \<and> rt_hold_us t' = RTX_HOLD_FIRST \<and> r = (if rt_mode t = RTX_OVERLOAD then - 1 else 0)
    else rt_mode t' = rt_mode t \<and> rt_short_n t' = rt_short_n t \<and> rt_hold_us t' = rt_hold_us t \<and> r = 0"
  using assms by (auto simp: mqvpn_redundant_tx_update_mode_def window_judged_def rtx_mode_reset_def Let_def not_less case_prod_beta
      split: if_splits)

text \<open>
  C40: The overload mode: the result is 1 exactly on entering it and -1 exactly on leaving it. It is
  entered exactly when a window is judged short after four judgements short in a row (one during a
  probe): outside overload each short judgement counts one more, each other judgement starts the
  count again from zero, and so does a stream that went idle or a clock that stepped back; an
  update that judges nothing keeps the count. The mode is left when the stream went idle or the
  clock stepped back, and otherwise exactly for a probe, on a judgement after the hold when some
  path fits the stream. The hold always stays between 10 and 32 seconds.
\<close>

theorem overload_mode_transitions:
  assumes "mode_inv t" and "mqvpn_redundant_tx_update_mode t usable now = (t', r)"
  shows "mode_inv t' \<and> (r = 1 \<longleftrightarrow> rt_mode t \<noteq> RTX_OVERLOAD \<and> rt_mode t' = RTX_OVERLOAD) \<and>
    (r = - 1 \<longleftrightarrow> rt_mode t = RTX_OVERLOAD \<and> rt_mode t' \<noteq> RTX_OVERLOAD) \<and>
    (r = 1 \<longleftrightarrow> window_judged t usable now \<and> window_short t usable now \<and> rt_mode t \<noteq> RTX_OVERLOAD \<and>
       rt_short_n t = (if rt_mode t = RTX_PROBE then 1 else 4)) \<and>
    (rt_mode t \<noteq> RTX_OVERLOAD \<longrightarrow> rt_short_n t' =
       (if window_judged t usable now then if window_short t usable now then rt_short_n t + 1 else 0
        else if usable \<noteq> [] \<and> mode_stale t now then 0 else rt_short_n t)) \<and>
    (r = - 1 \<longrightarrow> rt_short_n t' = 0) \<and>
    (r = - 1 \<longleftrightarrow> rt_mode t = RTX_OVERLOAD \<and>
       (usable \<noteq> [] \<and> mode_stale t now \<or>
        window_judged t usable now \<and> rt_hold_us t \<le> now - rt_since_us t \<and> list_ex (path_fits t) (filter path_ok usable))) \<and>
    (r = - 1 \<and> \<not> mode_stale t now \<longrightarrow> rt_mode t' = RTX_PROBE) \<and>
    (r = 1 \<or> r = - 1 \<and> \<not> mode_stale t now \<longrightarrow> rt_since_us t' = now)"
proof (cases "window_judged t usable now")
  case True
  let ?t = "rtx_window_start t now"
  have st: "\<not> mode_stale t now" using True by (simp add: window_judged_def)
  have inv: "mode_inv ?t" using assms(1) by (simp add: mode_inv_def)
  note R = mode_react_spec [OF inv assms(2) [unfolded update_mode_judged(1) [OF True]], unfolded window_start_sel,
      folded update_mode_judged(2) [OF True]]
  then show ?thesis using True st by (auto split: if_splits)
next
  case False
  have "RTX_HOLD_FIRST \<le> RTX_HOLD_MAX" by (simp add: RTX_HOLD_FIRST_def RTX_HOLD_MAX_def)
  then show ?thesis using False assms(1) update_mode_unjudged [OF False assms(2)]
    by (auto simp: mode_inv_def split: if_splits)
qed

text \<open>A stream of 1000 packets a second that the only usable path left out, after four short judgements.\<close>

definition ex_overload :: mqvpn_redundant_tx where
  "ex_overload = ex_rtx\<lparr>rt_have_win := True, rt_last_us := 20000000, rt_win_start_us := 19700000, rt_flow_since_us := 1000000,
     rt_prev_count := 1000, rt_short_n := 4, rt_path := map (\<lambda>p. p\<lparr>rp_hit := True\<rparr>) (rt_path ex_rtx)\<rparr>"

theorem overload_mode_transitions_witness:
  "snd (mqvpn_redundant_tx_update_mode ex_overload [0] 20000000) = 1 \<and>
   rt_mode (fst (mqvpn_redundant_tx_update_mode ex_overload [0] 20000000)) = RTX_OVERLOAD \<and>
   mode_inv (fst (mqvpn_redundant_tx_update_mode ex_overload [0] 20000000))"
proof -
  obtain t' r where u: "mqvpn_redundant_tx_update_mode ex_overload [0] 20000000 = (t', r)" by fastforce
  have i: "mode_inv ex_overload" by (simp add: ex_overload_def mode_inv_def ex_rtx_sel RTX_HOLD_FIRST_def RTX_HOLD_MAX_def)
  have pps: "rtx_stream_pps ex_overload = 1000"
    by (simp add: ex_overload_def rtx_stream_pps_def ex_rtx_sel RTX_RATE_BUCKET_def Let_def)
  have j: "window_judged ex_overload [0] 20000000"
    by (simp add: window_judged_def pps) (simp add: ex_overload_def mode_stale_def RTX_IDLE_def RTX_MODE_WIN_def)
  have p: "rt_path ex_overload ! 0 = zero_path\<lparr>rp_hit := True\<rparr>"
    by (simp add: ex_overload_def ex_rtx_sel MQVPN_MAX_PATHS_def)
  have s: "window_short ex_overload [0] 20000000"
    by (simp add: window_short_def pps p Let_def path_ok_def MQVPN_MAX_PATHS_def zero_path_def)
      (simp add: ex_overload_def RTX_START_GRACE_def RTX_MIN_JUDGED_def)
  have m: "rt_mode ex_overload = RTX_NORMAL" "rt_short_n ex_overload = 4" by (simp_all add: ex_overload_def ex_rtx_sel)
  from overload_mode_transitions [OF i u] show ?thesis using j s m by (auto simp: u)
qed

end
