(* ===== verification/Rtx_Copies.thy ===== *)
theory Rtx_Copies
  imports Redundant_Props
begin

text \<open>
  The bookkeeping of the redundant transmitter (src/redundant\_tx.c): the invariant that ties the
  table of copies, the table of originals and the counters of the paths together, and the
  operations that keep it by touching neither table, by detaching a path, or by recording the
  copies of a new original.
\<close>


section \<open>Weights as counts\<close>

lemma weight_card:
  assumes "finite (dom m)"
  shows "weight m (\<lambda>x. if P x then 1 else 0) = card {k. \<exists>x. m k = Some x \<and> P x}"
proof -
  have "weight m (\<lambda>x. if P x then 1 else 0) = (\<Sum>k \<in> dom m. if P (the (m k)) then 1 else 0)" by (simp add: weight_def)
  also have "\<dots> = card (dom m \<inter> {k. P (the (m k))})" using assms by (simp add: sum.If_cases)
  also have "dom m \<inter> {k. P (the (m k))} = {k. \<exists>x. m k = Some x \<and> P x}" by auto
  finally show ?thesis .
qed

lemma weight_map: "weight (\<lambda>k. map_option g (m k)) w = weight m (\<lambda>x. w (g x))"
proof -
  have d: "dom (\<lambda>k. map_option g (m k)) = dom m" by (auto simp: dom_def)
  show ?thesis unfolding weight_def d by (rule sum.cong) auto
qed

lemma weight_cong: "(\<And>k x. m k = Some x \<Longrightarrow> v x = w x) \<Longrightarrow> weight m v = weight m w"
  unfolding weight_def by (rule sum.cong) auto

lemma weight_le_card:
  assumes "finite (dom m)" and "\<And>x. w x \<le> (1 :: nat)"
  shows "weight m w \<le> card (dom m)"
  unfolding weight_def using sum_bounded_above [of "dom m" "\<lambda>k. w (the (m k))" 1] assms by simp


section \<open>Invariant\<close>

definition copies_of :: "mqvpn_redundant_tx \<Rightarrow> u64 \<Rightarrow> u64 set" where
  "copies_of t k = {i. \<exists>x. tab_abs (rt_copies t) i = Some x \<and> re_a x = k}"

definition on_path :: "rtx_tab \<Rightarrow> int \<Rightarrow> nat" where
  "on_path c p = weight (tab_abs c) (\<lambda>x. if re_b x = p then 1 else 0)"

definition bytes_on :: "rtx_tab \<Rightarrow> int \<Rightarrow> nat" where
  "bytes_on c p = weight (tab_abs c) (\<lambda>x. if re_b x = p then unat (re_len x) else 0)"

definition path_counts_ok :: "rtx_tab \<Rightarrow> rtx_path list \<Rightarrow> bool" where
  "path_counts_ok c ps \<longleftrightarrow> length ps = MQVPN_MAX_PATHS \<and>
     (\<forall>i < MQVPN_MAX_PATHS. rp_outstanding (ps ! i) = int (on_path c (int i)) \<and>
        rp_out_bytes (ps ! i) = of_nat (bytes_on c (int i)) \<and> rp_first (ps ! i) < RTX_CAP)"

definition sent_ok :: "u64 list list \<Rightarrow> bool" where
  "sent_ok s \<longleftrightarrow> length s = MQVPN_MAX_PATHS \<and> (\<forall>q \<in> set s. length q = RTX_CAP)"

definition links_ok :: "mqvpn_redundant_tx \<Rightarrow> bool" where
  "links_ok t \<longleftrightarrow>
     (\<forall>i x. tab_abs (rt_copies t) i = Some x \<longrightarrow> (re_b x = - 1 \<or> path_ok (re_b x)) \<and> tab_abs (rt_origs t) (re_a x) \<noteq> None) \<and>
     (\<forall>k x. tab_abs (rt_origs t) k = Some x \<longrightarrow>
        0 < unat (re_a x) \<and> unat (re_a x) = card (copies_of t k) \<and> (re_b x = 0 \<or> re_b x = 1) \<and> k \<le> rt_next_orig t)"

lemma links_okD:
  assumes "links_ok t"
  shows "tab_abs (rt_copies t) i = Some x \<Longrightarrow> re_b x = - 1 \<or> path_ok (re_b x)"
    and "tab_abs (rt_copies t) i = Some x \<Longrightarrow> tab_abs (rt_origs t) (re_a x) \<noteq> None"
    and "tab_abs (rt_origs t) k = Some y \<Longrightarrow> 0 < unat (re_a y)" and "tab_abs (rt_origs t) k = Some y \<Longrightarrow> unat (re_a y) = card (copies_of t k)"
    and "tab_abs (rt_origs t) k = Some y \<Longrightarrow> re_b y = 0 \<or> re_b y = 1" and "tab_abs (rt_origs t) k = Some y \<Longrightarrow> k \<le> rt_next_orig t"
  using assms unfolding links_ok_def by blast+

definition rtx_inv :: "mqvpn_redundant_tx \<Rightarrow> bool" where
  "rtx_inv t \<longleftrightarrow> tab_ok (rt_copies t) \<and> tab_ok (rt_origs t) \<and> links_ok t \<and>
     path_counts_ok (rt_copies t) (rt_path t) \<and> sent_ok (rt_sent t)"

text \<open>What the tables record: for each original its unresolved copies and whether one was acknowledged.\<close>

definition view :: "mqvpn_redundant_tx \<Rightarrow> u64 \<Rightarrow> (u64 set \<times> bool) option" where
  "view t k = map_option (\<lambda>x. (copies_of t k, re_b x \<noteq> 0)) (tab_abs (rt_origs t) k)"

text \<open>An operation that leaves the tables and the counters of the paths alone.\<close>

definition same_core :: "mqvpn_redundant_tx \<Rightarrow> mqvpn_redundant_tx \<Rightarrow> bool" where
  "same_core t t' \<longleftrightarrow> rt_copies t' = rt_copies t \<and> rt_origs t' = rt_origs t \<and> rt_next_orig t' = rt_next_orig t \<and> rt_sent t' = rt_sent t \<and>
     map (\<lambda>p. (rp_outstanding p, rp_out_bytes p, rp_first p)) (rt_path t') = map (\<lambda>p. (rp_outstanding p, rp_out_bytes p, rp_first p)) (rt_path t)"

lemma path_counts_cong:
  assumes "map (\<lambda>p. (rp_outstanding p, rp_out_bytes p, rp_first p)) ps' = map (\<lambda>p. (rp_outstanding p, rp_out_bytes p, rp_first p)) ps"
  shows "path_counts_ok c ps' \<longleftrightarrow> path_counts_ok c ps"
proof -
  have l: "length ps' = length ps" by (rule map_eq_imp_length_eq [OF assms])
  have "rp_outstanding (ps' ! i) = rp_outstanding (ps ! i) \<and> rp_out_bytes (ps' ! i) = rp_out_bytes (ps ! i) \<and> rp_first (ps' ! i) = rp_first (ps ! i)"
    if "i < length ps" for i
  proof -
    have "map (\<lambda>p. (rp_outstanding p, rp_out_bytes p, rp_first p)) ps' ! i = map (\<lambda>p. (rp_outstanding p, rp_out_bytes p, rp_first p)) ps ! i"
      using assms by simp
    then show ?thesis using that l by simp
  qed
  then show ?thesis unfolding path_counts_ok_def l by auto
qed

lemma same_core_inv: "same_core t t' \<Longrightarrow> rtx_inv t' \<longleftrightarrow> rtx_inv t" and same_core_view: "same_core t t' \<Longrightarrow> view t' = view t"
proof -
  assume s: "same_core t t'"
  have c: "copies_of t' = copies_of t" using s by (auto simp: same_core_def copies_of_def fun_eq_iff)
  show "view t' = view t" using s c by (auto simp: same_core_def view_def fun_eq_iff)
  have "path_counts_ok (rt_copies t') (rt_path t') \<longleftrightarrow> path_counts_ok (rt_copies t) (rt_path t)"
    using s path_counts_cong [of "rt_path t'" "rt_path t"] by (simp add: same_core_def)
  then show "rtx_inv t' \<longleftrightarrow> rtx_inv t" using s c by (simp add: rtx_inv_def links_ok_def same_core_def)
qed

lemma same_core_refl: "same_core t t"
  by (simp add: same_core_def)

lemma same_core_trans: "same_core t u \<Longrightarrow> same_core u v \<Longrightarrow> same_core t v"
  by (simp add: same_core_def)

lemma same_core_upd:
  assumes "\<And>p. rp_outstanding (f p) = rp_outstanding p \<and> rp_out_bytes (f p) = rp_out_bytes p \<and> rp_first (f p) = rp_first p"
  shows "same_core t (upd_path t i f)"
proof -
  have "map (\<lambda>p. (rp_outstanding p, rp_out_bytes p, rp_first p)) ((rt_path t)[nat i := f (rt_path t ! nat i)]) =
      map (\<lambda>p. (rp_outstanding p, rp_out_bytes p, rp_first p)) (rt_path t)"
    using assms by (cases "nat i < length (rt_path t)") (simp_all add: map_update list_update_same_conv list_update_beyond)
  then show ?thesis by (simp add: same_core_def upd_path_def)
qed

lemma same_core_if: "same_core t a \<Longrightarrow> same_core t b \<Longrightarrow> same_core t (if c then a else b)"
  by simp

lemma same_core_update:
  "same_core t u \<Longrightarrow> same_core t (u\<lparr>rt_have_win := a1\<rparr>)" "same_core t u \<Longrightarrow> same_core t (u\<lparr>rt_win_sec := a2\<rparr>)"
  "same_core t u \<Longrightarrow> same_core t (u\<lparr>rt_win_count := a3\<rparr>)" "same_core t u \<Longrightarrow> same_core t (u\<lparr>rt_prev_count := a4\<rparr>)"
  "same_core t u \<Longrightarrow> same_core t (u\<lparr>rt_last_us := a5\<rparr>)" "same_core t u \<Longrightarrow> same_core t (u\<lparr>rt_bkt_id := a5\<rparr>)"
  "same_core t u \<Longrightarrow> same_core t (u\<lparr>rt_bkt_count := a6\<rparr>)" "same_core t u \<Longrightarrow> same_core t (u\<lparr>rt_prev_bkt_count := a7\<rparr>)"
  "same_core t u \<Longrightarrow> same_core t (u\<lparr>rt_mode := a8\<rparr>)" "same_core t u \<Longrightarrow> same_core t (u\<lparr>rt_short_n := a9\<rparr>)"
  "same_core t u \<Longrightarrow> same_core t (u\<lparr>rt_win_start_us := b1\<rparr>)" "same_core t u \<Longrightarrow> same_core t (u\<lparr>rt_flow_since_us := b2\<rparr>)"
  "same_core t u \<Longrightarrow> same_core t (u\<lparr>rt_since_us := b3\<rparr>)" "same_core t u \<Longrightarrow> same_core t (u\<lparr>rt_hold_us := b4\<rparr>)"
  "same_core t u \<Longrightarrow> same_core t (u\<lparr>rt_sec_hist := b5\<rparr>)"
  by (simp_all add: same_core_def)

lemmas core_intros = same_core_update same_core_if same_core_refl

lemma count_rate_core: "same_core t (rtx_count_rate t now)"
  unfolding rtx_count_rate_def count_second_def Let_def by (intro core_intros)

lemma mark_hits_core: "same_core t (fold (\<lambda>p t. mark_hit t p) ps t)"
proof (induction ps arbitrary: t)
  case (Cons p ps)
  have "same_core t (mark_hit t p)" unfolding mark_hit_def by (rule same_core_upd) simp
  then show ?case using Cons same_core_trans by fastforce
qed (simp add: same_core_refl)

lemma select_core: "same_core t (fst (mqvpn_redundant_tx_select t usable now))"
  by (simp add: mqvpn_redundant_tx_select_def Let_def mark_hits_core same_core_refl split: option.split)

lemma metrics_core: "same_core t (mqvpn_redundant_tx_set_path_metrics t p a b c)"
  unfolding mqvpn_redundant_tx_set_path_metrics_def using same_core_upd same_core_refl by auto

lemma mode_react_core: "same_core u (fst (mode_react u now s f))"
  unfolding mode_react_def Let_def if_distrib [of fst] fst_conv by (intro core_intros)

lemma mode_core: "same_core t (fst (mqvpn_redundant_tx_update_mode t usable now))"
proof -
  have w: "same_core t (rtx_window_start t now)" by (simp add: same_core_def rtx_window_start_def comp_def)
  show ?thesis
    unfolding mqvpn_redundant_tx_update_mode_def Let_def case_prod_beta if_distrib [of fst] fst_conv rtx_mode_reset_def
    by (intro core_intros w same_core_trans [OF w mode_react_core])
qed

lemma bypass_core: "same_core t (fst (mqvpn_redundant_tx_overload_bypass t now))"
  by (simp add: mqvpn_redundant_tx_overload_bypass_def count_rate_core same_core_refl)



section \<open>Detaching a path\<close>

lemma tab_detach_spec:
  assumes "tab_ok c"
  shows "tab_ok (tab_detach c p)" and "tb_n (tab_detach c p) = tb_n c"
    and "tab_abs (tab_detach c p) = (\<lambda>k. map_option (\<lambda>x. if re_b x = p then x\<lparr>re_b := - 1\<rparr> else x) (tab_abs c k))"
proof -
  let ?g = "\<lambda>x. if re_used x \<and> re_b x = p then x\<lparr>re_b := - 1\<rparr> else x"
  let ?e = "tb_e c"
  have ok: "slots_ok ?e" using assms by (simp add: tab_ok_def)
  note O = slots_okD [OF ok]
  have e: "tb_e (tab_detach c p) = map ?g ?e" and n: "tb_n (tab_detach c p) = tb_n c" by (simp_all add: tab_detach_def)
  have same: "re_used (map ?g ?e ! y) = re_used (?e ! y)" "re_key (map ?g ?e ! y) = re_key (?e ! y)" if "y < RTX_SLOTS" for y
    using that O(1) by auto
  have ok': "slots_ok (map ?g ?e)"
  proof (rule slots_okI)
    show "length (map ?g ?e) = RTX_SLOTS" using O(1) by simp
    show "\<exists>z < RTX_SLOTS. \<not> re_used (map ?g ?e ! z)" using O(4) same(1) by blast
    show "re_used (map ?g ?e ! y)" if "k < RTX_SLOTS" "y < RTX_SLOTS" "re_used (map ?g ?e ! k)"
      "dist (rtx_slot (re_key (map ?g ?e ! k))) y < dist (rtx_slot (re_key (map ?g ?e ! k))) k" for k y
      using O(2) [OF that(1,2)] that(3,4) unfolding same [OF that(1)] same [OF that(2)] by blast
    show "k = l" if "k < RTX_SLOTS" "l < RTX_SLOTS" "re_used (map ?g ?e ! k)" "re_used (map ?g ?e ! l)"
      "re_key (map ?g ?e ! k) = re_key (map ?g ?e ! l)" for k l
      using O(3) [OF that(1,2)] that(3-) unfolding same [OF that(1)] same [OF that(2)] by blast
  qed
  have C: "{k. k < RTX_SLOTS \<and> re_used (map ?g ?e ! k)} = {k. k < RTX_SLOTS \<and> re_used (?e ! k)}"
    using same(1) by blast
  show tok: "tab_ok (tab_detach c p)"
    unfolding tab_ok_def e n C using assms ok' unfolding tab_ok_def by blast
  show "tb_n (tab_detach c p) = tb_n c" by (rule n)
  have f: "tab_find (tab_detach c p) k = tab_find c k" for k
  proof (rule option_eqI)
    show "tab_find (tab_detach c p) k = Some i \<longleftrightarrow> tab_find c k = Some i" for i
      unfolding tab_find_Some [OF tok] tab_find_Some [OF assms] e by (rule conj_cong [OF refl]) (simp only: same)
  qed
  show "tab_abs (tab_detach c p) = (\<lambda>k. map_option (\<lambda>x. if re_b x = p then x\<lparr>re_b := - 1\<rparr> else x) (tab_abs c k))"
  proof
    fix k
    show "tab_abs (tab_detach c p) k = map_option (\<lambda>x. if re_b x = p then x\<lparr>re_b := - 1\<rparr> else x) (tab_abs c k)"
    proof (cases "tab_find c k")
      case None
      then show ?thesis by (simp add: tab_abs_def f)
    next
      case (Some i)
      then have "i < RTX_SLOTS" "re_used (?e ! i)" by (simp_all add: tab_find_Some [OF assms])
      then show ?thesis using Some O(1) by (simp add: tab_abs_def f e)
    qed
  qed
qed

lemma detach_counts:
  assumes "tab_ok c"
  shows "q \<noteq> - 1 \<Longrightarrow> on_path (tab_detach c p) q = (if q = p then 0 else on_path c q)"
    and "q \<noteq> - 1 \<Longrightarrow> bytes_on (tab_detach c p) q = (if q = p then 0 else bytes_on c q)"
  unfolding on_path_def bytes_on_def tab_detach_spec(3) [OF assms] weight_map
  using tab_n_dom(2) [OF assms] by (auto simp: weight_zero intro!: weight_cong)

lemma detach_inv:
  assumes "rtx_inv t"
  shows "rtx_inv (mqvpn_redundant_tx_detach_path t p)" and "view (mqvpn_redundant_tx_detach_path t p) = view t"
proof -
  let ?t = "mqvpn_redundant_tx_detach_path t p"
  have ok: "tab_ok (rt_copies t)" "tab_ok (rt_origs t)" "links_ok t" "path_counts_ok (rt_copies t) (rt_path t)" "sent_ok (rt_sent t)"
    using assms by (simp_all add: rtx_inv_def)
  have "rtx_inv ?t \<and> view ?t = view t"
  proof (cases "\<not> path_ok p \<or> rp_outstanding (the_path t p) = 0")
    case True
    then show ?thesis using assms by (auto simp: mqvpn_redundant_tx_detach_path_def)
  next
    case False
    then have pk: "path_ok p" by simp
    have pl: "nat p < MQVPN_MAX_PATHS" "int (nat p) = p" using pk by (auto simp: path_ok_def)
    note D = tab_detach_spec [OF ok(1), of p]
    have c: "rt_copies ?t = tab_detach (rt_copies t) p" "rt_origs ?t = rt_origs t" "rt_next_orig ?t = rt_next_orig t" "rt_sent ?t = rt_sent t"
      "rt_path ?t = (rt_path t)[nat p := (rt_path t ! nat p)\<lparr>rp_outstanding := 0, rp_out_bytes := 0\<rparr>]"
      using False by (auto simp: mqvpn_redundant_tx_detach_path_def upd_path_def)
    have co: "copies_of ?t k = copies_of t k" for k
    proof -
      have "(\<exists>x. tab_abs (rt_copies ?t) i = Some x \<and> re_a x = k) \<longleftrightarrow> (\<exists>x. tab_abs (rt_copies t) i = Some x \<and> re_a x = k)" for i
        unfolding c(1) D(3) by (cases "tab_abs (rt_copies t) i") auto
      then show ?thesis unfolding copies_of_def by blast
    qed
    have "links_ok ?t"
      unfolding links_ok_def co c(2,3)
    proof (intro conjI allI impI)
      fix i x assume x: "tab_abs (rt_copies ?t) i = Some x"
      obtain z where z: "tab_abs (rt_copies t) i = Some z" "x = (if re_b z = p then z\<lparr>re_b := - 1\<rparr> else z)"
        using x unfolding c(1) D(3) by auto
      show "re_b x = - 1 \<or> path_ok (re_b x)" "tab_abs (rt_origs t) (re_a x) \<noteq> None"
        using links_okD(1,2) [OF ok(3) z(1)] by (simp_all add: z(2))
    qed (use links_okD(3-) [OF ok(3)] in blast)+
    moreover have "path_counts_ok (rt_copies ?t) (rt_path ?t)"
      unfolding path_counts_ok_def
    proof (intro conjI allI impI)
      show "length (rt_path ?t) = MQVPN_MAX_PATHS" using ok(4) by (simp add: c path_counts_ok_def)
      fix i assume i: "i < MQVPN_MAX_PATHS"
      have P: "rp_outstanding (rt_path t ! i) = int (on_path (rt_copies t) (int i))"
        "rp_out_bytes (rt_path t ! i) = of_nat (bytes_on (rt_copies t) (int i))" "rp_first (rt_path t ! i) < RTX_CAP" "length (rt_path t) = MQVPN_MAX_PATHS"
        using ok(4) i by (simp_all add: path_counts_ok_def)
      have eq: "int i = p \<longleftrightarrow> nat p = i" using pl(2) by auto
      have z: "rt_path ?t ! i = (if nat p = i then (rt_path t ! i)\<lparr>rp_outstanding := 0, rp_out_bytes := 0\<rparr> else rt_path t ! i)"
        using i P(4) by (simp add: c(5) nth_list_update)
      have d: "on_path (rt_copies ?t) (int i) = (if nat p = i then 0 else on_path (rt_copies t) (int i))"
        "bytes_on (rt_copies ?t) (int i) = (if nat p = i then 0 else bytes_on (rt_copies t) (int i))"
        using detach_counts [OF ok(1), of "int i" p] unfolding c(1) eq by simp_all
      show "rp_outstanding (rt_path ?t ! i) = int (on_path (rt_copies ?t) (int i))"
        "rp_out_bytes (rt_path ?t ! i) = of_nat (bytes_on (rt_copies ?t) (int i))" "rp_first (rt_path ?t ! i) < RTX_CAP"
        unfolding d z using P by simp_all
    qed
    ultimately have "rtx_inv ?t" using D(1) ok by (simp add: rtx_inv_def c(1,2,4))
    moreover have "view ?t = view t" by (simp add: view_def co c(2) fun_eq_iff)
    ultimately show ?thesis by blast
  qed
  then show "rtx_inv ?t" "view ?t = view t" by blast+
qed

lemma bind_inv:
  assumes "rtx_inv t"
  shows "rtx_inv (mqvpn_redundant_tx_bind_path t p x)" and "view (mqvpn_redundant_tx_bind_path t p x) = view t"
proof -
  have u: "same_core u (upd_path u p (\<lambda>p. p\<lparr>rp_bound := True, rp_xqc_id := x\<rparr>))" for u by (rule same_core_upd) simp
  show "rtx_inv (mqvpn_redundant_tx_bind_path t p x)" "view (mqvpn_redundant_tx_bind_path t p x) = view t"
    using assms detach_inv [OF assms] same_core_inv [OF u] same_core_view [OF u]
    by (auto simp: mqvpn_redundant_tx_bind_path_def Let_def)
qed



section \<open>Recording an original and its copies\<close>

definition new_copy :: "u64 \<Rightarrow> u16 \<Rightarrow> u64 \<Rightarrow> int \<Rightarrow> rtx_ent" where
  "new_copy okey bytes i p = \<lparr>re_key = i, re_a = okey, re_b = (if path_ok p then p else - 1), re_used = True, re_len = bytes\<rparr>"

lemma sent_put_ok: "sent_ok (rt_sent t) \<Longrightarrow> path_ok b \<Longrightarrow> sent_ok (rt_sent (sent_put t b now))"
  by (auto simp: sent_ok_def sent_put_def Let_def path_ok_def dest!: set_update_subset_insert [THEN subsetD])

lemma sent_put_sel [simp]:
  "rt_copies (sent_put t b now) = rt_copies t" "rt_origs (sent_put t b now) = rt_origs t" "rt_path (sent_put t b now) = rt_path t"
  "rt_next_orig (sent_put t b now) = rt_next_orig t"
  by (simp_all add: sent_put_def Let_def)

lemma path_counts_step:
  assumes "path_counts_ok c ps" and "path_ok b"
    and "\<And>i. i < MQVPN_MAX_PATHS \<Longrightarrow> i \<noteq> nat b \<Longrightarrow> on_path c' (int i) = on_path c (int i) \<and> bytes_on c' (int i) = bytes_on c (int i)"
    and "rp_outstanding q = int (on_path c' b)" "rp_out_bytes q = of_nat (bytes_on c' b)" "rp_first q < RTX_CAP"
  shows "path_counts_ok c' (ps[nat b := q])"
proof -
  have b: "int (nat b) = b" "nat b < MQVPN_MAX_PATHS" using assms(2) by (auto simp: path_ok_def)
  show ?thesis
    using assms(1,3-) b unfolding path_counts_ok_def by (auto simp: nth_list_update)
qed

lemma path_counts_same:
  assumes "path_counts_ok c ps"
    and "\<And>i. i < MQVPN_MAX_PATHS \<Longrightarrow> on_path c' (int i) = on_path c (int i) \<and> bytes_on c' (int i) = bytes_on c (int i)"
  shows "path_counts_ok c' ps"
  using assms unfolding path_counts_ok_def by auto

lemma path_countsD:
  assumes "path_counts_ok c ps" and "path_ok b"
  shows "rp_outstanding (ps ! nat b) = int (on_path c b)" "rp_out_bytes (ps ! nat b) = of_nat (bytes_on c b)" "rp_first (ps ! nat b) < RTX_CAP"
  using assms unfolding path_counts_ok_def path_ok_def by (metis int_nat_eq nat_less_iff of_nat_0_le_iff)+

lemma ucast_of_nat_unat: "(ucast (w :: u16) :: u64) = of_nat (unat w)"
  by simp

lemma commit_copy_spec:
  assumes "tab_ok (rt_copies t)" and "tb_n (rt_copies t) < int RTX_CAP" and "tab_abs (rt_copies t) i = None"
    and "path_counts_ok (rt_copies t) (rt_path t)" and "sent_ok (rt_sent t)"
  shows "\<exists>t'. commit_copy okey bytes now (i, p) t = Some t' \<and> tab_ok (rt_copies t') \<and> tb_n (rt_copies t') = tb_n (rt_copies t) + 1 \<and>
    tab_abs (rt_copies t') = (tab_abs (rt_copies t))(i \<mapsto> new_copy okey bytes i p) \<and> rt_origs t' = rt_origs t \<and> rt_next_orig t' = rt_next_orig t \<and>
    path_counts_ok (rt_copies t') (rt_path t') \<and> sent_ok (rt_sent t')"
proof -
  let ?b = "if path_ok p then p else - 1"
  let ?f = "\<lambda>x. x\<lparr>re_a := okey, re_b := ?b, re_len := bytes\<rparr>"
  obtain c' r where ins: "tab_insert (rt_copies t) i = (c', r)" by fastforce
  have kf: "keeps_key ?f" by (simp add: keeps_key_def)
  have nf: "?f (fresh_ent i) = new_copy okey bytes i p" by (simp add: fresh_ent_def zero_ent_def new_copy_def)
  obtain ci where ci: "r = Some ci" "tab_ok (tab_put c' ci ?f)" "tab_abs (tab_put c' ci ?f) = (tab_abs (rt_copies t))(i \<mapsto> new_copy okey bytes i p)"
    "tb_n (tab_put c' ci ?f) = tb_n (rt_copies t) + 1"
    "\<And>w. weight (tab_abs (tab_put c' ci ?f)) w = weight (tab_abs (rt_copies t)) w + w (new_copy okey bytes i p)"
    using tb.ins_put [OF assms(1-3) ins kf] unfolding nf by blast
  define c2 where "c2 = tab_put c' ci ?f"
  have on: "on_path c2 q = on_path (rt_copies t) q + (if ?b = q then 1 else 0)"
    and by': "bytes_on c2 q = bytes_on (rt_copies t) q + (if ?b = q then unat bytes else 0)" for q
    unfolding on_path_def bytes_on_def c2_def ci(5) by (simp_all add: new_copy_def)
  let ?t = "t\<lparr>rt_copies := c2\<rparr>"
  define t' where "t' = (if path_ok p then upd_path (sent_put ?t p now) p
      (\<lambda>q. q\<lparr>rp_outstanding := rp_outstanding q + 1, rp_out_bytes := rp_out_bytes q + ucast bytes\<rparr>) else ?t)"
  have cc: "commit_copy okey bytes now (i, p) t = Some t'"
  proof -
    have "p \<ge> 0" if "path_ok p" using that by (simp add: path_ok_def)
    then show ?thesis unfolding t'_def c2_def by (simp add: commit_copy_def ins ci(1) Let_def)
  qed
  have sel: "rt_copies t' = c2" "rt_origs t' = rt_origs t" "rt_next_orig t' = rt_next_orig t" by (simp_all add: t'_def upd_path_def)
  have "path_counts_ok c2 (rt_path t')"
  proof (cases "path_ok p")
    case True
    note P = path_countsD [OF assms(4) True]
    have "path_counts_ok c2 ((rt_path t)[nat p := (the_path t p)\<lparr>rp_outstanding := rp_outstanding (the_path t p) + 1,
        rp_out_bytes := rp_out_bytes (the_path t p) + ucast bytes\<rparr>])"
    proof (rule path_counts_step [OF assms(4) True])
      show "on_path c2 (int i) = on_path (rt_copies t) (int i) \<and> bytes_on c2 (int i) = bytes_on (rt_copies t) (int i)"
        if "i < MQVPN_MAX_PATHS" "i \<noteq> nat p" for i
        using that True on by' by auto
    qed (use P True in \<open>simp_all add: on by' ucast_of_nat_unat del: of_nat_unat\<close>)
    then show ?thesis using True by (simp add: t'_def upd_path_def)
  next
    case False
    then show ?thesis using path_counts_same [OF assms(4), of c2] on by' by (simp add: t'_def)
  qed
  moreover have "sent_ok (rt_sent t')"
    using assms(5) sent_put_ok [of ?t p now] by (simp add: t'_def upd_path_def)
  ultimately show ?thesis using cc sel ci(2-4) by (simp add: c2_def)
qed

lemma commit_copies_spec:
  assumes "tab_ok (rt_copies t)" and "tb_n (rt_copies t) + int (length cs) \<le> int RTX_CAP"
    and "distinct (map fst cs)" and "\<forall>c \<in> set cs. tab_abs (rt_copies t) (fst c) = None"
    and "path_counts_ok (rt_copies t) (rt_path t)" and "sent_ok (rt_sent t)"
  shows "\<exists>t'. commit_copies okey bytes now cs t = Some t' \<and> tab_ok (rt_copies t') \<and> rt_origs t' = rt_origs t \<and> rt_next_orig t' = rt_next_orig t \<and>
    path_counts_ok (rt_copies t') (rt_path t') \<and> sent_ok (rt_sent t') \<and>
    (\<forall>i x. tab_abs (rt_copies t') i = Some x \<longleftrightarrow> tab_abs (rt_copies t) i = Some x \<or> (\<exists>p. (i, p) \<in> set cs \<and> x = new_copy okey bytes i p))"
  using assms
proof (induction cs arbitrary: t)
  case (Cons c cs)
  obtain i p where c: "c = (i, p)" by fastforce
  have fresh: "tab_abs (rt_copies t) i = None" using Cons.prems(4) by (simp add: c)
  have n: "tb_n (rt_copies t) < int RTX_CAP" using Cons.prems(2) by simp
  obtain u where u: "commit_copy okey bytes now c t = Some u" "tab_ok (rt_copies u)" "tb_n (rt_copies u) = tb_n (rt_copies t) + 1"
    "tab_abs (rt_copies u) = (tab_abs (rt_copies t))(i \<mapsto> new_copy okey bytes i p)" "rt_origs u = rt_origs t" "rt_next_orig u = rt_next_orig t"
    "path_counts_ok (rt_copies u) (rt_path u)" "sent_ok (rt_sent u)"
    using commit_copy_spec [OF Cons.prems(1) n fresh Cons.prems(5,6)] unfolding c by blast
  have "\<forall>c \<in> set cs. tab_abs (rt_copies u) (fst c) = None"
    using Cons.prems(3,4) by (auto simp: u(4) c)
  then obtain t' where t': "commit_copies okey bytes now cs u = Some t'" "tab_ok (rt_copies t')" "rt_origs t' = rt_origs u" "rt_next_orig t' = rt_next_orig u"
    "path_counts_ok (rt_copies t') (rt_path t')" "sent_ok (rt_sent t')"
    "\<And>j x. tab_abs (rt_copies t') j = Some x \<longleftrightarrow> tab_abs (rt_copies u) j = Some x \<or> (\<exists>p. (j, p) \<in> set cs \<and> x = new_copy okey bytes j p)"
    using Cons.IH [OF u(2) _ _ _ u(7,8)] Cons.prems(2,3) u(3) by auto
  have "tab_abs (rt_copies t') j = Some x \<longleftrightarrow> tab_abs (rt_copies t) j = Some x \<or> (\<exists>p. (j, p) \<in> set (c # cs) \<and> x = new_copy okey bytes j p)" for j x
    unfolding t'(7) u(4) c using fresh Cons.prems(3) by (auto simp: c)
  then show ?case using u(1,5,6) t'(1-6) by auto
qed auto

end
