(* ===== verification/Rtx_Once.thy ===== *)
theory Rtx_Once
  imports Rtx_Copies
begin

text \<open>
  The redundant transmitter (src/redundant\_tx.c) as a whole: recording an original, resolving
  its copies by acknowledgement or loss, and any sequence of calls. Every sequence refines a
  specification that keeps, for each original, the set of its unresolved copies and whether one was
  acknowledged; from it follows that each original is reported to the flow scheduler once.
\<close>

section \<open>The whole of commit\<close>

text \<open>The callers of commit pass datagram numbers that are new and different from one another.\<close>

definition commit_pre :: "mqvpn_redundant_tx \<Rightarrow> (u64 \<times> int) list \<Rightarrow> bool" where
  "commit_pre t cs \<longleftrightarrow> distinct (map fst cs) \<and> (\<forall>c \<in> set cs. tab_abs (rt_copies t) (fst c) = None) \<and> rt_next_orig t \<noteq> - 1"

definition has_room :: "mqvpn_redundant_tx \<Rightarrow> (u64 \<times> int) list \<Rightarrow> bool" where
  "has_room t cs \<longleftrightarrow> cs \<noteq> [] \<and> tb_n (rt_origs t) < int RTX_CAP \<and> tb_n (rt_copies t) + int (length cs) \<le> int RTX_CAP"

lemma finite_copies_of: "tab_ok (rt_copies t) \<Longrightarrow> finite (copies_of t k)"
  unfolding copies_of_def by (rule finite_subset [OF _ tab_n_dom(2)]) (auto simp: dom_def)

lemma commit_no_room: "\<not> has_room t cs \<Longrightarrow> mqvpn_redundant_tx_commit t cs now len = Some t"
  by (auto simp: has_room_def mqvpn_redundant_tx_commit_def)

lemma commit_inv:
  assumes "rtx_inv t" and "commit_pre t cs" and "has_room t cs"
  shows "\<exists>t'. mqvpn_redundant_tx_commit t cs now len = Some t' \<and> rtx_inv t' \<and> rt_next_orig t' = rt_next_orig t + 1 \<and>
    view t (rt_next_orig t + 1) = None \<and> view t' = (view t)(rt_next_orig t + 1 \<mapsto> (fst ` set cs, False))"
proof -
  define u where "u = rtx_count_rate t now"
  define ok where "ok = rt_next_orig t + 1"
  define bytes where "bytes = (if len > 65535 then 65535 else of_nat len :: u16)"
  have core: "same_core t u" unfolding u_def by (rule count_rate_core)
  have inv: "rtx_inv u" and vw: "view u = view t" using same_core_inv [OF core] same_core_view [OF core] assms(1) by auto
  have sel: "rt_copies u = rt_copies t" "rt_origs u = rt_origs t" "rt_next_orig u = rt_next_orig t" using core by (simp_all add: same_core_def)
  note I = inv [unfolded rtx_inv_def]
  have lk: "links_ok u" "tab_ok (rt_copies u)" "tab_ok (rt_origs u)" using I by blast+
  have lt: "rt_next_orig t < ok"
    using assms(2) unfolding ok_def commit_pre_def by (simp add: word_less_nat_alt unat_inc)
  have fresh: "tab_abs (rt_origs u) ok = None"
    using links_okD(6) [OF lk(1), of ok] lt sel by (cases "tab_abs (rt_origs u) ok") auto
  have none: "copies_of u ok = {}" using links_okD(2) [OF lk(1)] fresh unfolding copies_of_def by blast
  obtain o' r where ins: "tab_insert (rt_origs u) ok = (o', r)" by fastforce
  let ?f = "\<lambda>x. x\<lparr>re_a := of_nat (length cs)\<rparr>"
  have kf: "keeps_key ?f" by (simp add: keeps_key_def)
  have no: "tb_n (rt_origs u) < int RTX_CAP" using assms(3) by (simp add: has_room_def sel)
  obtain oi where oi: "r = Some oi" "tab_ok (tab_put o' oi ?f)" "tab_abs (tab_put o' oi ?f) = (tab_abs (rt_origs u))(ok \<mapsto> ?f (fresh_ent ok))"
    using tb.ins_put [OF lk(3) no fresh ins kf] by blast
  let ?u = "u\<lparr>rt_next_orig := ok, rt_origs := tab_put o' oi ?f\<rparr>"
  have "\<exists>t'. commit_copies ok bytes now cs ?u = Some t' \<and> tab_ok (rt_copies t') \<and> rt_origs t' = rt_origs ?u \<and> rt_next_orig t' = rt_next_orig ?u \<and>
    path_counts_ok (rt_copies t') (rt_path t') \<and> sent_ok (rt_sent t') \<and>
    (\<forall>i x. tab_abs (rt_copies t') i = Some x \<longleftrightarrow> tab_abs (rt_copies ?u) i = Some x \<or> (\<exists>p. (i, p) \<in> set cs \<and> x = new_copy ok bytes i p))"
    by (rule commit_copies_spec) (use I assms(2,3) sel in \<open>simp_all add: commit_pre_def has_room_def\<close>)
  then obtain t' where t': "commit_copies ok bytes now cs ?u = Some t'" "tab_ok (rt_copies t')" "rt_origs t' = tab_put o' oi ?f" "rt_next_orig t' = ok"
    "path_counts_ok (rt_copies t') (rt_path t')" "sent_ok (rt_sent t')"
    and ab: "\<And>i x. tab_abs (rt_copies t') i = Some x \<longleftrightarrow> tab_abs (rt_copies u) i = Some x \<or> (\<exists>p. (i, p) \<in> set cs \<and> x = new_copy ok bytes i p)"
    by auto
  have c: "mqvpn_redundant_tx_commit t cs now len = Some t'"
  proof -
    have g: "(cs = [] \<or> tb_n (rt_origs t) \<ge> int RTX_CAP \<or> tb_n (rt_copies t) + int (length cs) > int RTX_CAP) = False"
      using assms(3) by (auto simp: has_room_def)
    show ?thesis
      unfolding mqvpn_redundant_tx_commit_def g if_False Let_def u_def [symmetric] sel(3) ok_def [symmetric] bytes_def [symmetric] ins oi(1)
      using t'(1) by simp
  qed
  have co: "copies_of t' k = (if k = ok then fst ` set cs else copies_of u k)" for k
  proof -
    have n: "re_a (new_copy ok bytes i p) = ok" for i p by (simp add: new_copy_def)
    have m: "i \<in> fst ` set cs \<longleftrightarrow> (\<exists>p. (i, p) \<in> set cs)" for i by force
    have "i \<in> copies_of t' k \<longleftrightarrow> i \<in> copies_of u k \<or> k = ok \<and> i \<in> fst ` set cs" for i
      unfolding copies_of_def mem_Collect_eq ab m using n by blast
    then show ?thesis using none by auto
  qed
  have oa: "tab_abs (rt_origs t') = (tab_abs (rt_origs u))(ok \<mapsto> ?f (fresh_ent ok))" by (simp add: t'(3) oi(3))
  have nk: "unat (of_nat (length cs) :: u64) = length cs" "0 < length cs"
  proof -
    have "length cs \<le> 16384" using assms(3) I by (auto simp: has_room_def RTX_CAP_def sel tab_ok_def)
    then show "unat (of_nat (length cs) :: u64) = length cs" by (simp add: unat_of_nat)
    show "0 < length cs" using assms(3) by (simp add: has_room_def)
  qed
  have cd: "card (fst ` set cs) = length cs" using assms(2) by (metis commit_pre_def distinct_card length_map list.set_map)
  have links: "links_ok t'"
    unfolding links_ok_def
  proof (intro conjI allI impI)
    fix i x assume "tab_abs (rt_copies t') i = Some x"
    then consider (old) "tab_abs (rt_copies u) i = Some x" | (new) p where "x = new_copy ok bytes i p" using ab by blast
    then show "re_b x = - 1 \<or> path_ok (re_b x)" "tab_abs (rt_origs t') (re_a x) \<noteq> None"
      by (cases, use links_okD(1,2) [OF lk(1)] oa in \<open>auto simp: new_copy_def\<close>)+
  next
    fix k x assume x: "tab_abs (rt_origs t') k = Some x"
    show "0 < unat (re_a x)" "unat (re_a x) = card (copies_of t' k)" "re_b x = 0 \<or> re_b x = 1" "k \<le> rt_next_orig t'"
      using x links_okD(3-6) [OF lk(1), of k] nk cd lt unfolding co oa t'(4) sel(3)
      by (auto simp: fresh_ent_def zero_ent_def split: if_splits)
  qed
  have "rtx_inv t'" using links t' oi(2) by (simp add: rtx_inv_def)
  moreover have "view t' = (view t)(ok \<mapsto> (fst ` set cs, False))"
    unfolding vw [symmetric] view_def co oa by (auto simp: fun_eq_iff fresh_ent_def zero_ent_def)
  moreover have "view t ok = None" unfolding vw [symmetric] view_def using fresh by simp
  ultimately show ?thesis using c t'(4) by (auto simp: ok_def)
qed


section \<open>Resolving copies\<close>

lemma copies_of_remove:
  assumes "tab_abs (rt_copies t') = (tab_abs (rt_copies t))(i := None)" and "tab_abs (rt_copies t) i = Some c"
  shows "copies_of t' k = (if k = re_a c then copies_of t k - {i} else copies_of t k)"
  using assms(2) unfolding copies_of_def assms(1) by auto

lemma and_RTX_CAP: "n AND (RTX_CAP - 1) < RTX_CAP"
proof -
  have "(RTX_CAP - 1 :: nat) = mask 14" "RTX_CAP = 2 ^ 14" by (simp_all add: RTX_CAP_def mask_eq_exp_minus_1)
  then show ?thesis by (metis take_bit_eq_mask take_bit_nat_less_exp)
qed

lemma resolve_spec:
  assumes "rtx_inv t" and "tab_abs (rt_copies t) i = Some c"
  shows "\<exists>t' oi x. resolve t i acked = Some (t', Some (oi, copies_of t (re_a c) = {i})) \<and>
    tab_abs (rt_origs t) (re_a c) = Some x \<and> tb_e (rt_origs t') ! oi = x\<lparr>re_a := re_a x - 1\<rparr> \<and>
    tab_ok (rt_copies t') \<and> tab_abs (rt_copies t') = (tab_abs (rt_copies t))(i := None) \<and>
    tab_ok (rt_origs t') \<and> tab_find (rt_origs t') (re_a c) = Some oi \<and>
    tab_abs (rt_origs t') = (tab_abs (rt_origs t))(re_a c \<mapsto> x\<lparr>re_a := re_a x - 1\<rparr>) \<and>
    rt_next_orig t' = rt_next_orig t \<and> path_counts_ok (rt_copies t') (rt_path t') \<and> sent_ok (rt_sent t')"
proof -
  have I: "tab_ok (rt_copies t)" "tab_ok (rt_origs t)" "links_ok t" "path_counts_ok (rt_copies t) (rt_path t)" "sent_ok (rt_sent t)"
    using assms(1) by (simp_all add: rtx_inv_def)
  obtain ci where ci: "tab_find (rt_copies t) i = Some ci" "tb_e (rt_copies t) ! ci = c" using assms(2) by (auto simp: tab_abs_def)
  obtain x where x: "tab_abs (rt_origs t) (re_a c) = Some x" using links_okD(2) [OF I(3) assms(2)] by blast
  obtain oi where oi: "tab_find (rt_origs t) (re_a c) = Some oi" "tb_e (rt_origs t) ! oi = x" using x by (auto simp: tab_abs_def)
  let ?f = "\<lambda>x. x\<lparr>re_a := re_a x - 1\<rparr>"
  have kf: "keeps_key ?f" by (simp add: keeps_key_def)
  note R = tb.rem_ok [OF I(1) ci(1)] and W = tb.rem_weight(1) [OF I(1) ci(1)] and P = tb.put_ok [OF I(2) oi(1) kf]
  define c2 where "c2 = tab_remove (rt_copies t) ci"
  let ?q = "\<lambda>p. p\<lparr>rp_outstanding := rp_outstanding p - 1, rp_out_bytes := rp_out_bytes p - ucast (re_len c),
      rp_acked := (if acked then rp_acked p + 1 else rp_acked p), rp_first := (rp_first p + 1) AND (RTX_CAP - 1)\<rparr>"
  define u where "u = (if re_b c \<ge> 0 then upd_path t (re_b c) ?q else t)"
  define t' where "t' = u\<lparr>rt_copies := c2, rt_origs := tab_put (rt_origs t) oi ?f\<rparr>"
  have us: "rt_copies u = rt_copies t" "rt_origs u = rt_origs t" "rt_next_orig u = rt_next_orig t" "rt_sent u = rt_sent t"
    by (simp_all add: u_def upd_path_def)
  have len: "oi < length (tb_e (rt_origs t))" using oi(1) I(2) by (simp add: tab_find_Some [OF I(2)] tab_ok_def slots_ok_def)
  have e: "tb_e (rt_origs t') ! oi = ?f x" using len oi(2) by (simp add: t'_def tab_put_def)
  have a: "unat (re_a x) = card (copies_of t (re_a c))" "0 < unat (re_a x)" using links_okD(3,4) [OF I(3) x] by auto
  have mem: "i \<in> copies_of t (re_a c)" using assms(2) by (auto simp: copies_of_def)
  have last: "re_a x - 1 = 0 \<longleftrightarrow> copies_of t (re_a c) = {i}"
  proof -
    have "re_a x - 1 = 0 \<longleftrightarrow> unat (re_a x) = 1" by (metis eq_iff_diff_eq_0 unat_1 word_unat_eq_iff)
    also have "\<dots> \<longleftrightarrow> copies_of t (re_a c) = {i}" unfolding a(1) using mem by (auto simp: card_1_singleton_iff)
    finally show ?thesis .
  qed
  have r: "resolve t i acked = Some (t', Some (oi, copies_of t (re_a c) = {i}))"
  proof -
    have "resolve t i acked = Some (t', Some (oi, re_a (tb_e (rt_origs t') ! oi) = 0))"
      unfolding resolve_def ci(1) option.case Let_def ci(2) oi(1) t'_def u_def c2_def by (simp add: upd_path_def)
    then show ?thesis unfolding e using last by simp
  qed
  have on: "on_path (rt_copies t) q = on_path c2 q + (if re_b c = q then 1 else 0)"
    and by': "bytes_on (rt_copies t) q = bytes_on c2 q + (if re_b c = q then unat (re_len c) else 0)" for q
    using W unfolding on_path_def bytes_on_def c2_def assms(2) option.sel by (metis (no_types, lifting))+
  have "path_counts_ok c2 (rt_path u)"
  proof (cases "re_b c \<ge> 0")
    case True
    then have pk: "path_ok (re_b c)" using links_okD(1) [OF I(3) assms(2)] by auto
    note Q = path_countsD [OF I(4) pk]
    have fst: "(rp_first (the_path t (re_b c)) + 1) AND (RTX_CAP - 1) < RTX_CAP"
      by (rule and_RTX_CAP)
    have "path_counts_ok c2 ((rt_path t)[nat (re_b c) := ?q (the_path t (re_b c))])"
    proof (rule path_counts_step [OF I(4) pk])
      show "on_path c2 (int j) = on_path (rt_copies t) (int j) \<and> bytes_on c2 (int j) = bytes_on (rt_copies t) (int j)"
        if "j < MQVPN_MAX_PATHS" "j \<noteq> nat (re_b c)" for j
        using that True on [of "int j"] by' [of "int j"] by auto
    qed (use Q fst in \<open>simp_all add: on by' ucast_of_nat_unat del: of_nat_unat\<close>)
    then show ?thesis using True by (simp add: u_def upd_path_def)
  next
    case False
    then show ?thesis using path_counts_same [OF I(4), of c2] on by' by (simp add: u_def)
  qed
  then show ?thesis
    using r x e R P oi us I(5) by (auto simp: t'_def c2_def intro!: exI [of _ t'] exI [of _ oi] exI [of _ x])
qed

text \<open>What is left of an original once a copy is resolved.\<close>

definition rest :: "u64 set \<Rightarrow> u64 \<Rightarrow> bool \<Rightarrow> (u64 set \<times> bool) option" where
  "rest S i a = (if S = {i} then None else Some (S - {i}, a))"

lemma view_tracked:
  assumes "rtx_inv t"
  shows "tab_abs (rt_copies t) i = None \<longleftrightarrow> (\<forall>k S a. view t k = Some (S, a) \<longrightarrow> i \<notin> S)"
    and "tab_abs (rt_copies t) i = Some c \<Longrightarrow> i \<in> copies_of t (re_a c)"
    and "view t k = Some (S, a) \<Longrightarrow> S \<noteq> {}"
proof -
  have l: "links_ok t" "tab_ok (rt_copies t)" using assms by (simp_all add: rtx_inv_def)
  show "tab_abs (rt_copies t) i = Some c \<Longrightarrow> i \<in> copies_of t (re_a c)" by (auto simp: copies_of_def)
  show "tab_abs (rt_copies t) i = None \<longleftrightarrow> (\<forall>k S a. view t k = Some (S, a) \<longrightarrow> i \<notin> S)"
  proof (cases "tab_abs (rt_copies t) i")
    case None
    then show ?thesis by (auto simp: view_def copies_of_def)
  next
    case (Some c)
    obtain x where "tab_abs (rt_origs t) (re_a c) = Some x" using links_okD(2) [OF l(1) Some] by blast
    then have "view t (re_a c) = Some (copies_of t (re_a c), re_b x \<noteq> 0)" by (simp add: view_def)
    moreover have "i \<in> copies_of t (re_a c)" using Some by (auto simp: copies_of_def)
    ultimately show ?thesis using Some by auto
  qed
  show "S \<noteq> {}" if "view t k = Some (S, a)"
  proof -
    obtain x where "tab_abs (rt_origs t) k = Some x" "S = copies_of t k" using \<open>view t k = Some (S, a)\<close> by (auto simp: view_def)
    then show ?thesis using links_okD(3,4) [OF l(1), of k x] by auto
  qed
qed

text \<open>Writing the original back after a resolved copy, or removing it with the last one.\<close>

lemma finish_spec:
  assumes "rtx_inv t" and c: "tab_abs (rt_copies t) i = Some c" and x: "tab_abs (rt_origs t) (re_a c) = Some x"
    and u: "tab_ok (rt_copies u)" "tab_abs (rt_copies u) = (tab_abs (rt_copies t))(i := None)" "rt_next_orig u = rt_next_orig t"
      "path_counts_ok (rt_copies u) (rt_path u)" "sent_ok (rt_sent u)" "tab_ok (rt_origs u)"
    and o': "tab_abs (rt_origs u) = (tab_abs (rt_origs t))(re_a c := (if copies_of t (re_a c) = {i} then None else Some y))"
    and y: "re_a y = re_a x - 1" "re_b y = 0 \<or> re_b y = 1"
  shows "rtx_inv u" and "view u = (view t)(re_a c := rest (copies_of t (re_a c)) i (re_b y \<noteq> 0))"
proof -
  have l: "links_ok t" "tab_ok (rt_copies t)" using assms(1) by (simp_all add: rtx_inv_def)
  let ?k = "re_a c"
  note co = copies_of_remove [OF u(2) c]
  have mem: "i \<in> copies_of t ?k" by (rule view_tracked(2) [OF assms(1) c])
  note fin = finite_copies_of [OF l(2), of ?k]
  have card: "card (copies_of t ?k - {i}) = card (copies_of t ?k) - 1" using mem fin by simp
  have a: "unat (re_a x) = card (copies_of t ?k)" "0 < unat (re_a x)" using links_okD(3,4) [OF l(1) x] by auto
  have dec: "unat (re_a y) = unat (re_a x) - 1" unfolding y(1) using a(2) by (simp add: unat_sub_if')
  have links: "links_ok u"
    unfolding links_ok_def
  proof (intro conjI allI impI)
    fix j z assume "tab_abs (rt_copies u) j = Some z"
    then have z: "tab_abs (rt_copies t) j = Some z" "j \<noteq> i" by (auto simp: u(2) split: if_splits)
    show "re_b z = - 1 \<or> path_ok (re_b z)" by (rule links_okD(1) [OF l(1) z(1)])
    have "j \<in> copies_of t ?k" if "re_a z = ?k" using z that by (auto simp: copies_of_def)
    then show "tab_abs (rt_origs u) (re_a z) \<noteq> None"
      using links_okD(2) [OF l(1) z(1)] z(2) unfolding o' by auto
  next
    fix k z assume z: "tab_abs (rt_origs u) k = Some z"
    have "0 < unat (re_a z) \<and> unat (re_a z) = card (copies_of u k) \<and> (re_b z = 0 \<or> re_b z = 1) \<and> k \<le> rt_next_orig u"
    proof (cases "k = ?k")
      case True
      then have ne: "copies_of t ?k \<noteq> {i}" "z = y" using z by (auto simp: o' split: if_splits)
      have "copies_of t ?k - {i} \<noteq> {}" using ne(1) mem by auto
      then have "0 < card (copies_of t ?k - {i})" using fin by (simp add: card_gt_0_iff)
      then show ?thesis
        using ne(2) y(2) dec a card True co links_okD(6) [OF l(1) x] u(3) by auto
    next
      case False
      then have "tab_abs (rt_origs t) k = Some z" using z by (simp add: o')
      then show ?thesis
        using links_okD(3-6) [OF l(1), of k z] False co u(3) by auto
    qed
    then show "0 < unat (re_a z)" "unat (re_a z) = card (copies_of u k)" "re_b z = 0 \<or> re_b z = 1" "k \<le> rt_next_orig u" by blast+
  qed
  then show "rtx_inv u" using u by (simp add: rtx_inv_def)
  show "view u = (view t)(?k := rest (copies_of t ?k) i (re_b y \<noteq> 0))"
    by (auto simp: fun_eq_iff view_def o' co rest_def)
qed

lemma acked_spec:
  assumes "rtx_inv t" and "tab_abs (rt_copies t) i = Some c"
  shows "\<exists>t' S a. view t (re_a c) = Some (S, a) \<and> i \<in> S \<and> mqvpn_redundant_tx_on_acked t i = Some (t', if a then 0 else 1) \<and>
    rtx_inv t' \<and> rt_next_orig t' = rt_next_orig t \<and> view t' = (view t)(re_a c := rest S i True)"
proof -
  let ?k = "re_a c"
  obtain u oi x where r: "resolve t i True = Some (u, Some (oi, copies_of t ?k = {i}))" and x: "tab_abs (rt_origs t) ?k = Some x"
    and e: "tb_e (rt_origs u) ! oi = x\<lparr>re_a := re_a x - 1\<rparr>"
    and u: "tab_ok (rt_copies u)" "tab_abs (rt_copies u) = (tab_abs (rt_copies t))(i := None)" "rt_next_orig u = rt_next_orig t"
      "path_counts_ok (rt_copies u) (rt_path u)" "sent_ok (rt_sent u)"
    and o': "tab_ok (rt_origs u)" "tab_find (rt_origs u) ?k = Some oi" "tab_abs (rt_origs u) = (tab_abs (rt_origs t))(?k \<mapsto> x\<lparr>re_a := re_a x - 1\<rparr>)"
    using resolve_spec [OF assms, of True] by blast
  let ?f = "\<lambda>x. x\<lparr>re_b := 1\<rparr>"
  let ?y = "?f (x\<lparr>re_a := re_a x - 1\<rparr>)"
  have kf: "keeps_key ?f" by (simp add: keeps_key_def)
  define p where "p = tab_put (rt_origs u) oi ?f"
  have P: "tab_ok p" "tab_find p ?k = Some oi" "tab_abs p = (tab_abs (rt_origs t))(?k \<mapsto> ?y)"
    using tb.put_ok [OF o'(1,2) kf] by (auto simp: p_def o'(2,3))
  note R = tb.rem_ok [OF P(1,2)]
  define t' where "t' = u\<lparr>rt_origs := (if copies_of t ?k = {i} then tab_remove p oi else p)\<rparr>"
  have b: "re_b x = 0 \<or> re_b x = 1" by (rule links_okD(5) [OF _ x]) (use assms(1) in \<open>simp add: rtx_inv_def\<close>)
  have ack: "mqvpn_redundant_tx_on_acked t i = Some (t', if re_b x \<noteq> 0 then 0 else 1)"
    unfolding mqvpn_redundant_tx_on_acked_def r t'_def p_def by (simp add: e)
  have o2: "tab_abs (rt_origs t') = (tab_abs (rt_origs t))(?k := (if copies_of t ?k = {i} then None else Some ?y))" "tab_ok (rt_origs t')"
    using P R by (auto simp: t'_def)
  have fin: "rtx_inv t'" "view t' = (view t)(?k := rest (copies_of t ?k) i (re_b ?y \<noteq> 0))"
    by (rule finish_spec [OF assms x _ _ _ _ _ o2(2,1)]; simp add: t'_def u)+
  have "view t ?k = Some (copies_of t ?k, re_b x \<noteq> 0)" by (simp add: view_def x)
  then show ?thesis using ack fin view_tracked(2) [OF assms] u(3) by (auto simp: t'_def)
qed

lemma lost_spec:
  assumes "rtx_inv t" and "tab_abs (rt_copies t) i = Some c"
  shows "\<exists>t' S a. view t (re_a c) = Some (S, a) \<and> i \<in> S \<and> mqvpn_redundant_tx_on_lost t i = Some (t', if S = {i} \<and> \<not> a then 1 else 0) \<and>
    rtx_inv t' \<and> rt_next_orig t' = rt_next_orig t \<and> view t' = (view t)(re_a c := rest S i a)"
proof -
  let ?k = "re_a c"
  obtain u oi x where r: "resolve t i False = Some (u, Some (oi, copies_of t ?k = {i}))" and x: "tab_abs (rt_origs t) ?k = Some x"
    and e: "tb_e (rt_origs u) ! oi = x\<lparr>re_a := re_a x - 1\<rparr>"
    and u: "tab_ok (rt_copies u)" "tab_abs (rt_copies u) = (tab_abs (rt_copies t))(i := None)" "rt_next_orig u = rt_next_orig t"
      "path_counts_ok (rt_copies u) (rt_path u)" "sent_ok (rt_sent u)"
    and o': "tab_ok (rt_origs u)" "tab_find (rt_origs u) ?k = Some oi" "tab_abs (rt_origs u) = (tab_abs (rt_origs t))(?k \<mapsto> x\<lparr>re_a := re_a x - 1\<rparr>)"
    using resolve_spec [OF assms, of False] by blast
  let ?y = "x\<lparr>re_a := re_a x - 1\<rparr>"
  note R = tb.rem_ok [OF o'(1,2)]
  define t' where "t' = (if copies_of t ?k = {i} then u\<lparr>rt_origs := tab_remove (rt_origs u) oi\<rparr> else u)"
  have b: "re_b x = 0 \<or> re_b x = 1" by (rule links_okD(5) [OF _ x]) (use assms(1) in \<open>simp add: rtx_inv_def\<close>)
  have lost: "mqvpn_redundant_tx_on_lost t i = Some (t', if copies_of t ?k = {i} \<and> re_b x = 0 then 1 else 0)"
    unfolding mqvpn_redundant_tx_on_lost_def r t'_def by (simp add: e)
  have o2: "tab_abs (rt_origs t') = (tab_abs (rt_origs t))(?k := (if copies_of t ?k = {i} then None else Some ?y))" "tab_ok (rt_origs t')"
    using o' R by (auto simp: t'_def)
  have fin: "rtx_inv t'" "view t' = (view t)(?k := rest (copies_of t ?k) i (re_b ?y \<noteq> 0))"
    by (rule finish_spec [OF assms x _ _ _ _ _ o2(2,1)]; use b in \<open>simp add: t'_def u\<close>)+
  have "view t ?k = Some (copies_of t ?k, re_b x \<noteq> 0)" by (simp add: view_def x)
  then show ?thesis using lost fin view_tracked(2) [OF assms] u(3) by (auto simp: t'_def)
qed

lemma untracked:
  assumes "tab_ok (rt_copies t)" and "tab_abs (rt_copies t) i = None"
  shows "mqvpn_redundant_tx_on_acked t i = Some (t, - 1)" and "mqvpn_redundant_tx_on_lost t i = Some (t, - 1)"
  using tb.find_None [OF assms(1), of i] assms(2)
  by (simp_all add: mqvpn_redundant_tx_on_acked_def mqvpn_redundant_tx_on_lost_def resolve_def)

section \<open>Sequences of calls\<close>

datatype rtx_event = Commit "(u64 \<times> int) list" u64 nat | Acked u64 | Lost u64 | Select "int list" u64 | Detach int | Bind int u64
  | Metrics int u64 u64 u64 | Mode "int list" u64 | Bypass u64

text \<open>One call, with what it reports about a copy; \<open>None\<close> is a null dereference.\<close>

fun rtx_apply :: "mqvpn_redundant_tx \<Rightarrow> rtx_event \<Rightarrow> (mqvpn_redundant_tx \<times> (u64 \<times> int) list) option" where
  "rtx_apply t (Commit cs now len) = map_option (\<lambda>t. (t, [])) (mqvpn_redundant_tx_commit t cs now len)"
| "rtx_apply t (Acked i) = map_option (\<lambda>(t, r). (t, [(i, r)])) (mqvpn_redundant_tx_on_acked t i)"
| "rtx_apply t (Lost i) = map_option (\<lambda>(t, r). (t, [(i, r)])) (mqvpn_redundant_tx_on_lost t i)"
| "rtx_apply t (Select us now) = Some (fst (mqvpn_redundant_tx_select t us now), [])"
| "rtx_apply t (Detach p) = Some (mqvpn_redundant_tx_detach_path t p, [])"
| "rtx_apply t (Bind p x) = Some (mqvpn_redundant_tx_bind_path t p x, [])"
| "rtx_apply t (Metrics p a b c) = Some (mqvpn_redundant_tx_set_path_metrics t p a b c, [])"
| "rtx_apply t (Mode us now) = Some (fst (mqvpn_redundant_tx_update_mode t us now), [])"
| "rtx_apply t (Bypass now) = Some (fst (mqvpn_redundant_tx_overload_bypass t now), [])"

type_synonym rtx_run = "(mqvpn_redundant_tx \<times> (u64 \<times> int) list) option"

definition rtx_step :: "rtx_run \<Rightarrow> rtx_event \<Rightarrow> rtx_run" where
  "rtx_step s e = (case s of None \<Rightarrow> None | Some (t, log) \<Rightarrow> map_option (\<lambda>(t, l). (t, log @ l)) (rtx_apply t e))"

fun event_ids :: "rtx_event \<Rightarrow> u64 list" where
  "event_ids (Commit cs _ _) = map fst cs"
| "event_ids _ = []"

fun event_ok :: "mqvpn_redundant_tx \<Rightarrow> rtx_event \<Rightarrow> bool" where
  "event_ok t (Commit cs _ _) = commit_pre t cs"
| "event_ok _ _ = True"

text \<open>
  The specification: originals are numbered, each with its unresolved copies and whether one was
  acknowledged. The first acknowledgement of an original is reported with 1, the loss of its last
  copy with 1 when none was acknowledged, a copy that is not on record with -1.
\<close>

type_synonym rtx_spec = "u64 \<times> (u64 \<Rightarrow> (u64 set \<times> bool) option)"

definition tracked :: "(u64 \<Rightarrow> (u64 set \<times> bool) option) \<Rightarrow> u64 set" where
  "tracked m = {i. \<exists>k S a. m k = Some (S, a) \<and> i \<in> S}"

definition room :: "(u64 \<Rightarrow> (u64 set \<times> bool) option) \<Rightarrow> (u64 \<times> int) list \<Rightarrow> bool" where
  "room m cs \<longleftrightarrow> cs \<noteq> [] \<and> card (dom m) < RTX_CAP \<and> card (tracked m) + length cs \<le> RTX_CAP"

inductive spec_step :: "rtx_spec \<Rightarrow> rtx_event \<Rightarrow> (u64 \<times> int) list \<Rightarrow> rtx_spec \<Rightarrow> bool" where
  Record: "m (n + 1) = None \<Longrightarrow> n < n + 1 \<Longrightarrow> room m cs \<Longrightarrow>
    spec_step (n, m) (Commit cs now len) [] (n + 1, m(n + 1 \<mapsto> (fst ` set cs, False)))"
| Full: "\<not> room m cs \<Longrightarrow> spec_step (n, m) (Commit cs now len) [] (n, m)"
| Ack: "m k = Some (S, a) \<Longrightarrow> i \<in> S \<Longrightarrow> spec_step (n, m) (Acked i) [(i, if a then 0 else 1)] (n, m(k := rest S i True))"
| Loss: "m k = Some (S, a) \<Longrightarrow> i \<in> S \<Longrightarrow>
    spec_step (n, m) (Lost i) [(i, if S = {i} \<and> \<not> a then 1 else 0)] (n, m(k := rest S i a))"
| Unknown: "i \<notin> tracked m \<Longrightarrow> e = Acked i \<or> e = Lost i \<Longrightarrow> spec_step (n, m) e [(i, - 1)] (n, m)"
| Quiet: "(\<And>i. e \<noteq> Acked i \<and> e \<noteq> Lost i) \<Longrightarrow> event_ids e = [] \<Longrightarrow> spec_step s e [] s"

definition rtx_abs :: "mqvpn_redundant_tx \<Rightarrow> rtx_spec" where
  "rtx_abs t = (rt_next_orig t, view t)"

lemma view_room:
  assumes "rtx_inv t"
  shows "tracked (view t) = dom (tab_abs (rt_copies t))" and "room (view t) cs \<longleftrightarrow> has_room t cs"
proof -
  have ok: "tab_ok (rt_copies t)" "tab_ok (rt_origs t)" using assms by (simp_all add: rtx_inv_def)
  show tr: "tracked (view t) = dom (tab_abs (rt_copies t))"
    unfolding dom_def tracked_def view_tracked(1) [OF assms] by blast
  have "dom (view t) = dom (tab_abs (rt_origs t))" by (auto simp: view_def)
  then show "room (view t) cs \<longleftrightarrow> has_room t cs"
    unfolding room_def has_room_def tr using tb.count_entries [OF ok(1)] tb.count_entries [OF ok(2)] by auto
qed

lemma core_refines:
  assumes "rtx_inv t" and "same_core t t'" and "\<And>i. e \<noteq> Acked i \<and> e \<noteq> Lost i" and "event_ids e = []"
  shows "rtx_inv t' \<and> spec_step (rtx_abs t) e [] (rtx_abs t')"
proof -
  have "rtx_abs t' = rtx_abs t" using assms(2) same_core_view [OF assms(2)] by (simp add: rtx_abs_def same_core_def)
  then show ?thesis using assms same_core_inv [OF assms(2)] Quiet [of e] by simp
qed

lemma commit_refines:
  assumes "rtx_inv t" and "commit_pre t cs"
  shows "\<exists>t'. mqvpn_redundant_tx_commit t cs now len = Some t' \<and> rtx_inv t' \<and> spec_step (rtx_abs t) (Commit cs now len) [] (rtx_abs t')"
proof (cases "has_room t cs")
  case True
  obtain t' where t': "mqvpn_redundant_tx_commit t cs now len = Some t'" "rtx_inv t'" "rt_next_orig t' = rt_next_orig t + 1"
    "view t (rt_next_orig t + 1) = None" "view t' = (view t)(rt_next_orig t + 1 \<mapsto> (fst ` set cs, False))"
    using commit_inv [OF assms True] by blast
  have "rt_next_orig t < rt_next_orig t + 1" using assms(2) by (simp add: commit_pre_def word_less_nat_alt unat_inc)
  then have "spec_step (rtx_abs t) (Commit cs now len) [] (rtx_abs t')"
    unfolding rtx_abs_def t'(3,5) by (intro Record t'(4)) (use True view_room(2) [OF assms(1)] in auto)
  then show ?thesis using t' by blast
next
  case False
  then show ?thesis 
    using commit_no_room [OF False] assms(1) Full [of "view t" cs] view_room(2) [OF assms(1)] by (auto simp: rtx_abs_def)
qed

lemma resolved_refines:
  assumes "rtx_inv t" and "e = Acked i \<or> e = Lost i"
  shows "\<exists>t' r. rtx_apply t e = Some (t', [(i, r)]) \<and> rtx_inv t' \<and> spec_step (rtx_abs t) e [(i, r)] (rtx_abs t')"
proof (cases "tab_abs (rt_copies t) i")
  case None
  have ok: "tab_ok (rt_copies t)" using assms(1) by (simp add: rtx_inv_def)
  have "rtx_apply t e = Some (t, [(i, - 1)])" using assms(2) untracked [OF ok None] by auto
  moreover have "spec_step (rtx_abs t) e [(i, - 1)] (rtx_abs t)"
    unfolding rtx_abs_def by (rule Unknown) (use None view_room(1) [OF assms(1)] assms(2) in auto)
  ultimately show ?thesis using assms(1) by blast
next
  case (Some c)
  from assms(2) show ?thesis
  proof
    assume e: "e = Acked i"
    obtain t' S a where a: "view t (re_a c) = Some (S, a)" "i \<in> S" "mqvpn_redundant_tx_on_acked t i = Some (t', if a then 0 else 1)" "rtx_inv t'"
      "rt_next_orig t' = rt_next_orig t" "view t' = (view t)(re_a c := rest S i True)"
      using acked_spec [OF assms(1) Some] by blast
    have "spec_step (rtx_abs t) e [(i, if a then 0 else 1)] (rtx_abs t')"
      unfolding rtx_abs_def e a(5,6) by (rule Ack) (rule a(1,2))+
    then show ?thesis using a(3,4) e by (intro exI [of _ t'] exI [of _ "if a then 0 else 1"]) simp
  next
    assume e: "e = Lost i"
    obtain t' S a where a: "view t (re_a c) = Some (S, a)" "i \<in> S" "mqvpn_redundant_tx_on_lost t i = Some (t', if S = {i} \<and> \<not> a then 1 else 0)" "rtx_inv t'"
      "rt_next_orig t' = rt_next_orig t" "view t' = (view t)(re_a c := rest S i a)"
      using lost_spec [OF assms(1) Some] by blast
    have "spec_step (rtx_abs t) e [(i, if S = {i} \<and> \<not> a then 1 else 0)] (rtx_abs t')"
      unfolding rtx_abs_def e a(5,6) by (rule Loss) (rule a(1,2))+
    then show ?thesis using a(3,4) e by (intro exI [of _ t'] exI [of _ "if S = {i} \<and> \<not> a then 1 else 0"]) simp
  qed
qed

lemma apply_refines:
  assumes "rtx_inv t" and "event_ok t e"
  shows "\<exists>t' l. rtx_apply t e = Some (t', l) \<and> rtx_inv t' \<and> spec_step (rtx_abs t) e l (rtx_abs t')"
proof (cases e)
  case (Commit cs now len)
  then show ?thesis using commit_refines [OF assms(1), of cs now len] assms(2) by auto
next
  case (Detach p)
  have "rtx_abs (mqvpn_redundant_tx_detach_path t p) = rtx_abs t"
    using detach_inv(2) [OF assms(1)] by (simp add: rtx_abs_def mqvpn_redundant_tx_detach_path_def upd_path_def)
  then show ?thesis using detach_inv(1) [OF assms(1)] Detach Quiet [of e "rtx_abs t"] by simp
next
  case (Bind p x)
  have "rtx_abs (mqvpn_redundant_tx_bind_path t p x) = rtx_abs t"
    using bind_inv(2) [OF assms(1)]
    by (simp add: rtx_abs_def mqvpn_redundant_tx_bind_path_def mqvpn_redundant_tx_detach_path_def upd_path_def Let_def)
  then show ?thesis using bind_inv(1) [OF assms(1)] Bind Quiet [of e "rtx_abs t"] by simp
qed (use resolved_refines [OF assms(1), of e] core_refines [OF assms(1), of _ e] select_core metrics_core mode_core bypass_core in \<open>auto\<close>)

inductive spec_run :: "rtx_spec \<Rightarrow> rtx_event list \<Rightarrow> (u64 \<times> int) list \<Rightarrow> rtx_spec \<Rightarrow> bool" where
  Done: "spec_run s [] [] s"
| More: "spec_step s e l s' \<Longrightarrow> spec_run s' es ls s'' \<Longrightarrow> spec_run s (e # es) (l @ ls) s''"

definition run_inv_st :: "rtx_run \<Rightarrow> bool" where
  "run_inv_st s \<longleftrightarrow> (case s of None \<Rightarrow> False | Some (t, _) \<Rightarrow> rtx_inv t)"

definition rtx_ok :: "u64 set \<Rightarrow> rtx_run \<Rightarrow> rtx_event \<Rightarrow> bool" where
  "rtx_ok ids s e \<longleftrightarrow> (case s of None \<Rightarrow> False | Some (t, _) \<Rightarrow> event_ok t e \<and> set (event_ids e) \<inter> ids = {})"

lemma rtx_step_refines:
  assumes "rtx_inv t" and "rtx_ok ids (Some (t, log)) e"
  shows "\<exists>t' l. rtx_step (Some (t, log)) e = Some (t', log @ l) \<and> rtx_inv t' \<and> spec_step (rtx_abs t) e l (rtx_abs t')"
  using apply_refines [OF assms(1), of e] assms(2) by (auto simp: rtx_ok_def rtx_step_def)

interpretation rtm: machine rtx_step "rtx_ok {}" run_inv_st
proof
  show "run_inv_st (rtx_step s e)" if "run_inv_st s" "rtx_ok {} s e" for s e
    using that rtx_step_refines [of _ "{}" _ e] by (cases s) (fastforce simp: run_inv_st_def)+
qed

lemma run_refines:
  assumes "rtx_inv t" and "run_ok rtx_step (rtx_ok ids) (Some (t, log)) es"
  shows "\<exists>t' l. run rtx_step (Some (t, log)) es = Some (t', log @ l) \<and> rtx_inv t' \<and> spec_run (rtx_abs t) es l (rtx_abs t')"
  using assms
proof (induction es arbitrary: t log)
  case Nil
  then show ?case by (auto intro: Done)
next
  case (Cons e es)
  obtain u l where u: "rtx_step (Some (t, log)) e = Some (u, log @ l)" "rtx_inv u" "spec_step (rtx_abs t) e l (rtx_abs u)"
    using rtx_step_refines [OF Cons.prems(1), of ids log e] Cons.prems(2) by auto
  then show ?case using Cons.IH [of u "log @ l"] Cons.prems(2) by (fastforce intro: More)
qed

lemma spec_step_grows:
  assumes "spec_step s e l s'"
  shows "tracked (snd s') \<subseteq> tracked (snd s) \<union> set (event_ids e)" and "unat (fst s') \<le> unat (fst s) + 1"
proof -
  have n: "unat (n + 1) \<le> unat n + 1" for n :: u64 by (simp add: unat_word_ariths(1))
  from assms have "tracked (snd s') \<subseteq> tracked (snd s) \<union> set (event_ids e) \<and> unat (fst s') \<le> unat (fst s) + 1"
    by (cases rule: spec_step.cases) (use n in \<open>auto simp: tracked_def rest_def split: if_splits\<close>)
  then show "tracked (snd s') \<subseteq> tracked (snd s) \<union> set (event_ids e)" "unat (fst s') \<le> unat (fst s) + 1" by blast+
qed

text \<open>Datagram numbers that are used once, and fewer originals than the counter holds, meet every precondition.\<close>

lemma fresh_run_ok:
  assumes "rtx_inv t" and "tracked (view t) \<inter> set (concat (map event_ids es)) = {}" and "distinct (concat (map event_ids es))"
    and "unat (rt_next_orig t) + length es < 2 ^ 64 - 1" and "set (concat (map event_ids es)) \<inter> ids = {}"
  shows "run_ok rtx_step (rtx_ok ids) (Some (t, log)) es"
  using assms
proof (induction es arbitrary: t log)
  case (Cons e es)
  have "event_ok t e"
  proof (cases e)
    case (Commit cs now len)
    have "rt_next_orig t \<noteq> - 1"
      using Cons.prems(4) by (auto simp: unsigned_minus_1_eq_mask mask_eq_exp_minus_1)
    moreover have "tab_abs (rt_copies t) (fst c) = None" if "c \<in> set cs" for c
      using that Cons.prems(2) view_room(1) [OF Cons.prems(1)] by (auto simp: Commit)
    ultimately show ?thesis using Cons.prems(3) by (simp add: Commit commit_pre_def)
  qed auto
  then have ok: "rtx_ok ids (Some (t, log)) e" using Cons.prems(5) by (auto simp: rtx_ok_def)
  obtain u l where u: "rtx_step (Some (t, log)) e = Some (u, log @ l)" "rtx_inv u" "spec_step (rtx_abs t) e l (rtx_abs u)"
    using rtx_step_refines [OF Cons.prems(1) ok] by auto
  note G = spec_step_grows [OF u(3), unfolded rtx_abs_def fst_conv snd_conv]
  let ?R = "set (concat (map event_ids es))"
  have "set (concat (map event_ids (e # es))) = set (event_ids e) \<union> ?R" by simp
  moreover have "set (event_ids e) \<inter> ?R = {}" using Cons.prems(3) by simp
  ultimately have R: "tracked (view u) \<inter> ?R = {}" "?R \<inter> ids = {}" using G(1) Cons.prems(2,5) by blast+
  have "run_ok rtx_step (rtx_ok ids) (Some (u, log @ l)) es"
    by (rule Cons.IH [OF u(2) R(1) _ _ R(2)]) (use G(2) Cons.prems(3,4) in auto)
  then show ?case using ok u(1) by simp
qed simp


section \<open>Each original is reported once\<close>

definition reports :: "u64 set \<Rightarrow> (u64 \<times> int) list \<Rightarrow> nat" where
  "reports ids log = length (filter (\<lambda>(i, r). i \<in> ids \<and> r = 1) log)"

lemma reports_simps [simp]:
  "reports ids [] = 0" "reports ids (log @ log') = reports ids log + reports ids log'"
  "reports ids ((i, r) # log) = (if i \<in> ids \<and> r = 1 then 1 else 0) + reports ids log"
  by (simp_all add: reports_def)

definition once :: "u64 \<Rightarrow> u64 set \<Rightarrow> rtx_spec \<Rightarrow> (u64 \<times> int) list \<Rightarrow> bool" where
  "once k ids s log \<longleftrightarrow> k \<le> fst s \<and> (\<forall>k' S a. snd s k' = Some (S, a) \<longrightarrow> k' \<noteq> k \<longrightarrow> S \<inter> ids = {}) \<and>
     (case snd s k of None \<Rightarrow> reports ids log = 1
      | Some (S, a) \<Rightarrow> S \<subseteq> ids - fst ` set log \<and> reports ids log = (if a then 1 else 0))"

lemma once_other:
  assumes "once k ids (n, m) log" and "k' \<noteq> k" and "fst v \<inter> ids = {}" and "i \<notin> ids"
  shows "once k ids (n, m(k' := (if b then None else Some v))) (log @ [(i, r)])"
  using assms unfolding once_def by (cases "m k") auto

lemma once_step:
  assumes "spec_step s e l s'" and "once k ids s log" and "set (event_ids e) \<inter> ids = {}"
  shows "once k ids s' (log @ l)"
  using assms
proof induction
  case (Record m n cs now len)
  then have "n + 1 \<noteq> k" "k \<le> n + 1" by (auto simp: once_def)
  then show ?case using Record by (auto simp: once_def)
next
  case (Ack m k' S a i n)
  show ?case
  proof (cases "k' = k")
    case True
    then show ?thesis using Ack by (auto simp: once_def rest_def)
  next
    case False
    then have "S \<inter> ids = {}" using Ack(1,3) by (auto simp: once_def)
    then show ?thesis unfolding rest_def using Ack(2,3) False by (intro once_other) auto
  qed
next
  case (Loss m k' S a i n)
  show ?case
  proof (cases "k' = k")
    case True
    then show ?thesis using Loss by (auto simp: once_def rest_def)
  next
    case False
    then have "S \<inter> ids = {}" using Loss(1,3) by (auto simp: once_def)
    then show ?thesis unfolding rest_def using Loss(2,3) False by (intro once_other) auto
  qed
next
  case (Unknown i m e n)
  have "i \<notin> S" if "m k' = Some (S, a)" for k' S a using Unknown(1) that by (auto simp: tracked_def)
  then show ?case using Unknown(3) unfolding once_def by (cases "m k") auto
qed auto

definition once_st :: "u64 \<Rightarrow> u64 set \<Rightarrow> rtx_run \<Rightarrow> bool" where
  "once_st k ids s \<longleftrightarrow> (case s of None \<Rightarrow> False | Some (t, log) \<Rightarrow> rtx_inv t \<and> once k ids (rtx_abs t) log)"

interpretation onm: machine rtx_step "rtx_ok ids" "once_st k ids" for k ids
proof
  show "once_st k ids (rtx_step s e)" if s: "once_st k ids s" and ok: "rtx_ok ids s e" for s e
  proof -
    obtain t log where t: "s = Some (t, log)" "rtx_inv t" "once k ids (rtx_abs t) log" using s by (auto simp: once_st_def split: option.splits)
    have d: "set (event_ids e) \<inter> ids = {}" using ok by (simp add: t(1) rtx_ok_def)
    obtain t' l where "rtx_step s e = Some (t', log @ l)" "rtx_inv t'" "spec_step (rtx_abs t) e l (rtx_abs t')"
      using rtx_step_refines [OF t(2) ok [unfolded t(1)]] unfolding t(1) by blast
    then show ?thesis using once_step [OF _ t(3) d] by (simp add: once_st_def)
  qed
qed

lemma run_ok_other_log:
  assumes "run_ok rtx_step (rtx_ok {}) (Some (t, log)) es" and "set (concat (map event_ids es)) \<inter> ids = {}"
  shows "run_ok rtx_step (rtx_ok ids) (Some (t, log')) es"
  using assms
proof (induction es arbitrary: t log log')
  case (Cons e es)
  have ok: "rtx_ok ids (Some (t, log')) e" using Cons.prems by (auto simp: rtx_ok_def)
  show ?case
  proof (cases "rtx_apply t e")
    case None
    then show ?thesis using Cons.prems ok by (cases es) (auto simp: rtx_step_def rtx_ok_def)
  next
    case (Some r)
    then show ?thesis using Cons.IH [of "fst r" "log @ snd r" "log' @ snd r"] Cons.prems ok
      by (auto simp: rtx_step_def case_prod_beta)
  qed
qed simp

lemma new_inv:
  assumes "mqvpn_redundant_tx_new a b c = Some t"
  shows "rtx_inv t" and "rtx_abs t = (0, \<lambda>_. None)"
proof -
  have t: "rt_copies t = empty_tab" "rt_origs t = empty_tab" "rt_next_orig t = 0" "rt_path t = replicate MQVPN_MAX_PATHS zero_path"
    "rt_sent t = replicate MQVPN_MAX_PATHS (replicate RTX_CAP 0)"
    using assms by (auto simp: mqvpn_redundant_tx_new_def rtx_mode_reset_def split: if_splits)
  have w: "on_path empty_tab q = 0" "bytes_on empty_tab q = 0" for q
    by (simp_all add: on_path_def bytes_on_def weight_def tab_abs_empty)
  show "rtx_inv t"
    unfolding rtx_inv_def links_ok_def path_counts_ok_def sent_ok_def t tab_abs_empty w
    by (auto simp: empty_tab_ok zero_path_def RTX_CAP_def)
  show "rtx_abs t = (0, \<lambda>_. None)"
    by (simp add: rtx_abs_def t view_def tab_abs_empty fun_eq_iff)
qed

lemma new_run_ok:
  assumes "mqvpn_redundant_tx_new a b c = Some t0" and "distinct (concat (map event_ids es))" and "length es < 2 ^ 64 - 1"
    and "set (concat (map event_ids es)) \<inter> ids = {}"
  shows "run_ok rtx_step (rtx_ok ids) (Some (t0, [])) es"
proof (rule fresh_run_ok [OF new_inv(1) [OF assms(1)] _ assms(2) _ assms(4)])
  have a: "rt_next_orig t0 = 0" "view t0 = (\<lambda>_. None)" using new_inv(2) [OF assms(1)] by (simp_all add: rtx_abs_def)
  show "tracked (view t0) \<inter> set (concat (map event_ids es)) = {}" by (simp add: tracked_def a)
  show "unat (rt_next_orig t0) + length es < 2 ^ 64 - 1" using assms(3) by (simp add: a)
qed

text \<open>
  C6: whatever the sequence of calls, as long as no datagram number is recorded twice and fewer
  than 2 to the 64 originals are numbered, the transmitter never follows a missing entry, what it
  reports about acknowledged and lost copies is what the specification says, and the counters of
  every path are the number and the bytes of the unresolved copies on it.
\<close>

theorem redundant_tx_refines_spec:
  assumes "mqvpn_redundant_tx_new a b c = Some t0" and "distinct (concat (map event_ids es))" and "length es < 2 ^ 64 - 1"
  shows "\<exists>t log. run rtx_step (Some (t0, [])) es = Some (t, log) \<and> spec_run (0, \<lambda>_. None) es log (rtx_abs t) \<and>
    list_all (\<lambda>p. mqvpn_redundant_tx_outstanding t (int p) = int (card {i. \<exists>x. tab_abs (rt_copies t) i = Some x \<and> re_b x = int p}) \<and>
      rp_out_bytes (rt_path t ! p) = of_nat (\<Sum>i | \<exists>x. tab_abs (rt_copies t) i = Some x \<and> re_b x = int p. unat (re_len (the (tab_abs (rt_copies t) i)))))
      [0..<MQVPN_MAX_PATHS]"
proof -
  have ok: "run_ok rtx_step (rtx_ok {}) (Some (t0, [])) es" by (rule new_run_ok [OF assms]) simp
  obtain t log where t: "run rtx_step (Some (t0, [])) es = Some (t, log)" "rtx_inv t" "spec_run (rtx_abs t0) es log (rtx_abs t)"
    using run_refines [OF new_inv(1) [OF assms(1)] ok] by auto
  have k: "tab_ok (rt_copies t)" "path_counts_ok (rt_copies t) (rt_path t)" using t(2) by (simp_all add: rtx_inv_def)
  have fin: "finite (dom (tab_abs (rt_copies t)))" using tb.count_entries [OF k(1)] by blast
  let ?m = "tab_abs (rt_copies t)"
  have by': "bytes_on (rt_copies t) q = (\<Sum>i | \<exists>x. ?m i = Some x \<and> re_b x = q. unat (re_len (the (?m i))))" for q
  proof -
    have "{i. \<exists>x. ?m i = Some x \<and> re_b x = q} = dom ?m \<inter> {i. re_b (the (?m i)) = q}" by auto
    then show ?thesis unfolding bytes_on_def weight_def using fin by (simp add: sum.inter_restrict) 
  qed
  have on: "on_path (rt_copies t) q = card {i. \<exists>x. ?m i = Some x \<and> re_b x = q}" for q
    unfolding on_path_def by (rule weight_card [OF fin])
  have "mqvpn_redundant_tx_outstanding t (int p) = int (on_path (rt_copies t) (int p)) \<and> rp_out_bytes (rt_path t ! p) = of_nat (bytes_on (rt_copies t) (int p))"
    if "p < MQVPN_MAX_PATHS" for p
    using k(2) that by (simp add: path_counts_ok_def mqvpn_redundant_tx_outstanding_def path_ok_def)
  then show ?thesis
    using t(1,3) unfolding on by' new_inv(2) [OF assms(1)] by (auto simp: list_all_iff)
qed

theorem redundant_tx_refines_spec_witness:
  "\<exists>t log. run rtx_step (Some (the (mqvpn_redundant_tx_new True True True), [])) [Commit [(7, 0), (8, 1)] 5 1200, Lost 7, Acked 8] = Some (t, log) \<and>
    spec_run (0, \<lambda>_. None) [Commit [(7, 0), (8, 1)] 5 1200, Lost 7, Acked 8] log (rtx_abs t)"
proof -
  have "mqvpn_redundant_tx_new True True True = Some (the (mqvpn_redundant_tx_new True True True))" by (simp add: mqvpn_redundant_tx_new_def)
  from redundant_tx_refines_spec [OF this, of "[Commit [(7, 0), (8, 1)] 5 1200, Lost 7, Acked 8]"] show ?thesis by auto
qed

text \<open>
  C5: an original whose copies were recorded is reported at most once, and exactly once when every
  one of its copies has been acknowledged or declared lost.
\<close>

theorem original_reported_once:
  assumes "mqvpn_redundant_tx_new a b c = Some t0" and "distinct (concat (map event_ids (pre @ Commit cs now len # post)))"
    and "length (pre @ Commit cs now len # post) < 2 ^ 64 - 1"
    and "run rtx_step (Some (t0, [])) pre = Some (t, log0)" and "has_room t cs"
    and "run rtx_step (Some (t, [])) (Commit cs now len # post) = Some (t', log)"
  shows "reports (fst ` set cs) log \<le> 1 \<and> (fst ` set cs \<subseteq> fst ` set log \<longrightarrow> reports (fst ` set cs) log = 1)"
proof -
  let ?ids = "fst ` set cs" and ?k = "rt_next_orig t + 1"
  let ?es = "pre @ Commit cs now len # post"
  have "run_ok rtx_step (rtx_ok {}) (Some (t0, [])) ?es" by (rule new_run_ok [OF assms(1-3)]) simp
  then have ok: "run_ok rtx_step (rtx_ok {}) (Some (t, log0)) (Commit cs now len # post)" and okp: "run_ok rtx_step (rtx_ok {}) (Some (t0, [])) pre"
    using assms(4) by (simp_all add: run_ok_append)
  have inv: "rtx_inv t"
    using rtm.run_inv [of "Some (t0, [])" pre] okp new_inv(1) [OF assms(1)] assms(4) by (simp add: run_inv_st_def)
  have pre: "commit_pre t cs" using ok by (simp add: rtx_ok_def)
  obtain u where u: "mqvpn_redundant_tx_commit t cs now len = Some u" "rtx_inv u" "rt_next_orig u = ?k"
    "view u = (view t)(?k \<mapsto> (?ids, False))"
    using commit_inv [OF inv pre assms(5)] by blast
  have st: "rtx_step (Some (t, l)) (Commit cs now len) = Some (u, l)" for l by (simp add: rtx_step_def u(1))
  have "S \<inter> ?ids = {}" if v: "view u k' = Some (S, a)" "k' \<noteq> ?k" for k' S a
  proof -
    have "view t k' = Some (S, a)" using v by (simp add: u(4))
    then show ?thesis using pre view_tracked(1) [OF inv] by (fastforce simp: commit_pre_def)
  qed
  then have "\<forall>k' S a. view u k' = Some (S, a) \<longrightarrow> k' \<noteq> ?k \<longrightarrow> S \<inter> ?ids = {}" by blast
  then have "once_st ?k ?ids (Some (u, []))" using u(2,3) by (simp add: once_st_def once_def rtx_abs_def) (simp add: u(4))
  moreover have "run_ok rtx_step (rtx_ok ?ids) (Some (u, [])) post"
    by (rule run_ok_other_log [of _ log0]) (use ok assms(2) in \<open>auto simp: st\<close>)
  ultimately have "once_st ?k ?ids (Some (t', log))"
    using onm.run_inv [of ?k ?ids "Some (u, [])" post] assms(6) by (simp add: st)
  then have o': "rtx_inv t'" "once ?k ?ids (rt_next_orig t', view t') log" by (simp_all add: once_st_def rtx_abs_def)
  show ?thesis
  proof (cases "view t' ?k")
    case None
    then show ?thesis using o'(2) by (simp add: once_def)
  next
    case (Some v)
    have "fst v \<noteq> {}" "fst v \<subseteq> ?ids - fst ` set log" "reports ?ids log \<le> 1"
      using o'(2) view_tracked(3) [OF o'(1), of ?k "fst v" "snd v"] Some by (auto simp: once_def case_prod_beta)
    then show ?thesis by blast
  qed
qed

theorem original_reported_once_witness:
  "\<exists>t log. run rtx_step (Some (the (mqvpn_redundant_tx_new True True True), [])) [Commit [(7, 0), (8, 1)] 5 1200, Lost 7, Acked 8] = Some (t, log) \<and>
    map fst log = [7, 8] \<and> reports {7, 8} log = 1"
proof -
  let ?t = "the (mqvpn_redundant_tx_new True True True)" and ?es = "[Lost 7, Acked 8]" and ?c = "Commit [(7, 0), (8, 1)] 5 1200"
  have new: "mqvpn_redundant_tx_new True True True = Some ?t" by (simp add: mqvpn_redundant_tx_new_def)
  have room: "has_room ?t [(7, 0), (8, 1)]"
    by (simp add: mqvpn_redundant_tx_new_def has_room_def rtx_mode_reset_def empty_tab_def RTX_CAP_def)
  have d: "distinct (concat (map event_ids ([] @ ?c # ?es)))" "length ([] @ ?c # ?es) < 2 ^ 64 - 1" by simp_all
  have ok: "run_ok rtx_step (rtx_ok {}) (Some (?t, [])) (?c # ?es)" by (rule new_run_ok [OF new]) simp_all
  obtain t log where r: "run rtx_step (Some (?t, [])) (?c # ?es) = Some (t, log)"
    using run_refines [OF new_inv(1) [OF new] ok] by auto
  have l: "map fst log = [7, 8]"
    using r by (auto simp: rtx_step_def split: option.splits)
  then have "fst ` set log = {7, 8}" by (metis list.set(1,2) list.set_map)
  moreover have "run rtx_step (Some (?t, [])) [] = Some (?t, [])" by simp
  ultimately have "reports {7, 8} log = 1"
    using original_reported_once [OF new d _ room r, of "[]"] by simp
  with r l show ?thesis by (intro exI [of _ t] exI [of _ log] conjI)
qed

end
