(* ===== verification/Hybrid.thy ===== *)
theory Hybrid
  imports Wire Addr_Pool
begin

text \<open>
  The hybrid mode's decisions: address ranges and the lane of a packet
  (src/hybrid/classifier.h, src/hybrid/classifier.c), the request path of a TCP flow
  (src/hybrid/tcp\_lane.h) and the server's parsing and access control of it
  (src/hybrid/tcp\_egress.c, src/mqvpn\_server.c). Addresses are lists of 16 bytes. \<open>pton4\<close>,
  \<open>pton6\<close> and \<open>ntop6\<close> are \<open>inet_pton\<close> and \<open>inet_ntop\<close>.
\<close>

section \<open>Address ranges\<close>

record mqvpn_cidr_entry =
  ce_family :: u8
  ce_prefix_len :: u8
  ce_net :: "u8 list"

definition zero_cidr :: mqvpn_cidr_entry where
  "zero_cidr = \<lparr>ce_family = 0, ce_prefix_len = 0, ce_net = replicate 16 0\<rparr>"

definition cidr_mask :: "nat \<Rightarrow> u8" where
  "cidr_mask rem = push_bit (8 - rem) 0xFF"

definition zero_from :: "nat \<Rightarrow> u8 list \<Rightarrow> u8 list" where
  "zero_from i net = take i net @ replicate (16 - i) 0"

definition mqvpn_cidr_premask :: "u8 list \<Rightarrow> nat \<Rightarrow> u8 list option" where
  "mqvpn_cidr_premask net prefix_len =
     (let full = prefix_len div 8; rem = prefix_len mod 8
      in if rem \<noteq> 0 then do { b \<leftarrow> rd net full; Some (zero_from (full + 1) (net[full := b AND cidr_mask rem])) }
         else Some (zero_from full net))"

definition mqvpn_cidr_match :: "mqvpn_cidr_entry \<Rightarrow> u8 \<Rightarrow> u8 list \<Rightarrow> bool option" where
  "mqvpn_cidr_match e family addr =
     (if ce_family e = 0 \<or> ce_family e \<noteq> family then Some False
      else if ce_prefix_len e > 128 then Some False
      else (let nbits = unat (ce_prefix_len e); full = nbits div 8; rem = nbits mod 8
            in do {
              a \<leftarrow> rd_bytes addr 0 full;
              n \<leftarrow> rd_bytes (ce_net e) 0 full;
              if a \<noteq> n then Some False
              else if rem \<noteq> 0
              then do {
                x \<leftarrow> rd addr full;
                y \<leftarrow> rd (ce_net e) full;
                Some (x AND cidr_mask rem = y AND cidr_mask rem) }
              else Some True }))"

definition mqvpn_tunnel_subnet_learn :: "u8 list \<Rightarrow> int \<Rightarrow> mqvpn_cidr_entry option" where
  "mqvpn_tunnel_subnet_learn ip assigned_prefix =
     (if assigned_prefix \<le> 0 then Some zero_cidr
      else (let plen = (if assigned_prefix < 24 then assigned_prefix else 24)
            in do {
              net \<leftarrow> mqvpn_cidr_premask (ip @ replicate 12 0) (nat plen);
              Some \<lparr>ce_family = 4, ce_prefix_len = of_int plen, ce_net = net\<rparr> }))"

definition mqvpn_tunnel_prefix6_effective :: "int \<Rightarrow> int" where
  "mqvpn_tunnel_prefix6_effective capsule_prefix =
     (if capsule_prefix > 112 \<and> capsule_prefix \<le> 128 then 112 else capsule_prefix)"

definition mqvpn_tunnel_subnet_learn_v6 :: "u8 list \<Rightarrow> int \<Rightarrow> mqvpn_cidr_entry option" where
  "mqvpn_tunnel_subnet_learn_v6 ip6 assigned_prefix =
     (if assigned_prefix \<le> 0 \<or> assigned_prefix > 128 then Some zero_cidr
      else (let plen = mqvpn_tunnel_prefix6_effective assigned_prefix
            in do {
              net \<leftarrow> mqvpn_cidr_premask ip6 (nat plen);
              Some \<lparr>ce_family = 6, ce_prefix_len = of_int plen, ce_net = net\<rparr> }))"

definition ip4_bytes :: "u32 \<Rightarrow> u8 list" where
  "ip4_bytes h = [ucast (drop_bit 24 h), ucast (drop_bit 16 h), ucast (drop_bit 8 h), ucast h]"

text \<open>Parsing a range: the inner \<open>None\<close> is the return code -1. The buffer has 46 + 8 bytes.\<close>

definition mqvpn_parse_cidr ::
  "(string \<Rightarrow> u32 option) \<Rightarrow> (string \<Rightarrow> u8 list option) \<Rightarrow> string \<Rightarrow> mqvpn_cidr_entry option option" where
  "mqvpn_parse_cidr pton4 pton6 s =
     (if length s = 0 \<or> length s \<ge> 54 then Some None
      else case strchr CHR ''/'' s of
        None \<Rightarrow> Some None
      | Some (buf, prefix_str) \<Rightarrow>
          (let is_v6 = (strchr CHR '':'' buf \<noteq> None);
               max_prefix = (if is_v6 then 128 else 32);
               parsed = (if is_v6 then pton6 buf else map_option (\<lambda>h. ip4_bytes h @ replicate 12 0) (pton4 buf))
           in case parsed of
                None \<Rightarrow> Some None
              | Some net \<Rightarrow>
                  (case prefix_str of
                     [] \<Rightarrow> Some None
                   | c # _ \<Rightarrow>
                       if \<not> isdigit c then Some None
                       else (let (prefix, endp) = strtol prefix_str
                             in if endp \<noteq> [] \<or> prefix < 0 \<or> prefix > max_prefix then Some None
                                else do {
                                  net \<leftarrow> mqvpn_cidr_premask net (nat prefix);
                                  Some (Some \<lparr>ce_family = (if is_v6 then 6 else 4), ce_prefix_len = of_int prefix, ce_net = net\<rparr>) }))))"


section \<open>Configuration\<close>

definition MQVPN_HYBRID_TCP_STREAM :: u32 where "MQVPN_HYBRID_TCP_STREAM = 0"
definition MQVPN_HYBRID_TCP_RAW :: u32 where "MQVPN_HYBRID_TCP_RAW = 1"
definition MQVPN_HYBRID_TCP_AUTO :: u32 where "MQVPN_HYBRID_TCP_AUTO = 2"
definition MQVPN_TCP_MAX_GLOBAL_FLOWS_DEFAULT :: u32 where "MQVPN_TCP_MAX_GLOBAL_FLOWS_DEFAULT = 4096"
definition MQVPN_TCP_MAX_FLOWS_DEFAULT :: u32 where "MQVPN_TCP_MAX_FLOWS_DEFAULT = 256"
definition MQVPN_TCP_CONNECT_TIMEOUT_SEC_DEFAULT :: u32 where "MQVPN_TCP_CONNECT_TIMEOUT_SEC_DEFAULT = 10"

record mqvpn_hybrid_config =
  hc_enabled :: bool
  hc_tcp_mode :: u32
  hc_tcp_max_flows :: u32
  hc_tcp_idle_timeout_sec :: u32
  hc_tcp_connect_timeout_sec :: u32
  hc_tcp_max_global_flows :: u32
  hc_egress_allow :: "mqvpn_cidr_entry list"
  hc_egress_deny :: "mqvpn_cidr_entry list"
  hc_tunnel4 :: mqvpn_cidr_entry
  hc_tunnel6 :: mqvpn_cidr_entry

definition mqvpn_hybrid_config_default :: mqvpn_hybrid_config where
  "mqvpn_hybrid_config_default =
     \<lparr>hc_enabled = False, hc_tcp_mode = MQVPN_HYBRID_TCP_AUTO, hc_tcp_max_flows = MQVPN_TCP_MAX_FLOWS_DEFAULT,
      hc_tcp_idle_timeout_sec = 300, hc_tcp_connect_timeout_sec = MQVPN_TCP_CONNECT_TIMEOUT_SEC_DEFAULT,
      hc_tcp_max_global_flows = MQVPN_TCP_MAX_GLOBAL_FLOWS_DEFAULT, hc_egress_allow = [], hc_egress_deny = [],
      hc_tunnel4 = zero_cidr, hc_tunnel6 = zero_cidr\<rparr>"

definition mqvpn_hybrid_config_validate :: "mqvpn_hybrid_config \<Rightarrow> bool" where
  "mqvpn_hybrid_config_validate cfg \<longleftrightarrow>
     \<not> hc_tcp_mode cfg > MQVPN_HYBRID_TCP_AUTO \<and> hc_tcp_max_flows cfg \<noteq> 0 \<and> hc_tcp_connect_timeout_sec cfg \<noteq> 0 \<and>
     hc_tcp_max_global_flows cfg \<noteq> 0"

text \<open>The names of the reset fields; the C function stores at most \<open>max_names\<close> of them and returns their number.\<close>

definition mqvpn_hybrid_config_sanitize :: "mqvpn_hybrid_config \<Rightarrow> mqvpn_hybrid_config \<times> string list" where
  "mqvpn_hybrid_config_sanitize cfg =
     (let (cfg, names) = (if hc_tcp_mode cfg > MQVPN_HYBRID_TCP_AUTO
                          then (cfg\<lparr>hc_tcp_mode := MQVPN_HYBRID_TCP_AUTO\<rparr>, [''Tcp'']) else (cfg, []));
          (cfg, names) = (if hc_tcp_max_flows cfg = 0
                          then (cfg\<lparr>hc_tcp_max_flows := MQVPN_TCP_MAX_FLOWS_DEFAULT\<rparr>, names @ [''TcpMaxFlows'']) else (cfg, names));
          (cfg, names) = (if hc_tcp_connect_timeout_sec cfg = 0
                          then (cfg\<lparr>hc_tcp_connect_timeout_sec := MQVPN_TCP_CONNECT_TIMEOUT_SEC_DEFAULT\<rparr>,
                                names @ [''TcpConnectTimeoutSec'']) else (cfg, names))
      in if hc_tcp_max_global_flows cfg = 0
         then (cfg\<lparr>hc_tcp_max_global_flows := MQVPN_TCP_MAX_GLOBAL_FLOWS_DEFAULT\<rparr>, names @ [''TcpMaxGlobalFlows''])
         else (cfg, names))"


section \<open>The lane of a packet\<close>

datatype mqvpn_hybrid_lane = MQVPN_LANE_TCP | MQVPN_LANE_DGRAM | MQVPN_LANE_RAW

definition is_v4mapped :: "u8 list \<Rightarrow> bool" where
  "is_v4mapped addr \<longleftrightarrow> list_all (\<lambda>i. addr ! i = 0) [0..<10] \<and> addr ! 10 = 0xff \<and> addr ! 11 = 0xff"

definition is_v6_multicast :: "u8 list \<Rightarrow> bool" where
  "is_v6_multicast addr \<longleftrightarrow> addr ! 0 = 0xff"

definition is_unspecified :: "u8 list \<Rightarrow> bool" where
  "is_unspecified addr \<longleftrightarrow> list_all (\<lambda>i. addr ! i = 0) [0..<16]"

definition v6_lane_ineligible :: "mqvpn_flow_key \<Rightarrow> bool" where
  "v6_lane_ineligible key \<longleftrightarrow>
     is_v4mapped (fk_dst_ip key) \<or> is_v4mapped (fk_src_ip key) \<or> is_v6_multicast (fk_src_ip key) \<or>
     is_v6_multicast (fk_dst_ip key) \<or> is_unspecified (fk_src_ip key)"

text \<open>The lane and the key left in \<open>out_key\<close>; \<open>None\<close> is a read outside the packet.\<close>

definition mqvpn_hybrid_classify ::
  "u8 list \<Rightarrow> mqvpn_hybrid_config option \<Rightarrow> (mqvpn_hybrid_lane \<times> mqvpn_flow_key option) option" where
  "mqvpn_hybrid_classify pkt pol = do {
     r \<leftarrow> mqvpn_parse_l3l4 pkt;
     case r of
       (MQVPN_L4_UDP, key) \<Rightarrow> Some (MQVPN_LANE_DGRAM, key)
     | (MQVPN_L4_TCP, Some key) \<Rightarrow>
         (case pol of
            None \<Rightarrow> Some (MQVPN_LANE_RAW, Some key)
          | Some pol \<Rightarrow>
              if \<not> hc_enabled pol \<or> hc_tcp_mode pol = MQVPN_HYBRID_TCP_RAW then Some (MQVPN_LANE_RAW, Some key)
              else do {
                not_tcp \<leftarrow> (if fk_ip_version key = 6 then do { b \<leftarrow> rd pkt 6; Some (b \<noteq> MQVPN_IPPROTO_TCP) } else Some False);
                if not_tcp then Some (MQVPN_LANE_RAW, Some key)
                else if fk_ip_version key = 6 \<and> v6_lane_ineligible key then Some (MQVPN_LANE_RAW, Some key)
                else do {
                  m \<leftarrow> mqvpn_cidr_match (if fk_ip_version key = 6 then hc_tunnel6 pol else hc_tunnel4 pol)
                        (fk_ip_version key) (fk_dst_ip key);
                  Some (if m then MQVPN_LANE_RAW else MQVPN_LANE_TCP, Some key) } })
     | (_, key) \<Rightarrow> Some (MQVPN_LANE_RAW, key) }"

section \<open>The request path of a flow\<close>

definition MQVPN_TCP_CONNECT_PATH_PREFIX :: string where "MQVPN_TCP_CONNECT_PATH_PREFIX = ''/.well-known/mqvpn/tcp/''"
definition MQVPN_TCP_CONNECT_PATH_CAP :: nat where "MQVPN_TCP_CONNECT_PATH_CAP = 80"
definition TCP_EGRESS_PATH_PREFIX :: string where "TCP_EGRESS_PATH_PREFIX = ''/.well-known/mqvpn/tcp/''"

definition dotted :: "u8 list \<Rightarrow> string" where
  "dotted a = decimal (unat (a ! 0)) @ ''.'' @ decimal (unat (a ! 1)) @ ''.'' @ decimal (unat (a ! 2)) @ ''.'' @ decimal (unat (a ! 3))"

text \<open>The text left in a buffer of \<open>cap\<close> bytes and the length \<open>snprintf\<close> returns; \<open>None\<close> is -1.\<close>

definition mqvpn_tcp_lane_format_connect_path ::
  "(u8 list \<Rightarrow> string option) \<Rightarrow> nat \<Rightarrow> mqvpn_flow_key \<Rightarrow> (string \<times> nat) option" where
  "mqvpn_tcp_lane_format_connect_path ntop6 cap key =
     (let out = (\<lambda>host. let s = MQVPN_TCP_CONNECT_PATH_PREFIX @ host @ ''/'' @ decimal (unat (fk_dst_port key)) @ ''/''
                        in Some (take (cap - 1) s, length s))
      in if fk_ip_version key = 6
         then (case ntop6 (fk_dst_ip key) of None \<Rightarrow> None | Some ipbuf \<Rightarrow> out ipbuf)
         else out (dotted (fk_dst_ip key)))"

fun port_loop :: "nat \<Rightarrow> string \<Rightarrow> nat option" where
  "port_loop port [] = Some port"
| "port_loop port (c # cs) =
     (if \<not> isdigit c then None
      else let port = port * 10 + digit_val c in if port > 65535 then None else port_loop port cs)"

definition svr_tcp_egress_parse_path :: "string \<Rightarrow> nat \<Rightarrow> (string \<times> u16) option" where
  "svr_tcp_egress_parse_path path out_host_cap =
     (if out_host_cap = 0 then None
      else if length path \<le> length TCP_EGRESS_PATH_PREFIX then None
      else if take (length TCP_EGRESS_PATH_PREFIX) path \<noteq> TCP_EGRESS_PATH_PREFIX then None
      else case strchr CHR ''/'' (drop (length TCP_EGRESS_PATH_PREFIX) path) of
        None \<Rightarrow> None
      | Some (host, rest) \<Rightarrow>
          if length host = 0 \<or> length host \<ge> out_host_cap then None
          else (case strchr CHR ''/'' rest of
                  None \<Rightarrow> None
                | Some (port_str, after) \<Rightarrow>
                    if after \<noteq> [] then None
                    else if length port_str = 0 \<or> length port_str > 5 then None
                    else (case port_loop 0 port_str of
                            None \<Rightarrow> None
                          | Some port \<Rightarrow> if port < 1 then None else Some (host, of_nat port))))"


section \<open>Access control of destinations\<close>

definition cidr4 :: "u8 \<Rightarrow> u8 list \<Rightarrow> mqvpn_cidr_entry" where
  "cidr4 plen net = \<lparr>ce_family = 4, ce_prefix_len = plen, ce_net = net @ replicate (16 - length net) 0\<rparr>"

definition cidr6 :: "u8 \<Rightarrow> u8 list \<Rightarrow> mqvpn_cidr_entry" where
  "cidr6 plen net = \<lparr>ce_family = 6, ce_prefix_len = plen, ce_net = net @ replicate (16 - length net) 0\<rparr>"

definition DEFAULT_DENY_V4 :: "mqvpn_cidr_entry list" where
  "DEFAULT_DENY_V4 =
     [cidr4 8 [0], cidr4 8 [127], cidr4 8 [10], cidr4 12 [172, 16], cidr4 16 [192, 168], cidr4 16 [169, 254],
      cidr4 10 [100, 64], cidr4 4 [224], cidr4 4 [240], cidr4 32 [255, 255, 255, 255]]"

definition DEFAULT_DENY_V6 :: "mqvpn_cidr_entry list" where
  "DEFAULT_DENY_V6 =
     [cidr6 128 (replicate 15 0 @ [1]), cidr6 10 [0xfe, 0x80], cidr6 7 [0xfc], cidr6 8 [0xff], cidr6 128 [0],
      cidr6 96 (replicate 10 0 @ [0xff, 0xff])]"

fun any_match :: "mqvpn_cidr_entry list \<Rightarrow> u8 \<Rightarrow> u8 list \<Rightarrow> bool option" where
  "any_match [] family addr = Some False"
| "any_match (e # es) family addr = do { m \<leftarrow> mqvpn_cidr_match e family addr; if m then Some True else any_match es family addr }"

definition svr_tcp_egress_acl_decide ::
  "u8 \<Rightarrow> u8 list \<Rightarrow> mqvpn_cidr_entry list \<Rightarrow> mqvpn_cidr_entry list \<Rightarrow> mqvpn_cidr_entry \<Rightarrow> bool option" where
  "svr_tcp_egress_acl_decide family addr allow deny tunnel = do {
     t \<leftarrow> mqvpn_cidr_match tunnel family addr;
     if t then Some False
     else do {
       a \<leftarrow> any_match allow family addr;
       if a then Some True
       else do {
         d \<leftarrow> any_match (if family = 6 then DEFAULT_DENY_V6 else DEFAULT_DENY_V4) family addr;
         if d then Some False
         else do { d \<leftarrow> any_match deny family addr; Some (\<not> d) } } } }"

text \<open>The tunnel ranges of the server, from the pool the client addresses come from.\<close>

definition svr_get_egress_policy :: "mqvpn_addr_pool \<Rightarrow> (mqvpn_cidr_entry \<times> mqvpn_cidr_entry) option" where
  "svr_get_egress_policy pool = do {
     net4 \<leftarrow> mqvpn_cidr_premask (ip4_bytes (ap_base pool) @ replicate 12 0) (unat (of_int (ap_prefix_len pool) :: u8));
     t6 \<leftarrow> (if ap_has_v6 pool
            then do {
              net6 \<leftarrow> mqvpn_cidr_premask (ap_base6 pool) (unat (of_int (ap_prefix6 pool) :: u8));
              Some \<lparr>ce_family = 6, ce_prefix_len = of_int (ap_prefix6 pool), ce_net = net6\<rparr> }
            else Some zero_cidr);
     Some (\<lparr>ce_family = 4, ce_prefix_len = of_int (ap_prefix_len pool), ce_net = net4\<rparr>, t6) }"

definition svr_tcp_egress_acl_allowed ::
  "(string \<Rightarrow> u32 option) \<Rightarrow> (string \<Rightarrow> u8 list option) \<Rightarrow> mqvpn_hybrid_config \<Rightarrow> mqvpn_addr_pool \<Rightarrow> string \<Rightarrow> bool option" where
  "svr_tcp_egress_acl_allowed pton4 pton6 cfg pool target_host =
     (let v6 = (strchr CHR '':'' target_host \<noteq> None)
      in case (if v6 then pton6 target_host else map_option (\<lambda>h. ip4_bytes h @ replicate 12 0) (pton4 target_host)) of
           None \<Rightarrow> Some False
         | Some addr \<Rightarrow> do {
             (t4, t6) \<leftarrow> svr_get_egress_policy pool;
             svr_tcp_egress_acl_decide (if v6 then 6 else 4) addr (hc_egress_allow cfg) (hc_egress_deny cfg)
               (if v6 then t6 else t4) })"

definition svr_compute_egress_fd_budget :: "u32 \<Rightarrow> u64 option \<Rightarrow> int" where
  "svr_compute_egress_fd_budget configured_max rlim_cur =
     (let budget = (if uint configured_max > 2147483647 then 2147483647 else uint configured_max)
      in case rlim_cur of
           None \<Rightarrow> budget
         | Some r \<Rightarrow>
             if uint r \<le> 9223372036854775807
             then (let headroom = max 0 (uint r - 64) in if headroom < budget then headroom else budget)
             else budget)"

end
