(* ===== verification/Hybrid_Props.thy ===== *)
theory Hybrid_Props
  imports Hybrid
begin

text \<open>
  Properties of the hybrid mode's decisions: address ranges as bit prefixes, the server's access
  control with its default deny list, and the way of a TCP flow from the client's lane decision
  over the request path to the server's decision.
\<close>

section \<open>Ranges as bit prefixes\<close>

definition addr_bit :: "u8 list \<Rightarrow> nat \<Rightarrow> bool" where
  "addr_bit a i = bit (a ! (i div 8)) (7 - i mod 8)"

definition same_prefix :: "nat \<Rightarrow> u8 list \<Rightarrow> u8 list \<Rightarrow> bool" where
  "same_prefix n a b = list_all (\<lambda>i. addr_bit a i = addr_bit b i) [0..<n]"

lemma same_prefix_iff: "same_prefix n a b \<longleftrightarrow> (\<forall>i < n. addr_bit a i = addr_bit b i)"
  by (auto simp: same_prefix_def list_all_iff)

lemma same_prefix_rules:
  "same_prefix n a a" "same_prefix n a b \<Longrightarrow> same_prefix n b a" "same_prefix n a b \<Longrightarrow> same_prefix n b c \<Longrightarrow> same_prefix n a c"
  "same_prefix n a b \<Longrightarrow> m \<le> n \<Longrightarrow> same_prefix m a b"
  by (simp_all add: same_prefix_iff)

lemma same_prefix_cong: "same_prefix n a b \<Longrightarrow> same_prefix n c a \<longleftrightarrow> same_prefix n c b"
  by (simp add: same_prefix_iff)

lemma byte_eq_bits: "a = b \<longleftrightarrow> (\<forall>k < 8. bit a (7 - k) = bit b (7 - k))" for a b :: u8
proof
  assume r: "\<forall>k < 8. bit a (7 - k) = bit b (7 - k)"
  show "a = b"
  proof (rule bit_eqI)
    fix n assume "possible_bit TYPE(8 word) n"
    then have "n < 8" by simp
    then show "bit a n = bit b n" using r [rule_format, of "7 - n"] by simp
  qed
qed simp

lemma bit_cidr_mask: "0 < r \<Longrightarrow> r < 8 \<Longrightarrow> bit (cidr_mask r) n \<longleftrightarrow> 8 - r \<le> n \<and> n < 8"
proof -
  have f: "(0xFF :: u8) = mask 8" by (simp add: mask_eq_exp_minus_1)
  assume "0 < r" "r < 8"
  then have "bit (push_bit (8 - r) (mask 8 :: u8)) n \<longleftrightarrow> 8 - r \<le> n \<and> n < 8 \<and> n - (8 - r) < 8"
    by (simp add: bit_push_bit_iff bit_mask_iff)
  then show ?thesis unfolding cidr_mask_def f by auto
qed

lemma mask_eq_bits:
  assumes "0 < r" and "r < 8"
  shows "a AND cidr_mask r = b AND cidr_mask r \<longleftrightarrow> (\<forall>k < r. bit a (7 - k) = bit b (7 - k))"
proof
  assume e: "a AND cidr_mask r = b AND cidr_mask r"
  show "\<forall>k < r. bit a (7 - k) = bit b (7 - k)"
  proof (intro allI impI)
    fix k assume "k < r"
    then have m: "bit (cidr_mask r) (7 - k)" unfolding bit_cidr_mask [OF assms] using assms by linarith
    have "bit (a AND cidr_mask r) (7 - k) = bit (b AND cidr_mask r) (7 - k)" by (simp only: e)
    then show "bit a (7 - k) = bit b (7 - k)" using m by (simp only: bit_and_iff simp_thms)
  qed
next
  assume r: "\<forall>k < r. bit a (7 - k) = bit b (7 - k)"
  show "a AND cidr_mask r = b AND cidr_mask r"
  proof (rule bit_eqI)
    fix n
    have "bit a n = bit b n" if "8 - r \<le> n" "n < 8"
    proof -
      have "7 - n < r" "7 - (7 - n) = n" using that assms by linarith+
      then show ?thesis using r by metis
    qed
    then show "bit (a AND cidr_mask r) n = bit (b AND cidr_mask r) n"
      unfolding bit_and_iff bit_cidr_mask [OF assms] by blast
  qed
qed

lemma all_less_split: "(\<forall>i < 8 * q + r. P i) \<longleftrightarrow> (\<forall>j < q. \<forall>k < 8. P (8 * j + k)) \<and> (\<forall>k < r. P (8 * q + k))" for P :: "nat \<Rightarrow> bool"
proof (intro iffI conjI allI impI; (elim conjE)?)
  fix i assume a: "\<forall>j < q. \<forall>k < 8. P (8 * j + k)" "\<forall>k < r. P (8 * q + k)" and i: "i < 8 * q + r"
  show "P i"
  proof (cases "i < 8 * q")
    case True
    then have "i div 8 < q" "i mod 8 < 8" by auto
    then have "P (8 * (i div 8) + i mod 8)" using a(1) by blast
    then show ?thesis by (simp only: mult_div_mod_eq)
  next
    case False
    then have "i - 8 * q < r" "8 * q + (i - 8 * q) = i" using i by linarith+
    then show ?thesis using a(2) by metis
  qed
qed auto

lemma same_prefix_bytes:
  assumes "r < 8"
  shows "same_prefix (8 * q + r) a b \<longleftrightarrow> (\<forall>j < q. a ! j = b ! j) \<and> (r = 0 \<or> a ! q AND cidr_mask r = b ! q AND cidr_mask r)"
proof -
  have "addr_bit c (8 * j + k) = bit (c ! j) (7 - k)" if "k < 8" for c j k using that by (simp add: addr_bit_def)
  then show ?thesis
    unfolding same_prefix_iff all_less_split using assms mask_eq_bits [of r "a ! q" "b ! q"] byte_eq_bits by (cases "r = 0") auto
qed

lemma match_same_prefix:
  assumes "length addr = 16" and "length (ce_net e) = 16" and "ce_prefix_len e \<le> 128"
  shows "mqvpn_cidr_match e family addr =
    Some (ce_family e \<noteq> 0 \<and> ce_family e = family \<and> same_prefix (unat (ce_prefix_len e)) addr (ce_net e))"
proof -
  let ?n = "unat (ce_prefix_len e)" and ?q = "unat (ce_prefix_len e) div 8" and ?r = "unat (ce_prefix_len e) mod 8"
  have n: "?n \<le> 128" using assms(3) by (simp add: word_le_nat_alt)
  have q: "?q \<le> 16" "?r \<noteq> 0 \<Longrightarrow> ?q < 16" using n by presburger+
  have t: "take ?q addr = take ?q (ce_net e) \<longleftrightarrow> (\<forall>j < ?q. addr ! j = ce_net e ! j)"
    using q(1) assms(1,2) by (auto simp: list_eq_iff_nth_eq)
  have p: "same_prefix ?n addr (ce_net e) \<longleftrightarrow> (\<forall>j < ?q. addr ! j = ce_net e ! j) \<and>
      (?r = 0 \<or> addr ! ?q AND cidr_mask ?r = ce_net e ! ?q AND cidr_mask ?r)"
    using same_prefix_bytes [of ?r ?q addr "ce_net e"] by simp
  show ?thesis
    using q assms by (auto simp: mqvpn_cidr_match_def Let_def rd_bytes_def rd_def t p)
qed

lemma premask_spec:
  assumes "length net = 16" and "n \<le> 128"
  shows "\<exists>net'. mqvpn_cidr_premask net n = Some net' \<and> length net' = 16 \<and> same_prefix n net' net \<and>
    (\<forall>i. n \<le> i \<and> i < 128 \<longrightarrow> \<not> addr_bit net' i) \<and> (\<forall>j. 8 * j \<ge> n \<and> j < 16 \<longrightarrow> net' ! j = 0)"
proof (cases "n mod 8 = 0")
  case True
  let ?q = "n div 8" and ?net = "zero_from (n div 8) net"
  have q: "n = 8 * ?q" "?q \<le> 16" using True assms(2) by presburger+
  have nth: "?net ! j = (if j < ?q then net ! j else 0)" if "j < 16" for j
    using that q(2) assms(1) by (simp add: zero_from_def nth_append)
  have "mqvpn_cidr_premask net n = Some ?net" using True by (simp add: mqvpn_cidr_premask_def)
  moreover have "length ?net = 16" using q(2) assms(1) by (simp add: zero_from_def)
  moreover have "same_prefix n ?net net"
  proof -
    have "same_prefix (8 * ?q + 0) ?net net" by (subst same_prefix_bytes) (use nth q(2) in auto)
    then show ?thesis using q(1) by simp
  qed
  moreover have "\<not> addr_bit ?net i" if "n \<le> i" "i < 128" for i
  proof -
    have "i div 8 < 16" "\<not> i div 8 < ?q" using that q(1) by auto
    then show ?thesis by (simp add: addr_bit_def nth)
  qed
  moreover have "?net ! j = 0" if "n \<le> 8 * j" "j < 16" for j using that nth [of j] q(1) by auto
  ultimately show ?thesis by blast
next
  case False
  let ?q = "n div 8" and ?r = "n mod 8"
  have q: "n = 8 * ?q + ?r" "?q < 16" using False assms(2) by presburger+
  have r: "0 < ?r" "?r < 8" using False by simp_all
  define N where "N = zero_from (?q + 1) (net[?q := net ! ?q AND cidr_mask ?r])"
  have nth: "N ! j = (if j < ?q then net ! j else if j = ?q then net ! ?q AND cidr_mask ?r else 0)" if "j < 16" for j
    using that q(2) assms(1) by (auto simp: N_def zero_from_def nth_append nth_list_update)
  have "mqvpn_cidr_premask net n = Some N" using False q(2) assms(1) by (simp add: N_def mqvpn_cidr_premask_def rd_def Let_def)
  moreover have "length N = 16" using q(2) assms(1) by (simp add: N_def zero_from_def)
  moreover have "same_prefix n N net"
  proof -
    have "net ! ?q AND cidr_mask ?r AND cidr_mask ?r = net ! ?q AND cidr_mask ?r" by (simp add: and.assoc)
    then have "same_prefix (8 * ?q + ?r) N net" by (subst same_prefix_bytes [OF r(2)]) (use nth q(2) in auto)
    then show ?thesis using q(1) by simp
  qed
  moreover have "\<not> addr_bit N i" if "n \<le> i" "i < 128" for i
  proof -
    have "?q \<le> i div 8" using that(1) by (rule div_le_mono)
    moreover have "?r \<le> i mod 8" if "i div 8 = ?q" using \<open>n \<le> i\<close> q(1) mult_div_mod_eq [of 8 i] that by linarith
    ultimately consider "i div 8 = ?q" "?r \<le> i mod 8" | "i div 8 > ?q" by linarith
    then show ?thesis
    proof cases
      case 1
      have "\<not> 8 - ?r \<le> 7 - i mod 8" using 1(2) r mod_less_divisor [of 8 i] by linarith
      then have "\<not> bit (cidr_mask ?r) (7 - i mod 8)" unfolding bit_cidr_mask [OF r] by blast
      then show ?thesis using 1(1) q(2) by (simp add: addr_bit_def nth bit_and_iff)
    next
      case 2
      then have "i div 8 < 16" using that(2) by simp
      then show ?thesis using 2 by (simp add: addr_bit_def nth)
    qed
  qed
  moreover have "N ! j = 0" if "n \<le> 8 * j" "j < 16" for j
  proof -
    have "?q < j" using that(1) q(1) r(1) by linarith
    then show ?thesis using nth [OF that(2)] by simp
  qed
  ultimately show ?thesis by blast
qed

text \<open>A range as the code keeps it: unset, or a network of one family with no bit set beyond its prefix.\<close>

definition cidr_ok :: "mqvpn_cidr_entry \<Rightarrow> bool" where
  "cidr_ok e \<longleftrightarrow> e = zero_cidr \<or>
     length (ce_net e) = 16 \<and> list_all (\<lambda>i. \<not> addr_bit (ce_net e) i) [unat (ce_prefix_len e)..<128] \<and>
     (ce_family e = 4 \<and> ce_prefix_len e \<le> 32 \<and> drop 4 (ce_net e) = replicate 12 0 \<or> ce_family e = 6 \<and> ce_prefix_len e \<le> 128)"

lemma cidr_ok_dims: "cidr_ok e \<Longrightarrow> length (ce_net e) = 16 \<and> ce_prefix_len e \<le> 128"
  by (auto simp: cidr_ok_def zero_cidr_def word_le_nat_alt)

definition covers :: "mqvpn_cidr_entry \<Rightarrow> u8 \<Rightarrow> u8 list \<Rightarrow> bool" where
  "covers e family addr \<longleftrightarrow> ce_family e \<noteq> 0 \<and> ce_family e = family \<and> same_prefix (unat (ce_prefix_len e)) addr (ce_net e)"

lemma match_covers: "cidr_ok e \<Longrightarrow> length addr = 16 \<Longrightarrow> mqvpn_cidr_match e family addr = Some (covers e family addr)"
  using cidr_ok_dims [of e] by (simp add: match_same_prefix covers_def)

lemma prefix_word: "0 \<le> p \<Longrightarrow> p \<le> 128 \<Longrightarrow> unat (of_int p :: u8) = nat p"
  by (simp add: unat_eq_nat_uint uint_word_of_int)

lemma premask_entry:
  assumes "length net = 16" and "0 \<le> p" and "fam = 6 \<and> p \<le> 128 \<or> fam = 4 \<and> p \<le> 32 \<and> drop 4 net = replicate 12 0"
  shows "\<exists>net'. mqvpn_cidr_premask net (nat p) = Some net' \<and> cidr_ok \<lparr>ce_family = fam, ce_prefix_len = of_int p, ce_net = net'\<rparr> \<and>
    same_prefix (nat p) net' net"
proof -
  have n: "nat p \<le> 128" "unat (of_int p :: u8) = nat p" using assms(2,3) prefix_word [of p] by auto
  obtain net' where m: "mqvpn_cidr_premask net (nat p) = Some net'" "length net' = 16" "same_prefix (nat p) net' net"
    "\<And>i. nat p \<le> i \<Longrightarrow> i < 128 \<Longrightarrow> \<not> addr_bit net' i" "\<And>j. 8 * j \<ge> nat p \<Longrightarrow> j < 16 \<Longrightarrow> net' ! j = 0"
    using premask_spec [OF assms(1) n(1)] by blast
  have "drop 4 net' = replicate 12 0" if "p \<le> 32"
    by (rule nth_equalityI) (use m(2,5) that in auto)
  moreover have "(of_int p :: u8) \<le> 32" if "p \<le> 32" using that n(2) assms(2) by (simp add: word_le_nat_alt)
  moreover have "(of_int p :: u8) \<le> 128" if "p \<le> 128" using that n(2) assms(2) by (simp add: word_le_nat_alt)
  ultimately have "cidr_ok \<lparr>ce_family = fam, ce_prefix_len = of_int p, ce_net = net'\<rparr>"
    unfolding cidr_ok_def using m(2,4) n(2) assms(3) by (auto simp: list_all_iff)
  then show ?thesis using m(1,3) by blast
qed

lemma parse_cidr_ok:
  assumes "\<And>s a. pton6 s = Some a \<Longrightarrow> length a = 16"
  shows "\<exists>r. mqvpn_parse_cidr pton4 pton6 s = Some r \<and> pred_option cidr_ok r"
proof -
  have a: "\<exists>r. (do { net \<leftarrow> mqvpn_cidr_premask net (nat q);
      Some (Some \<lparr>ce_family = (if v6 then 6 else 4), ce_prefix_len = of_int q, ce_net = net\<rparr>) }) = Some r \<and> pred_option cidr_ok r"
    if g: "(if v6 then pton6 buf else map_option (\<lambda>h. ip4_bytes h @ replicate 12 0) (pton4 buf)) = Some net"
      "\<not> q < 0" "\<not> q > (if v6 then 128 else 32)" for v6 buf net q
  proof -
    have "length net = 16" "\<not> v6 \<Longrightarrow> drop 4 net = replicate 12 0"
      using g(1) assms by (auto simp: ip4_bytes_def split: if_splits)
    then obtain net' where "mqvpn_cidr_premask net (nat q) = Some net'"
      "cidr_ok \<lparr>ce_family = (if v6 then 6 else 4), ce_prefix_len = of_int q, ce_net = net'\<rparr>"
      using premask_entry [of net q "if v6 then 6 else 4"] g(2,3) by (auto split: if_splits)
    then show ?thesis by simp
  qed
  have a6: "\<exists>r. (do { net \<leftarrow> mqvpn_cidr_premask net (nat q); Some (Some \<lparr>ce_family = 6, ce_prefix_len = of_int q, ce_net = net\<rparr>) }) = Some r \<and>
      pred_option cidr_ok r" if "pton6 buf = Some net" "0 \<le> q" "q \<le> 128" for buf net q
    using a [of True buf net q] that by simp
  have a4: "\<exists>r. (do { net \<leftarrow> mqvpn_cidr_premask (ip4_bytes h @ replicate 12 0) (nat q);
      Some (Some \<lparr>ce_family = 4, ce_prefix_len = of_int q, ce_net = net\<rparr>) }) = Some r \<and> pred_option cidr_ok r"
    if "pton4 buf = Some h" "0 \<le> q" "q \<le> 32" for buf h q
    using a [of False buf _ q] that by simp
  show ?thesis
    unfolding mqvpn_parse_cidr_def Let_def
    by (auto split: option.split list.split prod.split simp: not_less intro: a6 a4)
qed

text \<open>
  C16: Every range the code works with is well formed: whatever the assigned prefix or the text,
  learning the tunnel range and parsing a configured one stay within the address, and the result is
  unset or has a prefix that fits its family and no bit beyond it. On such a range the byte-wise
  comparison is the comparison of the leading bits.
\<close>

theorem hybrid_ranges_well_formed:
  assumes "\<forall>s a. pton6 s = Some a \<longrightarrow> length a = 16" and "length ip = 4" and "length ip6 = 16" and "cidr_ok e" and "length addr = 16"
  shows "(\<exists>e. mqvpn_tunnel_subnet_learn ip p = Some e \<and> cidr_ok e) \<and> (\<exists>e. mqvpn_tunnel_subnet_learn_v6 ip6 p = Some e \<and> cidr_ok e) \<and>
    (\<exists>r. mqvpn_parse_cidr pton4 pton6 s = Some r \<and> pred_option cidr_ok r) \<and>
    mqvpn_cidr_match e family addr = Some (covers e family addr)"
proof (intro conjI)
  have z: "cidr_ok zero_cidr" by (simp add: cidr_ok_def)
  show "\<exists>e. mqvpn_tunnel_subnet_learn ip p = Some e \<and> cidr_ok e"
  proof (cases "p \<le> 0")
    case False
    define q where "q = (if p < 24 then p else 24)"
    have q: "0 \<le> q" "q \<le> 32" using False by (auto simp: q_def)
    obtain net where "mqvpn_cidr_premask (ip @ replicate 12 0) (nat q) = Some net" "cidr_ok \<lparr>ce_family = 4, ce_prefix_len = of_int q, ce_net = net\<rparr>"
      using premask_entry [of "ip @ replicate 12 0" q 4] q assms(2) by auto
    then show ?thesis using False by (simp add: mqvpn_tunnel_subnet_learn_def Let_def flip: q_def)
  qed (simp add: mqvpn_tunnel_subnet_learn_def z)
  show "\<exists>e. mqvpn_tunnel_subnet_learn_v6 ip6 p = Some e \<and> cidr_ok e"
  proof (cases "p \<le> 0 \<or> p > 128")
    case False
    let ?p = "mqvpn_tunnel_prefix6_effective p"
    have "0 \<le> ?p" "?p \<le> 128" using False by (auto simp: mqvpn_tunnel_prefix6_effective_def)
    then obtain net where "mqvpn_cidr_premask ip6 (nat ?p) = Some net" "cidr_ok \<lparr>ce_family = 6, ce_prefix_len = of_int ?p, ce_net = net\<rparr>"
      using premask_entry [of ip6 ?p 6] assms(3) by auto
    then show ?thesis using False by (simp add: mqvpn_tunnel_subnet_learn_v6_def Let_def)
  qed (auto simp: mqvpn_tunnel_subnet_learn_v6_def z)
  show "\<exists>r. mqvpn_parse_cidr pton4 pton6 s = Some r \<and> pred_option cidr_ok r"
    by (rule parse_cidr_ok) (use assms(1) in blast)
  show "mqvpn_cidr_match e family addr = Some (covers e family addr)" by (rule match_covers) (rule assms)+
qed

definition hy_pton4 :: "string \<Rightarrow> u32 option" where
  "hy_pton4 s = (if s = ''10.1.2.3'' then Some 0x0A010203 else if s = ''10.0.0.0'' then Some 0x0A000000
     else if s = ''93.184.216.34'' then Some 0x5DB8D822 else None)"

definition hy_pton6 :: "string \<Rightarrow> u8 list option" where
  "hy_pton6 s = (if s = ''::1'' then Some (replicate 15 0 @ [1]) else None)"

theorem hybrid_ranges_well_formed_witness:
  "(\<exists>r. mqvpn_parse_cidr hy_pton4 hy_pton6 ''10.1.2.3/8'' = Some r \<and> pred_option cidr_ok r) \<and>
   mqvpn_parse_cidr hy_pton4 hy_pton6 ''10.1.2.3/8'' = Some (Some (cidr4 8 [10])) \<and>
   (\<exists>e. mqvpn_tunnel_subnet_learn [10, 0, 0, 7] 32 = Some e \<and> cidr_ok e) \<and>
   mqvpn_cidr_match (cidr4 8 [10]) 4 (10 # replicate 15 0) = Some (covers (cidr4 8 [10]) 4 (10 # replicate 15 0))"
proof -
  have "mqvpn_parse_cidr hy_pton4 hy_pton6 ''10.1.2.3/8'' = Some (Some (cidr4 8 [10]))" by code_simp
  moreover have "cidr_ok (cidr4 8 [10])" by code_simp
  ultimately show ?thesis
    using hybrid_ranges_well_formed [of hy_pton6 "[10, 0, 0, 7]" "replicate 16 1" "cidr4 8 [10]" "10 # replicate 15 0" 32 hy_pton4 "''10.1.2.3/8''" 4]
    by (auto simp: hy_pton6_def)
qed


section \<open>The default deny list\<close>

lemma mask_eq_div:
  assumes "0 < r" and "r < 8"
  shows "a AND cidr_mask r = b AND cidr_mask r \<longleftrightarrow> unat a div 2 ^ (8 - r) = unat b div 2 ^ (8 - r)"
proof -
  have "(\<forall>k < r. bit a (7 - k) = bit b (7 - k)) \<longleftrightarrow> drop_bit (8 - r) a = drop_bit (8 - r) b"
  proof
    assume k: "\<forall>k < r. bit a (7 - k) = bit b (7 - k)"
    show "drop_bit (8 - r) a = drop_bit (8 - r) b"
    proof (rule bit_eqI)
      fix n assume "possible_bit TYPE(8 word) n"
      show "bit (drop_bit (8 - r) a) n = bit (drop_bit (8 - r) b) n"
      proof (cases "8 - r + n < 8")
        case True
        then have "r - 1 - n < r" "7 - (r - 1 - n) = 8 - r + n" using assms by linarith+
        then have "bit a (8 - r + n) = bit b (8 - r + n)" using k by metis
        then show ?thesis by (simp add: bit_drop_bit_eq)
      next
        case False
        then have "\<not> bit x (8 - r + n)" for x :: u8 using bit_imp_le_length [of x "8 - r + n"] by auto
        then show ?thesis by (simp add: bit_drop_bit_eq)
      qed
    qed
  next
    assume d: "drop_bit (8 - r) a = drop_bit (8 - r) b"
    show "\<forall>k < r. bit a (7 - k) = bit b (7 - k)"
    proof (intro allI impI)
      fix k assume "k < r"
      then have e: "8 - r + (r - 1 - k) = 7 - k" using assms by linarith
      have "bit (drop_bit (8 - r) a) (r - 1 - k) = bit (drop_bit (8 - r) b) (r - 1 - k)" by (simp only: d)
      then show "bit a (7 - k) = bit b (7 - k)" by (simp only: bit_drop_bit_eq comp_apply e)
    qed
  qed
  also have "\<dots> \<longleftrightarrow> unat a div 2 ^ (8 - r) = unat b div 2 ^ (8 - r)"
    unfolding word_unat_eq_iff unat_drop_bit_eq by (simp only: drop_bit_eq_div)
  finally show ?thesis using mask_eq_bits [OF assms] by simp
qed

text \<open>The addresses no TCP flow may reach unless the configuration allows it.\<close>

definition private4 :: "u8 list \<Rightarrow> bool" where
  "private4 a \<longleftrightarrow> a ! 0 = 0 \<or> a ! 0 = 10 \<or> a ! 0 = 127 \<or> a ! 0 = 172 \<and> 16 \<le> a ! 1 \<and> a ! 1 \<le> 31 \<or> a ! 0 = 192 \<and> a ! 1 = 168 \<or>
     a ! 0 = 169 \<and> a ! 1 = 254 \<or> a ! 0 = 100 \<and> 64 \<le> a ! 1 \<and> a ! 1 \<le> 127 \<or> 224 \<le> a ! 0"

definition private6 :: "u8 list \<Rightarrow> bool" where
  "private6 a \<longleftrightarrow> a = replicate 15 0 @ [1] \<or> a = replicate 16 0 \<or> a ! 0 = 0xfe \<and> 0x80 \<le> a ! 1 \<and> a ! 1 \<le> 0xbf \<or>
     a ! 0 = 0xfc \<or> a ! 0 = 0xfd \<or> a ! 0 = 0xff \<or> take 12 a = replicate 10 0 @ [0xff, 0xff]"

lemma any_match_covers:
  assumes "list_all cidr_ok es" and "length addr = 16"
  shows "any_match es family addr = Some (list_ex (\<lambda>e. covers e family addr) es)"
  using assms(1) by (induction es) (simp_all add: match_covers [OF _ assms(2)])

lemma masked_ok:
  assumes "mqvpn_cidr_premask (ce_net e) (unat (ce_prefix_len e)) = Some (ce_net e)" and "length (ce_net e) = 16"
    and "ce_family e = 6 \<and> ce_prefix_len e \<le> 128 \<or> ce_family e = 4 \<and> ce_prefix_len e \<le> 32 \<and> drop 4 (ce_net e) = replicate 12 0"
  shows "cidr_ok e"
proof -
  have p: "int (unat (ce_prefix_len e)) \<le> 128" "ce_family e = 4 \<Longrightarrow> int (unat (ce_prefix_len e)) \<le> 32"
  proof -
    have "unat (ce_prefix_len e) \<le> 128" "ce_family e = 4 \<Longrightarrow> unat (ce_prefix_len e) \<le> 32"
      using assms(3) by (auto simp: word_le_nat_alt)
    then show "int (unat (ce_prefix_len e)) \<le> 128" "ce_family e = 4 \<Longrightarrow> int (unat (ce_prefix_len e)) \<le> 32" by linarith+
  qed
  have w: "(of_int (int (unat (ce_prefix_len e))) :: u8) = ce_prefix_len e" by simp
  have d: "ce_family e = 6 \<and> int (unat (ce_prefix_len e)) \<le> 128 \<or>
      ce_family e = 4 \<and> int (unat (ce_prefix_len e)) \<le> 32 \<and> drop 4 (ce_net e) = replicate 12 0"
    using assms(3) p by blast
  obtain net where "mqvpn_cidr_premask (ce_net e) (unat (ce_prefix_len e)) = Some net"
    "cidr_ok \<lparr>ce_family = ce_family e, ce_prefix_len = ce_prefix_len e, ce_net = net\<rparr>"
    using premask_entry [OF assms(2) of_nat_0_le_iff d] unfolding w nat_int by blast
  then show ?thesis using assms(1) by (cases e) simp
qed

lemma deny_tables_ok: "list_all cidr_ok DEFAULT_DENY_V4" "list_all cidr_ok DEFAULT_DENY_V6"
proof -
  have "list_all (\<lambda>e. mqvpn_cidr_premask (ce_net e) (unat (ce_prefix_len e)) = Some (ce_net e) \<and> length (ce_net e) = 16 \<and>
      (ce_family e = 6 \<and> ce_prefix_len e \<le> 128 \<or> ce_family e = 4 \<and> ce_prefix_len e \<le> 32 \<and> drop 4 (ce_net e) = replicate 12 0))
      (DEFAULT_DENY_V4 @ DEFAULT_DENY_V6)" by code_simp
  then show "list_all cidr_ok DEFAULT_DENY_V4" "list_all cidr_ok DEFAULT_DENY_V6" by (auto simp: list_all_iff intro!: masked_ok)
qed

lemma covers4: "length net \<le> 16 \<Longrightarrow> r < 8 \<Longrightarrow> unat p = 8 * q + r \<Longrightarrow>
  covers (cidr4 p net) 4 a \<longleftrightarrow> (\<forall>j < q. a ! j = (net @ replicate (16 - length net) 0) ! j) \<and>
    (r = 0 \<or> a ! q AND cidr_mask r = (net @ replicate (16 - length net) 0) ! q AND cidr_mask r)"
  by (simp add: covers_def cidr4_def same_prefix_bytes)

lemma covers6: "length net \<le> 16 \<Longrightarrow> r < 8 \<Longrightarrow> unat p = 8 * q + r \<Longrightarrow>
  covers (cidr6 p net) 6 a \<longleftrightarrow> (\<forall>j < q. a ! j = (net @ replicate (16 - length net) 0) ! j) \<and>
    (r = 0 \<or> a ! q AND cidr_mask r = (net @ replicate (16 - length net) 0) ! q AND cidr_mask r)"
  by (simp add: covers_def cidr6_def same_prefix_bytes)

lemma lex: "list_ex P (x # xs) \<longleftrightarrow> P x \<or> list_ex P xs" "list_ex P [] \<longleftrightarrow> False"
  by simp_all

lemma div_iff: "0 < k \<Longrightarrow> x div k = q \<longleftrightarrow> k * q \<le> x \<and> x < k * q + k" for x k q :: nat
proof
  assume k: "0 < k" and "x div k = q"
  then show "k * q \<le> x \<and> x < k * q + k" using mult_div_mod_eq [of k x] mod_less_divisor [OF k, of x] by auto
next
  assume "0 < k" and "k * q \<le> x \<and> x < k * q + k"
  then show "x div k = q" by (intro div_nat_eqI) (auto simp: mult.commute)
qed

lemma div16: "x div 16 = 1 \<longleftrightarrow> 16 \<le> x \<and> x \<le> 31" "x < 256 \<Longrightarrow> x div 16 = 14 \<or> x div 16 = 15 \<longleftrightarrow> 224 \<le> x" for x :: nat
  by (auto simp: div_iff)

lemma div64: "x div 64 = 1 \<longleftrightarrow> 64 \<le> x \<and> x \<le> 127" "x div 64 = 2 \<longleftrightarrow> 128 \<le> x \<and> x \<le> 191" for x :: nat
  by (auto simp: div_iff)

lemma deny4: "list_ex (\<lambda>e. covers e 4 a) DEFAULT_DENY_V4 \<longleftrightarrow> private4 a"
proof -
  have f: "(\<forall>j < Suc 0. P j) \<longleftrightarrow> P 0" "(\<forall>j < 2. P j) \<longleftrightarrow> P 0 \<and> P (Suc 0)" for P :: "nat \<Rightarrow> bool"
    by (auto simp: numeral_2_eq_2 less_Suc_eq)
  have e: "covers (cidr4 8 [b]) 4 a \<longleftrightarrow> a ! 0 = b" for b by (subst covers4 [where q = 1 and r = 0]) (simp_all add: f)
  have d: "covers (cidr4 16 [b, c]) 4 a \<longleftrightarrow> a ! 0 = b \<and> a ! 1 = c" for b c
    by (subst covers4 [where q = 2 and r = 0]) (simp_all add: f)
  have m: "covers (cidr4 12 [172, 16]) 4 a \<longleftrightarrow> a ! 0 = 172 \<and> unat (a ! 1) div 16 = 1"
    "covers (cidr4 10 [100, 64]) 4 a \<longleftrightarrow> a ! 0 = 100 \<and> unat (a ! 1) div 64 = 1"
    by (subst covers4 [where q = 1 and r = 4], simp_all add: f mask_eq_div) (subst covers4 [where q = 1 and r = 2], simp_all add: f mask_eq_div)
  have h: "covers (cidr4 4 [224]) 4 a \<longleftrightarrow> unat (a ! 0) div 16 = 14" "covers (cidr4 4 [240]) 4 a \<longleftrightarrow> unat (a ! 0) div 16 = 15"
    by (subst covers4 [where q = 0 and r = 4], simp_all add: mask_eq_div)+
  have b: "covers (cidr4 32 [255, 255, 255, 255]) 4 a \<Longrightarrow> a ! 0 = 255"
    by (subst (asm) covers4 [where q = 4 and r = 0]) (auto dest: spec [of _ 0])
  have u: "unat (a ! 0) < 256" "unat (a ! 1) < 256" by (rule unat_u8_lt)+
  have n: "unat (a ! 1) div 16 = 1 \<longleftrightarrow> 16 \<le> a ! 1 \<and> a ! 1 \<le> 31" "unat (a ! 1) div 64 = 1 \<longleftrightarrow> 64 \<le> a ! 1 \<and> a ! 1 \<le> 127"
    "unat (a ! 0) div 16 = 14 \<or> unat (a ! 0) div 16 = 15 \<longleftrightarrow> 224 \<le> a ! 0"
    unfolding div16(1) div64(1) div16(2) [OF u(1)] by (simp_all add: word_le_nat_alt)
  have "224 \<le> a ! 0" if "a ! 0 = 255" using that by simp
  then have b: "covers (cidr4 32 [255, 255, 255, 255]) 4 a \<Longrightarrow> 224 \<le> a ! 0" using b by blast
  show ?thesis
    unfolding DEFAULT_DENY_V4_def private4_def lex e d m h using b n by blast
qed

lemma deny6:
  assumes "length a = 16"
  shows "list_ex (\<lambda>e. covers e 6 a) DEFAULT_DENY_V6 \<longleftrightarrow> private6 a"
proof -
  have f: "(\<forall>j < Suc 0. P j) \<longleftrightarrow> P 0" for P :: "nat \<Rightarrow> bool" by simp
  have l: "a = net \<longleftrightarrow> (\<forall>j < 16. a ! j = net ! j)" if "length net = 16" for net using assms that by (auto simp: list_eq_iff_nth_eq)
  have t: "take 12 a = net \<longleftrightarrow> (\<forall>j < 12. a ! j = (net @ replicate (16 - length net) 0) ! j)" if "length net = 12" for net
    using assms that by (auto simp: list_eq_iff_nth_eq nth_append)
  have c1: "covers (cidr6 128 (replicate 15 0 @ [1])) 6 a \<longleftrightarrow> a = replicate 15 0 @ [1]"
    by (subst covers6 [where q = 16 and r = 0]) (simp_all add: l)
  have c2: "covers (cidr6 128 [0]) 6 a \<longleftrightarrow> a = replicate 16 0"
  proof -
    have r: "[0 :: u8] @ replicate 15 0 = replicate 16 0" by (simp add: numeral_eq_Suc)
    show ?thesis by (subst covers6 [where q = 16 and r = 0]) (simp_all add: l r [simplified])
  qed
  have c3: "covers (cidr6 96 (replicate 10 0 @ [0xff, 0xff])) 6 a \<longleftrightarrow> take 12 a = replicate 10 0 @ [0xff, 0xff]"
    by (subst t, simp, subst covers6 [where q = 12 and r = 0]) simp_all
  have c4: "covers (cidr6 8 [0xff]) 6 a \<longleftrightarrow> a ! 0 = 0xff" by (subst covers6 [where q = 1 and r = 0]) (simp_all add: f)
  have c5: "covers (cidr6 10 [0xfe, 0x80]) 6 a \<longleftrightarrow> a ! 0 = 0xfe \<and> unat (a ! 1) div 64 = 2"
    by (subst covers6 [where q = 1 and r = 2]) (simp_all add: f mask_eq_div)
  have c6: "covers (cidr6 7 [0xfc]) 6 a \<longleftrightarrow> unat (a ! 0) div 2 = 126"
    by (subst covers6 [where q = 0 and r = 7]) (simp_all add: mask_eq_div)
  have n5: "unat (a ! 1) div 64 = 2 \<longleftrightarrow> 0x80 \<le> a ! 1 \<and> a ! 1 \<le> 0xbf" unfolding div64(2) by (simp add: word_le_nat_alt)
  have "x div 2 = 126 \<longleftrightarrow> x = 252 \<or> x = 253" for x :: nat by (auto simp: div_iff)
  then have n6: "unat (a ! 0) div 2 = 126 \<longleftrightarrow> a ! 0 = 0xfc \<or> a ! 0 = 0xfd" by (simp add: word_unat_eq_iff)
  show ?thesis
    unfolding DEFAULT_DENY_V6_def private6_def lex c1 c2 c3 c4 c5 c6 n5 n6 by blast
qed

lemma acl_decide_spec:
  assumes "list_all cidr_ok (tunnel # allow @ deny)" and "length addr = 16" and "family = 4 \<or> family = 6"
  shows "svr_tcp_egress_acl_decide family addr allow deny tunnel =
    Some (\<not> covers tunnel family addr \<and>
      (list_ex (\<lambda>e. covers e family addr) allow \<or>
       \<not> (if family = 6 then private6 addr else private4 addr) \<and> \<not> list_ex (\<lambda>e. covers e family addr) deny))"
proof -
  have d: "any_match (if family = 6 then DEFAULT_DENY_V6 else DEFAULT_DENY_V4) family addr = Some (if family = 6 then private6 addr else private4 addr)"
    using assms(3) any_match_covers [OF deny_tables_ok(1) assms(2)] any_match_covers [OF deny_tables_ok(2) assms(2)] deny4 deny6 [OF assms(2)] by auto
  have o: "cidr_ok tunnel" "list_all cidr_ok allow" "list_all cidr_ok deny" using assms(1) by simp_all
  show ?thesis
    unfolding svr_tcp_egress_acl_decide_def match_covers [OF o(1) assms(2)] any_match_covers [OF o(2) assms(2)]
      any_match_covers [OF o(3) assms(2)] d by simp
qed

text \<open>
  C15: The server's decision about the destination of a TCP flow. The tunnel's own range is always
  refused; else a configured allow range admits; else loopback, private, shared, link-local,
  multicast, reserved and unspecified addresses are refused (for IPv6 also the v4-mapped ones), and
  what a configured deny range covers; everything else is admitted. No byte outside the address or
  the ranges is read.
\<close>

theorem egress_acl_decision:
  assumes "list_all cidr_ok (tunnel # allow @ deny)" and "length addr = 16" and "family = 4 \<or> family = 6"
  shows "svr_tcp_egress_acl_decide family addr allow deny tunnel =
    Some (\<not> covers tunnel family addr \<and>
      (list_ex (\<lambda>e. covers e family addr) allow \<or>
       \<not> (if family = 6 then private6 addr else private4 addr) \<and> \<not> list_ex (\<lambda>e. covers e family addr) deny))"
  using assms by (rule acl_decide_spec)

theorem egress_acl_decision_witness:
  "svr_tcp_egress_acl_decide 4 ([10, 9, 0, 1] @ replicate 12 0) [cidr4 16 [10, 9]] [] (cidr4 24 [10, 0, 0]) = Some True \<and>
   svr_tcp_egress_acl_decide 4 ([10, 8, 0, 1] @ replicate 12 0) [cidr4 16 [10, 9]] [] (cidr4 24 [10, 0, 0]) = Some False"
proof -
  have "list_all cidr_ok (cidr4 24 [10, 0, 0] # [cidr4 16 [10, 9]] @ [])" by code_simp
  note a = egress_acl_decision [OF this]
  have "covers (cidr4 16 [10, 9]) 4 ([10, 9, 0, 1] @ replicate 12 0) \<and> \<not> covers (cidr4 24 [10, 0, 0]) 4 ([10, 9, 0, 1] @ replicate 12 0) \<and>
      \<not> covers (cidr4 16 [10, 9]) 4 ([10, 8, 0, 1] @ replicate 12 0)" by code_simp
  then show ?thesis
    using a [of "[10, 9, 0, 1] @ replicate 12 0" 4] a [of "[10, 8, 0, 1] @ replicate 12 0" 4] by (simp add: private4_def)
qed

section \<open>Configuration\<close>

lemma sanitize_valid: "mqvpn_hybrid_config_validate (fst (mqvpn_hybrid_config_sanitize cfg))"
  unfolding mqvpn_hybrid_config_validate_def mqvpn_hybrid_config_sanitize_def
  by (cases "hc_tcp_mode cfg > MQVPN_HYBRID_TCP_AUTO"; cases "hc_tcp_max_flows cfg = 0"; cases "hc_tcp_connect_timeout_sec cfg = 0";
      cases "hc_tcp_max_global_flows cfg = 0")
    (simp_all add: MQVPN_TCP_MAX_FLOWS_DEFAULT_def MQVPN_TCP_CONNECT_TIMEOUT_SEC_DEFAULT_def MQVPN_TCP_MAX_GLOBAL_FLOWS_DEFAULT_def)

lemma sanitize_keeps_valid: "mqvpn_hybrid_config_validate cfg \<Longrightarrow> mqvpn_hybrid_config_sanitize cfg = (cfg, [])"
  by (simp add: mqvpn_hybrid_config_validate_def mqvpn_hybrid_config_sanitize_def)

lemma fd_budget_bounds:
  "0 \<le> svr_compute_egress_fd_budget n r" "svr_compute_egress_fd_budget n r \<le> uint n" "svr_compute_egress_fd_budget n r \<le> 2147483647"
  by (cases r; simp add: svr_compute_egress_fd_budget_def Let_def)+

section \<open>From the client's lane to the server's decision\<close>

lemma strchr_split: "c \<notin> set h \<Longrightarrow> strchr c (h @ c # r) = Some (h, r)"
  by (induction h) (auto simp: strchr_def split: list.splits)

lemma strchr_None: "c \<notin> set h \<Longrightarrow> strchr c h = None"
proof -
  assume "c \<notin> set h"
  then have "dropWhile (\<lambda>x. x \<noteq> c) h = []" by (auto simp: dropWhile_eq_Nil_conv)
  then show ?thesis by (simp only: strchr_def list.case)
qed

lemma decimal_chars: "c \<in> set (decimal n) \<Longrightarrow> isdigit c"
  using decimal_digits [of n] by (simp add: list_all_iff)

lemma dotted_chars: "CHR ''/'' \<notin> set (dotted a)" "CHR '':'' \<notin> set (dotted a)"
  by (auto simp: dotted_def isdigit_def dest: decimal_chars)

lemma dotted_length: "length (dotted a) \<le> 15 \<and> dotted a \<noteq> []"
proof -
  have l: "length (decimal (unat (b :: u8))) \<le> 3" for b
    by (rule decimal_length) (use unat_u8_lt [of b] in simp_all)
  show ?thesis using l [of "a ! 0"] l [of "a ! 1"] l [of "a ! 2"] l [of "a ! 3"] by (simp add: dotted_def)
qed

lemma port_loop_snoc: "port_loop v (xs @ [c]) = (case port_loop v xs of None \<Rightarrow> None | Some w \<Rightarrow> port_loop w [c])"
  by (induction xs arbitrary: v) (simp_all add: Let_def)

lemma port_loop_decimal: "n \<le> 65535 \<Longrightarrow> port_loop 0 (decimal n) = Some n"
proof (induction n rule: decimal.induct)
  case (1 n)
  have "n div 10 \<le> 65535" using "1.prems" by linarith
  then show ?case
    using 1 digit_char [of "n mod 10"] digit_char [of n] by (simp add: decimal.simps [of n] port_loop_snoc Let_def)
qed

lemma path_roundtrip:
  assumes "CHR ''/'' \<notin> set host" and "host \<noteq> []" and "length host < cap" and "0 < port" and "port \<le> 65535"
  shows "svr_tcp_egress_parse_path (MQVPN_TCP_CONNECT_PATH_PREFIX @ host @ ''/'' @ decimal port @ ''/'') cap = Some (host, of_nat port)"
proof -
  have p: "MQVPN_TCP_CONNECT_PATH_PREFIX = TCP_EGRESS_PATH_PREFIX" by (simp add: MQVPN_TCP_CONNECT_PATH_PREFIX_def TCP_EGRESS_PATH_PREFIX_def)
  have d: "CHR ''/'' \<notin> set (decimal port)" by (auto simp: isdigit_def dest: decimal_chars)
  have l: "length (decimal port) \<le> 5" "decimal port \<noteq> []" using decimal_length [of port 5] decimal_digits [of port] assms(5) by simp_all
  have s1: "strchr CHR ''/'' (host @ ''/'' @ decimal port @ ''/'') = Some (host, decimal port @ ''/'')"
    using strchr_split [OF assms(1)] by simp
  have s2: "strchr CHR ''/'' (decimal port @ ''/'') = Some (decimal port, [])" using strchr_split [OF d] by simp
  show ?thesis
    unfolding svr_tcp_egress_parse_path_def p using assms l s1 s2 port_loop_decimal [OF assms(5)] by simp
qed

lemma classify_TCP:
  assumes "mqvpn_hybrid_classify pkt (Some pol) = Some (MQVPN_LANE_TCP, k)"
  shows "\<exists>key. k = Some key \<and> mqvpn_parse_l3l4 pkt = Some (MQVPN_L4_TCP, Some key) \<and>
    mqvpn_cidr_match (if fk_ip_version key = 6 then hc_tunnel6 pol else hc_tunnel4 pol) (fk_ip_version key) (fk_dst_ip key) = Some False"
proof -
  obtain v ko where p: "mqvpn_parse_l3l4 pkt = Some (v, ko)" using mqvpn_parse_l3l4_total [of pkt] by auto
  note a = assms [unfolded mqvpn_hybrid_classify_def p Option.bind.simps(2) prod.case option.case]
  have v: "v = MQVPN_L4_TCP" using a by (cases v) simp_all
  then obtain key where k: "ko = Some key" using mqvpn_parse_l3l4_ok [OF p] by (cases ko) simp_all
  note b = a [unfolded v k mqvpn_l4_verdict.case option.case]
  let ?m = "mqvpn_cidr_match (if fk_ip_version key = 6 then hc_tunnel6 pol else hc_tunnel4 pol) (fk_ip_version key) (fk_dst_ip key)"
  define body where "body nt = (if nt then Some (MQVPN_LANE_RAW, Some key)
      else if fk_ip_version key = 6 \<and> v6_lane_ineligible key then Some (MQVPN_LANE_RAW, Some key)
      else do { m \<leftarrow> ?m; Some (if m then MQVPN_LANE_RAW else MQVPN_LANE_TCP, Some key) })" for nt
  define test where "test = (if fk_ip_version key = 6 then do { b \<leftarrow> rd pkt 6; Some (b \<noteq> MQVPN_IPPROTO_TCP) } else Some False)"
  have "(if \<not> hc_enabled pol \<or> hc_tcp_mode pol = MQVPN_HYBRID_TCP_RAW then Some (MQVPN_LANE_RAW, Some key) else test \<bind> body) = Some (MQVPN_LANE_TCP, k)"
    unfolding test_def body_def by (rule b)
  then have "test \<bind> body = Some (MQVPN_LANE_TCP, k)" by (simp split: if_split_asm)
  then obtain nt where c: "body nt = Some (MQVPN_LANE_TCP, k)" by (auto simp: bind_eq_Some_conv)
  have "?m = Some False \<and> k = Some key"
    using c unfolding body_def by (cases ?m) (simp_all split: if_split_asm)
  then show ?thesis using p v k by simp
qed

lemma ip4_bytes_prefix24: "drop_bit 8 a = drop_bit 8 b \<Longrightarrow> same_prefix 24 (ip4_bytes a @ z) (ip4_bytes b @ z)" for a b :: u32
proof -
  assume d: "drop_bit 8 a = drop_bit 8 b"
  have "drop_bit 16 (drop_bit 8 a) = drop_bit 16 (drop_bit 8 b)" "drop_bit 8 (drop_bit 8 a) = drop_bit 8 (drop_bit 8 b)"
    by (simp_all only: d)
  then have t: "drop_bit 24 a = drop_bit 24 b" "drop_bit 16 a = drop_bit 16 b" by (simp_all only: drop_bit_drop_bit arith_simps)
  have eq: "ip4_bytes a @ z = ucast (drop_bit 24 a) # ucast (drop_bit 16 a) # ucast (drop_bit 8 a) # ucast a # z" for a
    by (simp only: ip4_bytes_def append_Cons append_Nil)
  have "\<forall>j < 3. (ip4_bytes a @ z) ! j = (ip4_bytes b @ z) ! j"
  proof (intro allI impI)
    fix j :: nat assume "j < 3"
    then have "j = 0 \<or> j = Suc 0 \<or> j = Suc (Suc 0)" by linarith
    then show "(ip4_bytes a @ z) ! j = (ip4_bytes b @ z) ! j"
      unfolding eq t d by (elim disjE) (simp_all only: nth_Cons_0 nth_Cons_Suc)
  qed
  then show ?thesis using same_prefix_bytes [of 0 3 "ip4_bytes a @ z" "ip4_bytes b @ z"] by simp
qed

lemma lease_prefix24:
  assumes "mqvpn_addr_pool_init pton4 cidr = Some pool" and "24 \<le> ap_prefix_len pool"
    and "unat (ap_base pool) mod 2 ^ nat (32 - ap_prefix_len pool) = 0" and "lease \<in> pool_usable pool"
  shows "drop_bit 8 lease = drop_bit 8 (ap_base pool)"
proof -
  obtain plen base where p: "\<not> plen < 16" "\<not> 30 < plen" "pool = zero_pool\<lparr>ap_prefix_len := plen, ap_base := base,
      ap_pool_size := usable_hosts plen, ap_next := 2\<rparr>"
    using assms(1) by (auto simp: mqvpn_addr_pool_init_def Let_def not_less split: option.splits prod.splits if_splits)
  have pl: "plen = 24 \<or> plen = 25 \<or> plen = 26 \<or> plen = 27 \<or> plen = 28 \<or> plen = 29 \<or> plen = 30"
    using p assms(2) by (auto simp: not_less)
  then obtain k where k: "k \<le> 8" "nat (32 - plen) = k" "unat (usable_hosts plen) < 2 ^ k"
    by (elim disjE) (auto simp: usable_hosts_def MQVPN_ADDR_POOL_MAX_def)
  have o: "base \<le> lease" "unat (lease - base) < 2 ^ k" using assms(4) k(3) by (auto simp: pool_usable_def p(3))
  then have u: "unat lease = unat base + unat (lease - base)" by (simp add: word_le_nat_alt unat_sub)
  have m: "unat base mod 2 ^ k = 0" using assms(3) k(2) by (simp add: p(3))
  have "unat lease div 2 ^ k = unat base div 2 ^ k" using u o(2) m by (metis add.right_neutral div_less div_plus_div_distrib_dvd_left dvd_eq_mod_eq_0)
  then have "unat lease div 2 ^ k div 2 ^ (8 - k) = unat base div 2 ^ k div 2 ^ (8 - k)" by simp
  then have "unat lease div 2 ^ 8 = unat base div 2 ^ 8" using k(1) by (simp add: div_mult2_eq [symmetric] power_add [symmetric])
  then show ?thesis unfolding word_unat_eq_iff unat_drop_bit_eq by (simp add: drop_bit_eq_div p(3))
qed

lemma learn_spec:
  assumes "length ip = 4" and "mqvpn_tunnel_subnet_learn ip 32 = Some t"
  shows "cidr_ok t" and "length addr = 16 \<Longrightarrow> covers t 4 addr \<longleftrightarrow> same_prefix 24 addr (ip @ replicate 12 0)"
proof -
  obtain net where m: "mqvpn_cidr_premask (ip @ replicate 12 0) (nat 24) = Some net" "cidr_ok \<lparr>ce_family = 4, ce_prefix_len = of_int 24, ce_net = net\<rparr>"
    "same_prefix (nat 24) net (ip @ replicate 12 0)"
    using premask_entry [of "ip @ replicate 12 0" 24 4] assms(1) by auto
  have t: "t = \<lparr>ce_family = 4, ce_prefix_len = of_int 24, ce_net = net\<rparr>"
    using assms(2) m(1) by (simp add: mqvpn_tunnel_subnet_learn_def)
  then show "cidr_ok t" using m(2) by simp
  show "covers t 4 addr \<longleftrightarrow> same_prefix 24 addr (ip @ replicate 12 0)"
  proof -
    have "covers t 4 addr \<longleftrightarrow> same_prefix 24 addr net" by (simp add: covers_def t)
    then show ?thesis using same_prefix_cong [OF m(3)] by simp
  qed
qed

lemma policy_spec:
  assumes "mqvpn_addr_pool_init pton4 cidr = Some pool"
  shows "\<exists>t4. svr_get_egress_policy pool = Some (t4, zero_cidr) \<and> cidr_ok t4 \<and>
    (\<forall>addr. covers t4 4 addr \<longrightarrow> same_prefix (nat (ap_prefix_len pool)) addr (ip4_bytes (ap_base pool) @ replicate 12 0))"
proof -
  obtain plen base where p: "\<not> plen < 16" "\<not> 30 < plen" "pool = zero_pool\<lparr>ap_prefix_len := plen, ap_base := base,
      ap_pool_size := usable_hosts plen, ap_next := 2\<rparr>"
    using assms by (auto simp: mqvpn_addr_pool_init_def Let_def not_less split: option.splits prod.splits if_splits)
  have n: "unat (of_int plen :: u8) = nat plen" using p(1,2) by (intro prefix_word) auto
  let ?b = "ip4_bytes base @ replicate 12 0"
  have "length ?b = 16" "drop 4 ?b = replicate 12 0" by (simp_all add: ip4_bytes_def)
  then obtain net where m: "mqvpn_cidr_premask ?b (nat plen) = Some net" "cidr_ok \<lparr>ce_family = 4, ce_prefix_len = of_int plen, ce_net = net\<rparr>"
    "same_prefix (nat plen) net ?b"
    using premask_entry [of ?b plen 4] p(1,2) by auto
  have "svr_get_egress_policy pool = Some (\<lparr>ce_family = 4, ce_prefix_len = of_int plen, ce_net = net\<rparr>, zero_cidr)"
    using m(1) n by (simp add: svr_get_egress_policy_def p(3) zero_pool_def)
  moreover have "same_prefix (nat plen) addr ?b" if "covers \<lparr>ce_family = 4, ce_prefix_len = of_int plen, ce_net = net\<rparr> 4 addr" for addr
  proof -
    have "same_prefix (nat plen) addr net" using that n by (simp add: covers_def)
    then show ?thesis using same_prefix_cong [OF m(3)] by simp
  qed
  ultimately show ?thesis using m(2) by (auto simp: p(3))
qed

text \<open>
  C14: From the client's lane to the server's decision. A client whose address comes from a pool with
  an aligned base and a prefix of at least 24 learns its tunnel range from it. When it puts an
  IPv4 TCP packet on the TCP lane, the path it requests fits its buffer, the server reads the
  packet's own destination address and port back from it, and never refuses the flow as one
  into the tunnel: only the configured ranges and the default deny list decide.
\<close>

theorem laned_flow_decided_on_its_destination:
  assumes "mqvpn_addr_pool_init pton4 cidr = Some pool" and "24 \<le> ap_prefix_len pool"
    and "unat (ap_base pool) mod 2 ^ nat (32 - ap_prefix_len pool) = 0" and "lease \<in> pool_usable pool"
    and "mqvpn_tunnel_subnet_learn (ip4_bytes lease) 32 = Some (hc_tunnel4 pol)"
    and "mqvpn_hybrid_classify pkt (Some pol) = Some (MQVPN_LANE_TCP, Some key)" and "fk_ip_version key = 4" and "fk_dst_port key \<noteq> 0"
    and "map_option ip4_bytes (pton4 (dotted (fk_dst_ip key))) = Some (take 4 (fk_dst_ip key))"
    and "list_all cidr_ok (hc_egress_allow cfg @ hc_egress_deny cfg)"
  shows "\<exists>path. mqvpn_tcp_lane_format_connect_path ntop6 MQVPN_TCP_CONNECT_PATH_CAP key = Some (path, length path) \<and>
    svr_tcp_egress_parse_path path 46 = Some (dotted (fk_dst_ip key), fk_dst_port key) \<and>
    svr_tcp_egress_acl_allowed pton4 pton6 cfg pool (dotted (fk_dst_ip key)) =
      Some (list_ex (\<lambda>e. covers e 4 (fk_dst_ip key)) (hc_egress_allow cfg) \<or>
        \<not> private4 (fk_dst_ip key) \<and> \<not> list_ex (\<lambda>e. covers e 4 (fk_dst_ip key)) (hc_egress_deny cfg))"
proof -
  let ?dst = "fk_dst_ip key" and ?port = "unat (fk_dst_port key)"
  let ?path = "MQVPN_TCP_CONNECT_PATH_PREFIX @ dotted ?dst @ ''/'' @ decimal ?port @ ''/''"
  have port: "0 < ?port" "?port \<le> 65535" using assms(8) unat_u16_lt [of "fk_dst_port key"] by (auto simp: unat_gt_0)
  have pl: "length (decimal ?port) \<le> 5" using decimal_length [of ?port 5] port by simp
  have len: "length ?path \<le> 79" using dotted_length [of ?dst] pl by (simp add: MQVPN_TCP_CONNECT_PATH_PREFIX_def)
  have f: "mqvpn_tcp_lane_format_connect_path ntop6 MQVPN_TCP_CONNECT_PATH_CAP key = Some (?path, length ?path)"
    using len assms(7) by (simp add: mqvpn_tcp_lane_format_connect_path_def MQVPN_TCP_CONNECT_PATH_CAP_def)
  have g: "svr_tcp_egress_parse_path ?path 46 = Some (dotted ?dst, fk_dst_port key)"
    using path_roundtrip [OF dotted_chars(1) _ _ port, of ?dst 46] dotted_length [of ?dst] by simp
  have cl: "mqvpn_parse_l3l4 pkt = Some (MQVPN_L4_TCP, Some key)" "mqvpn_cidr_match (hc_tunnel4 pol) 4 ?dst = Some False"
    using classify_TCP [OF assms(6)] assms(7) by auto
  have wf: "length ?dst = 16" "drop 4 ?dst = replicate 12 0"
    using mqvpn_parse_l3l4_ok [OF cl(1)] assms(7) by (auto simp: flow_key_wf_def)
  note L = learn_spec [OF _ assms(5)]
  have "\<not> covers (hc_tunnel4 pol) 4 ?dst" using match_covers [OF L(1) wf(1), of 4] cl(2) by (simp add: ip4_bytes_def)
  then have not_lease: "\<not> same_prefix 24 ?dst (ip4_bytes lease @ replicate 12 0)" using L(2) wf(1) by (simp add: ip4_bytes_def)
  obtain t4 where t4: "svr_get_egress_policy pool = Some (t4, zero_cidr)" "cidr_ok t4"
    "covers t4 4 ?dst \<Longrightarrow> same_prefix (nat (ap_prefix_len pool)) ?dst (ip4_bytes (ap_base pool) @ replicate 12 0)"
    using policy_spec [OF assms(1)] by blast
  have "\<not> covers t4 4 ?dst"
  proof
    assume "covers t4 4 ?dst"
    then have "same_prefix 24 ?dst (ip4_bytes (ap_base pool) @ replicate 12 0)"
      by (rule same_prefix_rules(4) [OF t4(3)]) (use assms(2) in linarith)
    then show False
      using not_lease same_prefix_cong [OF ip4_bytes_prefix24 [OF lease_prefix24 [OF assms(1-4)]]] by blast
  qed
  moreover obtain h where h: "pton4 (dotted ?dst) = Some h" "ip4_bytes h @ replicate 12 0 = ?dst"
    using assms(9) wf append_take_drop_id [of 4 ?dst] by (auto simp: map_option_eq_Some)
  ultimately have "svr_tcp_egress_acl_allowed pton4 pton6 cfg pool (dotted ?dst) =
      Some (list_ex (\<lambda>e. covers e 4 ?dst) (hc_egress_allow cfg) \<or> \<not> private4 ?dst \<and> \<not> list_ex (\<lambda>e. covers e 4 ?dst) (hc_egress_deny cfg))"
    using acl_decide_spec [of t4 "hc_egress_allow cfg" "hc_egress_deny cfg" ?dst 4] assms(10) t4(1,2) wf(1) strchr_None [OF dotted_chars(2)]
    by (simp add: svr_tcp_egress_acl_allowed_def)
  then show ?thesis using f g by blast
qed

definition ex_tcp_pkt :: "u8 list" where
  "ex_tcp_pkt = [0x45, 0, 0, 40, 0, 0, 0, 0, 64, 6, 0, 0, 10, 0, 0, 7, 93, 184, 216, 34, 0xc0, 1, 1, 187] @ replicate 16 0"

definition ex_tcp_key :: mqvpn_flow_key where
  "ex_tcp_key = \<lparr>fk_ip_version = 4, fk_proto = 6, fk_src_port = 0xc001, fk_dst_port = 443,
     fk_src_ip = [10, 0, 0, 7] @ replicate 12 0, fk_dst_ip = [93, 184, 216, 34] @ replicate 12 0\<rparr>"

definition ex_policy :: mqvpn_hybrid_config where
  "ex_policy = mqvpn_hybrid_config_default\<lparr>hc_enabled := True, hc_tunnel4 := cidr4 24 [10, 0, 0]\<rparr>"

definition ex_pool24 :: mqvpn_addr_pool where
  "ex_pool24 = zero_pool\<lparr>ap_prefix_len := 24, ap_base := 0x0A000000, ap_pool_size := 254, ap_next := 2\<rparr>"

theorem laned_flow_decided_on_its_destination_witness:
  "\<exists>path. mqvpn_tcp_lane_format_connect_path (\<lambda>_. None) MQVPN_TCP_CONNECT_PATH_CAP ex_tcp_key = Some (path, length path) \<and>
    svr_tcp_egress_parse_path path 46 = Some (dotted (fk_dst_ip ex_tcp_key), 443) \<and>
    svr_tcp_egress_acl_allowed hy_pton4 hy_pton6 ex_policy ex_pool24 (dotted (fk_dst_ip ex_tcp_key)) = Some True"
proof -
  have d: "dotted (fk_dst_ip ex_tcp_key) = ''93.184.216.34''" by code_simp
  have "mqvpn_addr_pool_init hy_pton4 ''10.0.0.0/24'' = Some ex_pool24" by code_simp
  moreover have "24 \<le> ap_prefix_len ex_pool24" "unat (ap_base ex_pool24) mod 2 ^ nat (32 - ap_prefix_len ex_pool24) = 0"
    "(0x0A000007 :: u32) \<in> pool_usable ex_pool24" by (simp_all add: ex_pool24_def pool_usable_def)
  moreover have "mqvpn_tunnel_subnet_learn (ip4_bytes 0x0A000007) 32 = Some (hc_tunnel4 ex_policy)" by code_simp
  moreover have "mqvpn_hybrid_classify ex_tcp_pkt (Some ex_policy) = Some (MQVPN_LANE_TCP, Some ex_tcp_key)" by code_simp
  moreover have "fk_ip_version ex_tcp_key = 4" "fk_dst_port ex_tcp_key \<noteq> 0" by (simp_all add: ex_tcp_key_def)
  moreover have "map_option ip4_bytes (hy_pton4 (dotted (fk_dst_ip ex_tcp_key))) = Some (take 4 (fk_dst_ip ex_tcp_key))"
    unfolding d by code_simp
  moreover have "list_all cidr_ok (hc_egress_allow ex_policy @ hc_egress_deny ex_policy)"
    by (simp add: ex_policy_def mqvpn_hybrid_config_default_def)
  ultimately have "\<exists>path. mqvpn_tcp_lane_format_connect_path (\<lambda>_. None) MQVPN_TCP_CONNECT_PATH_CAP ex_tcp_key = Some (path, length path) \<and>
    svr_tcp_egress_parse_path path 46 = Some (dotted (fk_dst_ip ex_tcp_key), fk_dst_port ex_tcp_key) \<and>
    svr_tcp_egress_acl_allowed hy_pton4 hy_pton6 ex_policy ex_pool24 (dotted (fk_dst_ip ex_tcp_key)) =
      Some (list_ex (\<lambda>e. covers e 4 (fk_dst_ip ex_tcp_key)) (hc_egress_allow ex_policy) \<or>
        \<not> private4 (fk_dst_ip ex_tcp_key) \<and> \<not> list_ex (\<lambda>e. covers e 4 (fk_dst_ip ex_tcp_key)) (hc_egress_deny ex_policy))"
    by (rule laned_flow_decided_on_its_destination)
  then show ?thesis by (simp add: ex_tcp_key_def ex_policy_def mqvpn_hybrid_config_default_def private4_def)
qed

end
