(* ===== verification/Spec2Isabelle.thy ===== *)
theory Spec2Isabelle
  imports Path_Fsm Rx_Account Reorder_Gate Addr_Pool Rtx_Once Hybrid_Props
begin

text \<open>
  Verification of mqvpn, a multipath VPN over QUIC (C sources under src/src). A client captures IP
  packets, carries them over one QUIC connection with several network paths to a server, and the
  server forwards them. The parts with state and decisions of their own are modelled as functions
  and proved correct; the callbacks that join them to the QUIC library and to the operating system
  are not.

  \<^bold>\<open>Conventions.\<close> Integers are words of the width the source declares (\<open>u8\<close>, \<open>u16\<close>, \<open>u32\<close>,
  \<open>u64\<close>), so additions wrap as in C. Packets and addresses are lists of bytes; a read outside
  a buffer is the value \<open>None\<close> of an option, and theorems that a function returns \<open>Some\<close> exclude
  it. A structure is a record whose fields carry a prefix, an enumeration a datatype, a pointer into
  a table an index or a key. The outcome of an allocation is an argument. Loops are recursive; where
  the number of rounds is passed as fuel, lemmas show that the fuel suffices for the loop's own
  exit. \<open>inet_pton\<close>, \<open>inet_ntop\<close> and the random seed are parameters.

  \<^bold>\<open>Shared theories.\<close> Prelude: word synonyms, reads with bounds, big-endian numbers, runs of a step
  function and the locale \<open>machine\<close> (an invariant kept by every step holds after every run), on
  which the invariants of all components rest. C\_Strings: the C library's functions on strings that
  the sources use, and decimal notation.

  \<^bold>\<open>Path lifecycle\<close> (path\_state\_machine.c, path\_entry\_internal.h): Path\_Fsm. One function per event
  handler on the record of a path slot, the dispatcher \<open>path_on_event\<close>, and the transition operator
  \<open>Step\<close> of the design (formal/PathSlotFsm.tla) as a function of the abstract slot and the event
  to the next slot and whether the callback fires. The operator's other outputs (how the timers and
  the retry counter were set) and its STABLE\_TICK event are left out; the stability check of that
  event is a function of its own in the source and in the model. Every event keeps the slot's invariant and leads to the slot \<open>Step\<close> computes, retries stay
  within their budget, and a dropped slot is freed by the last completion.

  \<^bold>\<open>Reorder shim, wire format\<close> (reorder.h): Wire. Header encoding, the parser of IPv4 and IPv6
  packets with extension headers, flow keys, rules and configuration. Encoding and decoding are
  inverse, the parser reads inside the packet and finds the 5-tuple.

  \<^bold>\<open>Reorder receiver\<close> (reorder\_rx.c): Ring is the elastic ring buffer, refined to a map from
  sequence numbers (locale \<open>seq_buffer\<close>); Flow\_Table the chained hash table of flows (locale
  \<open>flow_table\<close>, shared with the sender); Reorder\_Rx has the operations in the order of the source;
  Rx\_Flow, Rx\_Ops and Rx\_Engine the invariants of a flow, of its operations and of the engine with
  its table, byte pool and sweeps; Rx\_Props the guarantees: packets of an epoch are delivered in
  strictly increasing order and none twice, the pool counter is exact, a timeout flushes to its mark
  and no further, a tick leaves nothing overdue, the loops end; Rx\_Account that the counters account
  for every packet of a flow and that the engine's count of delivered packets is exact over its life.

  \<^bold>\<open>Reorder sender\<close> (reorder\_tx.c): Reorder\_Tx. Peek, commit and the eviction of idle flows; the
  packets of a flow in use are numbered consecutively and an active flow is never evicted.
  Reorder\_Gate (reorder\_gate.h) is the decision whether to stamp, send raw or drop, and the token
  bucket of the Packet Too Big answers; Icmp (icmp.c) builds them, with checksums that pass a
  receiver's check stated independently of the code.

  \<^bold>\<open>Address pool\<close> (addr\_pool.c): Addr\_Pool. Leases are distinct, inside the range and never the
  server's own address (locale \<open>lease_pool\<close>, a \<open>machine\<close>).

  \<^bold>\<open>Redundant sender\<close> (redundant\_tx.c): Probe\_Table is the open-addressing table with its
  backward-shift removal, Rtx\_Table its refinement to a map (locale \<open>entry_table\<close>), Redundant\_Tx the
  operations, Redundant\_Props the port list, the packet filter, the choice of paths and the overload
  mode, Rtx\_Copies the invariant between the tables and the counters, Rtx\_Once the refinement of any
  sequence of calls to a specification, and that each original is reported once.

  \<^bold>\<open>Hybrid mode\<close> (hybrid/classifier.h, hybrid/classifier.c, part of hybrid/tcp\_lane.h,
  hybrid/tcp\_egress.c and mqvpn\_server.c): Hybrid and Hybrid\_Props. Address ranges as bit prefixes,
  the lane of a packet, the request path, and the server's access control; a theorem joins them with
  the wire parser and the address pool.

  \<^bold>\<open>Fuel.\<close> The walk of IPv6 extension headers has the 16 rounds of the source. Probing a table has
  one round per slot, and an invariant keeps a slot free. Draining a ring has one round per buffered
  packet. The scan of the pool has one round per address.

  \<^bold>\<open>Not modelled.\<close> The client and server objects (mqvpn\_client.c, mqvpn\_server.c apart from the
  egress policy), which are callbacks of the QUIC and HTTP/3 library; the relays of the hybrid TCP
  lane between lwIP, sockets and streams; configuration files and command lines; the SNI router and
  the HTTP/2 proxy, which are socket event loops; keys, logging, clocks and the platform code
  (interfaces, routes, DNS, firewalls), which are system calls.
\<close>

end
